(* ===== verification/Cast_Prelude.thy ===== *)
theory Cast_Prelude
  imports Main "HOL-Library.Word"
begin

text \<open>
  Shared vocabulary of the development: the machine integers of the crate, the byte order
  conversions of Rust's standard library (\<open>to_be_bytes\<close>, \<open>from_be_bytes\<close>,
  \<open>from_le_bytes\<close>), \<open>slice::get\<close>, \<open>chunks_exact\<close>, strings as bytes, and
  the generic lemmas about them. \<open>usize\<close> is 64 bits wide, as on every target the crate
  builds for. A \<open>Duration\<close> and an \<open>Instant\<close> are natural numbers of nanoseconds;
  natural subtraction stops at 0, as \<open>Instant::duration_since\<close> does. Arithmetic on words
  wraps, which is what Rust's \<open>wrapping_*\<close> operations do in every profile and its plain
  operators do in the release profile the crate is shipped in.

  The collection \<open>byte_simps\<close> holds the conversions between words and bytes.
\<close>

unbundle bit_operations_syntax

named_theorems byte_simps

section \<open>Machine integers\<close>

type_synonym u8 = "8 word"
type_synonym i16 = "16 word"
type_synonym u16 = "16 word"
type_synonym u32 = "32 word"
type_synonym u64 = "64 word"
type_synonym usize = "64 word"
type_synonym bytes = "8 word list"
type_synonym nanos = nat

definition millis :: "nat \<Rightarrow> nanos" where
  "millis n = n * 1000000"

definition secs :: "nat \<Rightarrow> nanos" where
  "secs n = n * 1000000000"

lemma bit_word_lt8 [dest]: "bit (a :: u8) n \<Longrightarrow> n < 8"
  using bit_imp_le_length by fastforce

lemma unat_u64_lt: "unat (w :: u64) < 2 ^ 64"
  by (rule order_less_le_trans [OF unsigned_less]) simp

lemma unat_u32_lt: "unat (w :: u32) < 2 ^ 32"
  by (rule order_less_le_trans [OF unsigned_less]) simp

lemma unat_u8_lt: "unat (w :: u8) < 256"
  by (rule order_less_le_trans [OF unsigned_less]) simp

section \<open>Byte order\<close>

definition to_be16 :: "u16 \<Rightarrow> bytes" where
  "to_be16 w = [ucast (drop_bit 8 w), ucast w]"

definition to_be32 :: "u32 \<Rightarrow> bytes" where
  "to_be32 w = [ucast (drop_bit 24 w), ucast (drop_bit 16 w), ucast (drop_bit 8 w), ucast w]"

definition to_le16 :: "i16 \<Rightarrow> bytes" where
  "to_le16 w = [ucast w, ucast (drop_bit 8 w)]"

definition from_be16 :: "u8 \<Rightarrow> u8 \<Rightarrow> u16" where
  "from_be16 a b = push_bit 8 (ucast a) OR ucast b"

definition from_be32 :: "u8 \<Rightarrow> u8 \<Rightarrow> u8 \<Rightarrow> u8 \<Rightarrow> u32" where
  "from_be32 a b c d =
     push_bit 24 (ucast a) OR push_bit 16 (ucast b) OR push_bit 8 (ucast c) OR ucast d"

definition from_le16 :: "u8 \<Rightarrow> u8 \<Rightarrow> i16" where
  "from_le16 a b = from_be16 b a"

lemma from_be16_bytes [byte_simps]:
  "from_be16 (ucast (drop_bit 8 (w :: u16))) (ucast w) = w"
  unfolding from_be16_def
proof (rule bit_word_eqI)
  fix n assume "n < LENGTH(16)"
  then show "bit (push_bit 8 (ucast (ucast (drop_bit 8 w) :: u8)) OR ucast (ucast w :: u8) :: u16) n
             = bit w n"
    by (cases "n < 8") (auto simp: bit_simps not_less)
qed

lemma from_be32_bytes [byte_simps]:
  "from_be32 (ucast (drop_bit 24 (w :: u32))) (ucast (drop_bit 16 w)) (ucast (drop_bit 8 w))
     (ucast w) = w"
  unfolding from_be32_def
proof (rule bit_word_eqI)
  fix n assume "n < LENGTH(32)"
  then show "bit (push_bit 24 (ucast (ucast (drop_bit 24 w) :: u8)) OR
      push_bit 16 (ucast (ucast (drop_bit 16 w) :: u8)) OR
      push_bit 8 (ucast (ucast (drop_bit 8 w) :: u8)) OR ucast (ucast w :: u8) :: u32) n = bit w n"
    by (cases "n < 8"; cases "n < 16"; cases "n < 24") (auto simp: bit_simps not_less)
qed

lemma from_be32_parts [byte_simps]:
  "ucast (drop_bit 24 (from_be32 a b c d)) = a"
  "ucast (drop_bit 16 (from_be32 a b c d)) = b"
  "ucast (drop_bit 8 (from_be32 a b c d)) = c"
  "ucast (from_be32 a b c d) = d"
  unfolding from_be32_def by (rule bit_word_eqI; auto simp: bit_simps)+

lemma from_be16_parts [byte_simps]:
  "ucast (drop_bit 8 (from_be16 a b)) = a"
  "ucast (from_be16 a b) = b"
  unfolding from_be16_def by (rule bit_word_eqI; auto simp: bit_simps)+

lemma from_le16_bytes [byte_simps]: "from_le16 (ucast w) (ucast (drop_bit 8 (w :: u16))) = w"
  by (simp add: from_le16_def byte_simps)

lemma length_to_be [simp]:
  "length (to_be16 w) = 2" "length (to_be32 v) = 4" "length (to_le16 w) = 2"
  by (simp_all add: to_be16_def to_be32_def to_le16_def)

lemma to_be32_from_be32 [byte_simps]: "to_be32 (from_be32 a b c d) = [a, b, c, d]"
  by (simp add: to_be32_def from_be32_parts)

lemma to_be32_inj: "to_be32 v = to_be32 w \<Longrightarrow> v = w"
  unfolding to_be32_def by (metis from_be32_bytes list.inject)

lemma unat_from_be16: "unat (from_be16 a b) = 256 * unat a + unat b"
proof -
  have "from_be16 a b = push_bit 8 (ucast a) + ucast b"
    unfolding from_be16_def
    by (subst disjunctive_add) (auto simp: bit_simps)
  moreover have "unat (push_bit 8 (ucast a :: u16) + ucast b) = 256 * unat a + unat b"
    using unat_u8_lt [of a] unat_u8_lt [of b]
    by (simp add: unat_word_ariths push_bit_eq_mult unsigned_ucast_eq take_bit_nat_eq_self)
  ultimately show ?thesis by simp
qed

section \<open>Slices\<close>

text \<open>\<open>slice::get(a..b)\<close>: \<open>None\<close> when the range is out of bounds or reversed.\<close>

definition get_range :: "'a list \<Rightarrow> nat \<Rightarrow> nat \<Rightarrow> 'a list option" where
  "get_range xs a b = (if a \<le> b \<and> b \<le> length xs then Some (take (b - a) (drop a xs)) else None)"

text \<open>\<open>slice::chunks_exact(n)\<close>: the full chunks only, the remainder is dropped.\<close>

function chunks_exact :: "nat \<Rightarrow> 'a list \<Rightarrow> 'a list list" where
  "chunks_exact n xs =
     (if n = 0 \<or> length xs < n then [] else take n xs # chunks_exact n (drop n xs))"
  by pat_completeness auto
termination
  by (relation "measure (\<lambda>(n, xs). length xs)") auto

declare chunks_exact.simps [simp del]

lemma chunks_exact_short [simp]: "length xs < n \<Longrightarrow> chunks_exact n xs = []"
  by (simp add: chunks_exact.simps)

lemma chunks_exact_append [simp]:
  "length c = n \<Longrightarrow> 0 < n \<Longrightarrow> chunks_exact n (c @ xs) = c # chunks_exact n xs"
  by (subst chunks_exact.simps) simp

lemma length_chunks_exact: "0 < n \<Longrightarrow> length (chunks_exact n xs) = length xs div n"
proof (induction n xs rule: chunks_exact.induct)
  case (1 n xs)
  show ?case
  proof (cases "length xs < n")
    case False
    with 1 show ?thesis
      by (subst chunks_exact.simps) (auto simp: le_div_geq)
  qed (simp add: 1)
qed

lemma chunks_exact_lengths: "c \<in> set (chunks_exact n xs) \<Longrightarrow> length c = n"
proof (induction n xs rule: chunks_exact.induct)
  case (1 n xs)
  show ?case
  proof (cases "n = 0 \<or> length xs < n")
    case True
    with 1(2) show ?thesis by (simp add: chunks_exact.simps)
  next
    case False
    then have "chunks_exact n xs = take n xs # chunks_exact n (drop n xs)"
      by (simp add: chunks_exact.simps)
    with 1(2) have "c = take n xs \<or> c \<in> set (chunks_exact n (drop n xs))" by simp
    with 1(1) False show ?thesis by auto
  qed
qed

lemma length2_list: "length c = 2 \<Longrightarrow> \<exists>a b. c = [a, b]"
  by (cases c; cases "tl c") auto

lemma length4_list: "length c = 4 \<Longrightarrow> \<exists>a b d e. c = [a, b, d, e]"
  by (cases c; cases "tl c"; cases "tl (tl c)"; cases "tl (tl (tl c))") auto

text \<open>Two indices less than \<open>n\<close> apart have different slots of a ring of \<open>n\<close>.\<close>

lemma mod_neq_near:
  assumes "j < (k :: nat)" and "k - j < n"
  shows "j mod n \<noteq> k mod n"
proof
  assume "j mod n = k mod n"
  then have "n dvd k - j" using assms(1) by (metis mod_eq_dvd_iff_nat order_less_imp_le)
  with assms show False by (auto dest: dvd_imp_le)
qed

lemma mod_eq_near:
  assumes "j mod n = k mod (n :: nat)" and "j < k + n" and "k < j + n"
  shows "j = k"
proof (rule linorder_cases [of j k])
  assume "j < k"
  moreover from this have "k - j < n" using assms(3) by arith
  ultimately show ?thesis using mod_neq_near [of j k n] assms(1) by blast
next
  assume "k < j"
  moreover from this have "j - k < n" using assms(2) by arith
  ultimately show ?thesis using mod_neq_near [of k j n] assms(1) by metis
qed

section \<open>Strings\<close>

text \<open>
  A Rust \<open>String\<close> is a sequence of bytes that is valid UTF-8. It is modelled by
  Isabelle's \<open>string\<close>, whose characters are the 256 byte values.
\<close>

definition byte_of :: "char \<Rightarrow> u8" where
  "byte_of c = of_char c"

definition char_of_u8 :: "u8 \<Rightarrow> char" where
  "char_of_u8 b = char_of (unat b)"

definition as_bytes :: "string \<Rightarrow> bytes" where
  "as_bytes s = map byte_of s"

definition of_bytes :: "bytes \<Rightarrow> string" where
  "of_bytes bs = map char_of_u8 bs"

lemma unat_byte_of: "unat (byte_of c) = of_char c"
proof -
  have "byte_of c = of_nat (of_char c)"
    unfolding byte_of_def by (rule of_nat_of_char [symmetric])
  also have "unat \<dots> = of_char c mod 256" by (simp only: unat_of_nat) simp
  finally show ?thesis by simp
qed

lemma char_of_byte_of [simp]: "char_of_u8 (byte_of c) = c"
  by (simp add: char_of_u8_def unat_byte_of)

lemma byte_of_char_of [simp]: "byte_of (char_of_u8 b) = b"
proof -
  have "unat (byte_of (char_of_u8 b)) = unat b mod 256"
    unfolding unat_byte_of char_of_u8_def by (simp only: of_char_of)
  then show ?thesis using unat_u8_lt [of b] by (simp add: word_unat_eq_iff)
qed

lemma as_bytes_of_bytes [simp]: "as_bytes (of_bytes bs) = bs"
  by (simp add: as_bytes_def of_bytes_def comp_def)

lemma of_bytes_as_bytes [simp]: "of_bytes (as_bytes s) = s"
  by (simp add: as_bytes_def of_bytes_def comp_def)

lemma length_as_bytes [simp]: "length (as_bytes s) = length s"
  by (simp add: as_bytes_def)

section \<open>Calls in a row\<close>

text \<open>\<open>a()?; b()?; c()?\<close>: the first call that fails, with its error.\<close>

fun first_error :: "('c \<Rightarrow> 'err option) \<Rightarrow> 'c list \<Rightarrow> ('c \<times> 'err) option" where
  "first_error call [] = None"
| "first_error call (c # cs) =
     (case call c of Some e \<Rightarrow> Some (c, e) | None \<Rightarrow> first_error call cs)"

end
