(* ===== verification/Audio_Ring.thy ===== *)
theory Audio_Ring
  imports Cast_Prelude
begin

text \<open>
  \<open>src/audio_ring.rs\<close>: the lossy ring between the realtime audio callback (producer) and
  the encoder loop (consumer). The producer never blocks: it laps the read index, and the
  consumer sees the lap as \<open>available_frames() > capacity_frames()\<close>. Every operation of
  \<open>AudioRing\<close> is here as an uninterrupted function; \<open>Ring_Concurrent\<close> splits the same
  operations into their atomic accesses.

  The abstract view of a ring is \<open>ring_repr r h p\<close>: \<open>h\<close> is the list of all samples ever
  written, \<open>p\<close> the number of frames consumed or skipped so far. The locale
  \<open>frame_queue\<close> is what the capture loop relies on, interpreted here on the model.
\<close>

unbundle bit_operations_syntax

section \<open>State and operations\<close>

record audio_ring =
  buf :: "i16 list"
  capacity :: usize
  channels :: usize
  sample_mask :: usize
  reserved :: usize
  write_ix :: usize
  read_ix :: usize
  closed :: bool

definition is_power_of_two :: "usize \<Rightarrow> bool" where
  "is_power_of_two w = list_ex (\<lambda>k. w = 2 ^ k) [0..<64]"

text \<open>\<open>None\<close> is a failed assertion.\<close>

definition channel :: "usize \<Rightarrow> usize \<Rightarrow> audio_ring option" where
  "channel capacity_frames chans =
     (if \<not> is_power_of_two capacity_frames then None
      else if \<not> is_power_of_two chans then None
      else let samples = capacity_frames * chans in
        Some \<lparr>buf = replicate (unat samples) 0, capacity = capacity_frames, channels = chans,
              sample_mask = samples - 1, reserved = 0, write_ix = 0, read_ix = 0,
              closed = False\<rparr>)"

definition capacity_frames :: "audio_ring \<Rightarrow> usize" where
  "capacity_frames r = capacity r"

definition close :: "audio_ring \<Rightarrow> audio_ring" where
  "close r = r\<lparr>closed := True\<rparr>"

definition is_closed :: "audio_ring \<Rightarrow> bool" where
  "is_closed r = closed r"

definition available_frames :: "audio_ring \<Rightarrow> usize" where
  "available_frames r = write_ix r - read_ix r"

text \<open>The slot of the \<open>i\<close>-th sample after sample index \<open>base\<close>.\<close>

definition slot :: "audio_ring \<Rightarrow> usize \<Rightarrow> nat \<Rightarrow> nat" where
  "slot r base i = unat ((base + of_nat i) AND sample_mask r)"

definition s16le_samples :: "bytes \<Rightarrow> i16 list" where
  "s16le_samples bs = map (\<lambda>s. from_le16 (s ! 0) (s ! 1)) (chunks_exact 2 bs)"

fun store_slots :: "audio_ring \<Rightarrow> usize \<Rightarrow> nat \<Rightarrow> i16 list \<Rightarrow> audio_ring" where
  "store_slots r base i [] = r"
| "store_slots r base i (s # ss) =
     store_slots (r\<lparr>buf := (buf r)[slot r base i := s]\<rparr>) base (Suc i) ss"

text \<open>
  The chunk \<open>write_s16le\<close> keeps: all of it, or its newest \<open>capacity\<close> frames when it is
  larger than the ring. A slice length is a natural number.
\<close>

definition kept_chunk :: "audio_ring \<Rightarrow> bytes \<Rightarrow> bytes \<times> nat" where
  "kept_chunk r bs =
     (let frame_bytes = unat (channels r) * 2; frames = length bs div frame_bytes in
      if frames > unat (capacity r)
      then (drop ((frames - unat (capacity r)) * frame_bytes) bs, unat (capacity r))
      else (bs, frames))"

definition write_s16le :: "audio_ring \<Rightarrow> bytes \<Rightarrow> audio_ring" where
  "write_s16le r bytes0 =
     (let frame_bytes = unat (channels r) * 2 in
      if length bytes0 div frame_bytes = 0 then r
      else
        let (bs, frames) = kept_chunk r bytes0;
            w = write_ix r;
            end_ix = w + of_nat frames;
            r1 = r\<lparr>reserved := end_ix\<rparr>;
            base = w * channels r;
            r2 = store_slots r1 base 0 (s16le_samples (take (frames * frame_bytes) bs))
        in r2\<lparr>write_ix := end_ix\<rparr>)"

text \<open>The result, the caller's buffer afterwards, and the ring.\<close>

definition read_frames :: "audio_ring \<Rightarrow> i16 list \<Rightarrow> bool \<times> i16 list \<times> audio_ring" where
  "read_frames r out =
     (let need = length out div unat (channels r) in
      if need = 0 then (False, out, r)
      else
        let rd = read_ix r in
        if unat (write_ix r - rd) < need then (False, out, r)
        else
          let base = rd * channels r;
              out' = map (\<lambda>i. buf r ! slot r base i) [0..<length out]
          in if reserved r - rd > capacity r then (False, out', r)
             else (True, out', r\<lparr>read_ix := rd + of_nat need\<rparr>))"

definition skip_frames :: "audio_ring \<Rightarrow> usize \<Rightarrow> audio_ring" where
  "skip_frames r frames =
     (let rd = read_ix r; mx = write_ix r - rd in r\<lparr>read_ix := rd + min frames mx\<rparr>)"

section \<open>Well-formed rings and slots\<close>

definition ring_ok :: "audio_ring \<Rightarrow> bool" where
  "ring_ok r \<longleftrightarrow> (\<exists>c k. c + k < 64 \<and> capacity r = 2 ^ c \<and> channels r = 2 ^ k \<and>
     sample_mask r = 2 ^ (c + k) - 1 \<and> length (buf r) = 2 ^ (c + k))"

abbreviation chn :: "audio_ring \<Rightarrow> nat" where
  "chn r \<equiv> unat (channels r)"

abbreviation capn :: "audio_ring \<Rightarrow> nat" where
  "capn r \<equiv> unat (capacity r)"

lemma unat_pow2: "k < 64 \<Longrightarrow> unat ((2 :: usize) ^ k) = 2 ^ k"
proof -
  assume "k < 64"
  then have lt: "(2 :: nat) ^ k < 2 ^ 64" by (rule power_strict_increasing) simp
  have "unat (of_nat (2 ^ k) :: usize) = take_bit 64 (2 ^ k)"
    by (simp only: unsigned_of_nat) simp
  also have "\<dots> = 2 ^ k" using lt by (rule take_bit_nat_eq_self)
  finally show ?thesis by simp
qed

lemma is_power_of_two_iff: "is_power_of_two w \<longleftrightarrow> (\<exists>k < 64. w = 2 ^ k)"
  by (auto simp: is_power_of_two_def list_ex_iff Bex_def)

lemma ring_ok_dims:
  assumes "ring_ok r"
  shows "0 < chn r" "0 < capn r" "length (buf r) = capn r * chn r" "capn r < 2 ^ 64"
  using assms unat_u64_lt [of "capacity r"] by (auto simp: ring_ok_def unat_pow2 power_add)

lemma ring_ok_nonempty: "ring_ok r \<Longrightarrow> buf r \<noteq> []"
  by (auto simp: ring_ok_def)

lemma slot_mod:
  assumes "ring_ok r" and "base = of_nat T * channels r"
  shows "slot r base i = (T * chn r + i) mod length (buf r)"
proof -
  from assms(1) obtain c k where ck: "c + k < 64" "channels r = 2 ^ k"
      "sample_mask r = 2 ^ (c + k) - 1" "length (buf r) = 2 ^ (c + k)"
    by (auto simp: ring_ok_def)
  have b: "base + of_nat i = of_nat (T * chn r + i)"
    using assms(2) by simp
  have m: "sample_mask r = mask (c + k)"
    by (simp add: ck mask_eq_exp_minus_1)
  have "slot r base i = unat (take_bit (c + k) (of_nat (T * chn r + i) :: usize))"
    unfolding slot_def b m by (simp only: take_bit_eq_mask)
  also have "\<dots> = take_bit (c + k) (take_bit 64 (T * chn r + i))"
    by (simp only: unsigned_take_bit_eq unsigned_of_nat) simp
  also have "\<dots> = take_bit (c + k) (T * chn r + i)"
    using ck(1) by (simp add: take_bit_take_bit min_def)
  finally show ?thesis by (simp add: ck take_bit_eq_mod)
qed

lemma slot_in_range: "ring_ok r \<Longrightarrow> slot r (of_nat T * channels r) i < length (buf r)"
  by (simp add: slot_mod ring_ok_dims)

lemma channel_ok:
  assumes "channel n c = Some r" and "unat n * unat c < 2 ^ 64"
  shows "ring_ok r"
proof -
  from assms(1) obtain i j where ij: "i < 64" "n = 2 ^ i" "j < 64" "c = 2 ^ j"
    by (auto simp: channel_def is_power_of_two_iff Let_def split: if_splits)
  with assms(2) have "(2::nat) ^ (i + j) < 2 ^ 64"
    by (simp add: unat_pow2 power_add)
  then have lt: "i + j < 64" by (rule power_less_imp_less_exp [rotated]) simp
  have "n * c = 2 ^ (i + j)" by (simp add: ij power_add)
  with assms(1) ij lt show ?thesis
    unfolding ring_ok_def
    by (intro exI [of _ i] exI [of _ j])
      (auto simp: channel_def Let_def unat_pow2 split: if_splits)
qed

section \<open>What the slots hold\<close>

text \<open>
  \<open>slots_hold b h lo hi\<close>: the slots of \<open>b\<close> hold the samples \<open>lo ..< hi\<close> of the
  history \<open>h\<close>, each at its index modulo the ring size.
\<close>

definition slots_hold :: "i16 list \<Rightarrow> i16 list \<Rightarrow> nat \<Rightarrow> nat \<Rightarrow> bool" where
  "slots_hold b h lo hi \<longleftrightarrow> hi \<le> length h \<and>
     (\<forall>j. lo \<le> j \<and> j < hi \<longrightarrow> b ! (j mod length b) = h ! j)"

lemma slots_hold_store:
  assumes "slots_hold b h lo hi" and "hi < length h" and "b \<noteq> []"
  shows "slots_hold (b[hi mod length b := h ! hi]) h (max lo (Suc hi - length b)) (Suc hi)"
  unfolding slots_hold_def
proof (intro conjI allI impI)
  show "Suc hi \<le> length h" using assms(2) by simp
  fix j assume j: "max lo (Suc hi - length b) \<le> j \<and> j < Suc hi"
  show "b[hi mod length b := h ! hi] ! (j mod length (b[hi mod length b := h ! hi])) = h ! j"
  proof (cases "j = hi")
    case True
    with assms(3) show ?thesis by simp
  next
    case False
    with j have "j < hi" and "hi - j < length b" by auto
    then have "j mod length b \<noteq> hi mod length b" by (rule mod_neq_near)
    with assms(1) j \<open>j < hi\<close> show ?thesis by (auto simp: slots_hold_def)
  qed
qed

lemma slots_hold_mono:
  "slots_hold b h lo hi \<Longrightarrow> lo \<le> lo' \<Longrightarrow> slots_hold b h lo' hi"
  by (auto simp: slots_hold_def)

lemma slots_hold_append: "slots_hold b h lo hi \<Longrightarrow> slots_hold b (h @ h') lo hi"
  by (auto simp: slots_hold_def nth_append)

lemma store_slots_fields [simp]:
  "capacity (store_slots r base i ss) = capacity r"
  "channels (store_slots r base i ss) = channels r"
  "sample_mask (store_slots r base i ss) = sample_mask r"
  "reserved (store_slots r base i ss) = reserved r"
  "write_ix (store_slots r base i ss) = write_ix r"
  "read_ix (store_slots r base i ss) = read_ix r"
  "closed (store_slots r base i ss) = closed r"
  "length (buf (store_slots r base i ss)) = length (buf r)"
  by (induction r base i ss rule: store_slots.induct) auto

lemma ring_ok_cong:
  "ring_ok r \<Longrightarrow> capacity r' = capacity r \<Longrightarrow> channels r' = channels r \<Longrightarrow>
   sample_mask r' = sample_mask r \<Longrightarrow> length (buf r') = length (buf r) \<Longrightarrow> ring_ok r'"
  by (simp add: ring_ok_def)

lemma store_slots_hold:
  assumes "ring_ok r" and "base = of_nat T * channels r"
    and "slots_hold (buf r) h lo (T * chn r + i)"
    and "drop (T * chn r + i) h = ss @ rest"
  shows "slots_hold (buf (store_slots r base i ss)) h
           (max lo (T * chn r + i + length ss - length (buf r))) (T * chn r + i + length ss)"
  using assms
proof (induction ss arbitrary: r i lo)
  case Nil
  then show ?case by (auto intro: slots_hold_mono)
next
  case (Cons s ss)
  let ?k = "T * chn r + i"
  let ?r = "r\<lparr>buf := (buf r)[slot r base i := s]\<rparr>"
  have k: "?k < length h" and s: "h ! ?k = s"
    using Cons.prems(4) by (metis drop_all linorder_not_le list.distinct(1) append_Cons)
      (metis Cons.prems(4) append_Cons nth_via_drop)
  note ne = ring_ok_nonempty [OF Cons.prems(1)]
  have "slots_hold (buf ?r) h (max lo (Suc ?k - length (buf r))) (Suc ?k)"
    using slots_hold_store [OF Cons.prems(3) k ne] s slot_mod [OF Cons.prems(1,2)] by simp
  moreover have "ring_ok ?r" by (rule ring_ok_cong [OF Cons.prems(1)]) simp_all
  moreover have "drop (T * chn r + Suc i) h = ss @ rest"
    using Cons.prems(4) by (metis add_Suc_right append_Cons drop_Suc list.sel(3) tl_drop)
  ultimately have "slots_hold (buf (store_slots ?r base (Suc i) ss)) h
      (max (max lo (Suc ?k - length (buf r))) (Suc ?k + length ss - length (buf r)))
      (Suc ?k + length ss)"
    using Cons.IH [of ?r "max lo (Suc ?k - length (buf r))" "Suc i"] Cons.prems(2) by simp
  moreover have "max (max lo (Suc ?k - length (buf r))) (Suc ?k + length ss - length (buf r))
      = max lo (?k + length (s # ss) - length (buf r))"
    by simp
  ultimately show ?case by simp
qed

section \<open>The abstract view\<close>

definition ring_repr :: "audio_ring \<Rightarrow> i16 list \<Rightarrow> nat \<Rightarrow> bool" where
  "ring_repr r h p \<longleftrightarrow> ring_ok r \<and> chn r dvd length h \<and>
     write_ix r = of_nat (length h div chn r) \<and> reserved r = write_ix r \<and>
     read_ix r = of_nat p \<and> p \<le> length h div chn r \<and>
     slots_hold (buf r) h (length h - length (buf r)) (length h)"

lemma ring_repr_le: "ring_repr r h p \<Longrightarrow> p \<le> length h div chn r"
  by (simp add: ring_repr_def)

text \<open>The samples a write adds to the history, stated without the ring's arithmetic.\<close>

definition chunk_samples :: "nat \<Rightarrow> nat \<Rightarrow> bytes \<Rightarrow> i16 list" where
  "chunk_samples ch cap bs =
     (let frames = length bs div (ch * 2) in
      drop ((frames - cap) * ch) (take (frames * ch) (s16le_samples bs)))"

lemma length_s16le_samples [simp]: "length (s16le_samples bs) = length bs div 2"
  by (simp add: s16le_samples_def length_chunks_exact)

lemma s16le_samples_Cons2 [simp]:
  "s16le_samples (a # b # bs) = from_le16 a b # s16le_samples bs"
  using chunks_exact_append [of "[a, b]" 2 bs] by (simp add: s16le_samples_def)

lemma s16le_samples_short [simp]: "s16le_samples [] = []" "s16le_samples [a] = []"
  by (simp_all add: s16le_samples_def)

lemma s16le_samples_take: "s16le_samples (take (m * 2) bs) = take m (s16le_samples bs)"
proof (induction m arbitrary: bs)
  case (Suc m)
  then show ?case by (cases bs; cases "tl bs") auto
qed simp

lemma s16le_samples_drop: "s16le_samples (drop (m * 2) bs) = drop m (s16le_samples bs)"
proof (induction m arbitrary: bs)
  case (Suc m)
  then show ?case by (cases bs; cases "tl bs") auto
qed simp

lemma kept_chunk_samples:
  assumes "kept_chunk r bs = (b, f)"
  shows "s16le_samples (take (f * (chn r * 2)) b) = chunk_samples (chn r) (capn r) bs"
    and "f = min (length bs div (chn r * 2)) (capn r)"
proof -
  let ?F = "length bs div (chn r * 2)"
  have t: "s16le_samples (take (n * (chn r * 2)) x) = take (n * chn r) (s16le_samples x)" for n x
    using s16le_samples_take [of "n * chn r" x] by (simp add: mult.assoc)
  have d: "s16le_samples (drop (n * (chn r * 2)) x) = drop (n * chn r) (s16le_samples x)" for n x
    using s16le_samples_drop [of "n * chn r" x] by (simp add: mult.assoc)
  show "s16le_samples (take (f * (chn r * 2)) b) = chunk_samples (chn r) (capn r) bs"
    using assms unfolding kept_chunk_def chunk_samples_def Let_def
    by (auto simp: t d take_drop split: if_splits simp flip: add_mult_distrib)
  show "f = min ?F (capn r)"
    using assms by (auto simp: kept_chunk_def Let_def split: if_splits)
qed

lemma length_chunk_samples:
  assumes "0 < ch"
  shows "length (chunk_samples ch cap bs) = min (length bs div (ch * 2)) cap * ch"
proof -
  let ?F = "length bs div (ch * 2)"
  have "?F = length bs div 2 div ch"
    using div_mult2_eq [of "length bs" 2 ch] by (simp add: mult.commute)
  then have "?F * ch \<le> length bs div 2" by simp
  moreover have "?F * ch - (?F - cap) * ch = min ?F cap * ch"
    by (simp add: min_def flip: diff_mult_distrib)
  ultimately show ?thesis by (simp add: chunk_samples_def Let_def)
qed

section \<open>Each operation on the abstract view\<close>

lemma channel_repr:
  assumes "channel n c = Some r" and "unat n * unat c < 2 ^ 64"
  shows "ring_repr r [] 0"
proof -
  have "write_ix r = 0" "reserved r = 0" "read_ix r = 0"
    using assms(1) by (auto simp: channel_def Let_def split: if_splits)
  then show ?thesis
    using channel_ok [OF assms] by (simp add: ring_repr_def slots_hold_def)
qed

lemma write_s16le_repr:
  assumes "ring_repr r h p"
  shows "ring_repr (write_s16le r bs) (h @ chunk_samples (chn r) (capn r) bs) p"
proof (cases "length bs div (chn r * 2) = 0")
  case True
  then have "write_s16le r bs = r" "chunk_samples (chn r) (capn r) bs = []"
    by (simp_all add: write_s16le_def chunk_samples_def Let_def)
  with assms show ?thesis by simp
next
  case False
  obtain b f where kc: "kept_chunk r bs = (b, f)" by fastforce
  let ?T = "length h div chn r" and ?new = "chunk_samples (chn r) (capn r) bs"
  let ?r1 = "r\<lparr>reserved := write_ix r + of_nat f\<rparr>"
  let ?r2 = "store_slots ?r1 (write_ix r * channels r) 0 ?new"
  from assms have ok: "ring_ok r" and dv: "chn r dvd length h" and w: "write_ix r = of_nat ?T"
      and rd: "read_ix r = of_nat p" and p: "p \<le> ?T"
      and sh: "slots_hold (buf r) h (length h - length (buf r)) (length h)"
    by (auto simp: ring_repr_def)
  have ok1: "ring_ok ?r1" by (rule ring_ok_cong [OF ok]) simp_all
  have len: "length ?new = f * chn r"
    using length_chunk_samples [OF ring_ok_dims(1) [OF ok]] kept_chunk_samples(2) [OF kc] by simp
  have T: "?T * chn r = length h" using dv by simp
  have eq: "write_s16le r bs = ?r2\<lparr>write_ix := write_ix r + of_nat f\<rparr>"
    using False kc kept_chunk_samples(1) [OF kc] by (simp add: write_s16le_def Let_def)
  have "slots_hold (buf ?r2) (h @ ?new)
      (max (length h - length (buf r)) (?T * chn ?r1 + 0 + length ?new - length (buf ?r1)))
      (?T * chn ?r1 + 0 + length ?new)"
    by (rule store_slots_hold [OF ok1, where rest = "[]"])
      (use w T sh in \<open>auto intro: slots_hold_append\<close>)
  then have "slots_hold (buf ?r2) (h @ ?new) (length h + length ?new - length (buf r))
      (length h + length ?new)"
    using T by (auto intro: slots_hold_mono)
  moreover have "ring_ok (?r2\<lparr>write_ix := write_ix r + of_nat f\<rparr>)"
    by (rule ring_ok_cong [OF ok]) simp_all
  moreover have "(length h + f * chn r) div chn r = ?T + f"
    using ring_ok_dims(1) [OF ok] by simp
  ultimately show ?thesis
    unfolding eq ring_repr_def using w rd p dv len by simp
qed

lemma lag_word:
  assumes "ring_repr r h p" and "length h div chn r - p < 2 ^ 64"
  shows "unat (write_ix r - read_ix r) = length h div chn r - p"
proof -
  from assms(1) have "write_ix r - read_ix r = of_nat (length h div chn r - p)"
    by (simp add: ring_repr_def of_nat_diff)
  then show ?thesis using assms(2)
    by (simp only: unsigned_of_nat) (simp add: take_bit_nat_eq_self)
qed

lemma read_slots:
  assumes "ring_ok r" and "read_ix r = of_nat p" and "slots_hold (buf r) h lo hi"
    and "lo \<le> p * chn r" and "p * chn r + n \<le> hi"
  shows "map (\<lambda>i. buf r ! slot r (read_ix r * channels r) i) [0..<n] = take n (drop (p * chn r) h)"
proof (rule nth_equalityI)
  show "length (map (\<lambda>i. buf r ! slot r (read_ix r * channels r) i) [0..<n])
      = length (take n (drop (p * chn r) h))"
    using assms(3,5) by (auto simp: slots_hold_def)
  fix i assume "i < length (map (\<lambda>i. buf r ! slot r (read_ix r * channels r) i) [0..<n])"
  then have i: "i < n" by simp
  have "slot r (read_ix r * channels r) i = (p * chn r + i) mod length (buf r)"
    using assms(2) by (intro slot_mod [OF assms(1)]) simp
  then show "map (\<lambda>i. buf r ! slot r (read_ix r * channels r) i) [0..<n] ! i
      = take n (drop (p * chn r) h) ! i"
    using assms(3,4,5) i by (auto simp: slots_hold_def)
qed

lemma read_frames_repr:
  assumes "ring_repr r h p" and lag: "length h div chn r - p < 2 ^ 64"
    and dv: "chn r dvd length out" and ne: "out \<noteq> []"
  shows "fst (read_frames r out) \<longleftrightarrow> length out div chn r \<le> length h div chn r - p \<and>
           length h div chn r - p \<le> capn r"
    and "fst (read_frames r out) \<Longrightarrow>
           fst (snd (read_frames r out)) = take (length out) (drop (p * chn r) h) \<and>
           ring_repr (snd (snd (read_frames r out))) h (p + length out div chn r)"
    and "\<not> fst (read_frames r out) \<Longrightarrow> snd (snd (read_frames r out)) = r"
proof -
  let ?T = "length h div chn r" and ?need = "length out div chn r"
  from assms(1) have ok: "ring_ok r" and dvh: "chn r dvd length h"
      and rsv: "reserved r = write_ix r" and rd: "read_ix r = of_nat p" and p: "p \<le> ?T"
      and sh: "slots_hold (buf r) h (length h - length (buf r)) (length h)"
    by (auto simp: ring_repr_def)
  note L = lag_word [OF assms(1) lag]
  have need: "?need \<noteq> 0"
    using dv ne ring_ok_dims(1) [OF ok] by (auto simp: div_eq_0_iff dest: dvd_imp_le)
  have cmp: "reserved r - read_ix r > capacity r \<longleftrightarrow> ?T - p > capn r"
    using L rsv by (simp add: word_less_nat_alt)
  show ok_iff: "fst (read_frames r out) \<longleftrightarrow> ?need \<le> ?T - p \<and> ?T - p \<le> capn r"
    using need cmp L by (auto simp: read_frames_def Let_def)
  show "snd (snd (read_frames r out)) = r" if "\<not> fst (read_frames r out)"
    using that by (auto simp: read_frames_def Let_def split: if_splits)
  assume "fst (read_frames r out)"
  with ok_iff have c: "?need \<le> ?T - p" "?T - p \<le> capn r" by auto
  have lo: "length h - length (buf r) \<le> p * chn r"
  proof -
    have "length h - p * chn r = (?T - p) * chn r" using dvh by (simp add: diff_mult_distrib)
    also have "\<dots> \<le> capn r * chn r" using c(2) by (rule mult_le_mono1)
    finally show ?thesis using ring_ok_dims(3) [OF ok] by simp
  qed
  have hi: "p * chn r + length out \<le> length h"
  proof -
    have "(p + ?need) * chn r \<le> ?T * chn r" using c(1) p by (intro mult_le_mono1) simp
    then show ?thesis using dv dvh by (simp add: add_mult_distrib)
  qed
  have "read_frames r out = (True, take (length out) (drop (p * chn r) h),
      r\<lparr>read_ix := read_ix r + of_nat ?need\<rparr>)"
    using c need cmp L read_slots [OF ok rd sh lo hi] by (auto simp: read_frames_def Let_def)
  moreover have "ring_ok (r\<lparr>read_ix := read_ix r + of_nat ?need\<rparr>)"
    by (rule ring_ok_cong [OF ok]) simp_all
  ultimately show "fst (snd (read_frames r out)) = take (length out) (drop (p * chn r) h) \<and>
      ring_repr (snd (snd (read_frames r out))) h (p + ?need)"
    using assms(1) c p by (simp add: ring_repr_def)
qed

lemma skip_frames_repr:
  assumes "ring_repr r h p" and "length h div chn r - p < 2 ^ 64"
  shows "ring_repr (skip_frames r n) h (p + min (unat n) (length h div chn r - p))"
proof -
  let ?k = "min (unat n) (length h div chn r - p)"
  have "unat (min n (write_ix r - read_ix r)) = ?k"
    unfolding lag_word [OF assms, symmetric] by (simp add: min_def word_le_nat_alt)
  then have "min n (write_ix r - read_ix r) = of_nat ?k"
    by (metis of_nat_unat ucast_id)
  then have eq: "skip_frames r n = r\<lparr>read_ix := read_ix r + of_nat ?k\<rparr>"
    by (simp only: skip_frames_def Let_def)
  have "ring_ok r" using assms(1) by (simp add: ring_repr_def)
  then have "ring_ok (skip_frames r n)" by (rule ring_ok_cong) (simp_all add: eq)
  moreover have "p + ?k \<le> length h div chn r"
    using ring_repr_le [OF assms(1)] min.cobounded2 [of "unat n" "length h div chn r - p"]
    by linarith
  ultimately show ?thesis using assms(1) unfolding eq by (simp add: ring_repr_def)
qed

lemma write_s16le_dims [simp]:
  "channels (write_s16le r bs) = channels r" "capacity (write_s16le r bs) = capacity r"
  "read_ix (write_s16le r bs) = read_ix r" "closed (write_s16le r bs) = closed r"
  by (simp_all add: write_s16le_def Let_def split: prod.split)

lemma skip_frames_dims [simp]:
  "channels (skip_frames r n) = channels r" "capacity (skip_frames r n) = capacity r"
  "closed (skip_frames r n) = closed r"
  by (simp_all add: skip_frames_def Let_def)

lemma read_frames_dims [simp]:
  "channels (snd (snd (read_frames r out))) = channels r"
  "capacity (snd (snd (read_frames r out))) = capacity r"
  "closed (snd (snd (read_frames r out))) = closed r"
  by (simp_all add: read_frames_def Let_def)

lemma read_frames_length [simp]: "length (fst (snd (read_frames r out))) = length out"
  by (simp add: read_frames_def Let_def)

section \<open>The interface the capture loop relies on\<close>

text \<open>
  A queue of frames \<open>ch s\<close> samples wide that may lag behind its producer. \<open>lag h p s\<close> is the
  number of unread frames; the laws hold while it fits an index (\<open>2 ^ 64\<close> frames).
\<close>

locale frame_queue =
  fixes avail :: "'s \<Rightarrow> usize" and cap :: "'s \<Rightarrow> usize" and skip :: "'s \<Rightarrow> usize \<Rightarrow> 's"
    and read :: "'s \<Rightarrow> i16 list \<Rightarrow> bool \<times> i16 list \<times> 's"
    and ch :: "'s \<Rightarrow> nat" and repr :: "'s \<Rightarrow> i16 list \<Rightarrow> nat \<Rightarrow> bool"
  assumes avail_law: "repr s h p \<Longrightarrow> length h div ch s - p < 2 ^ 64 \<Longrightarrow>
      unat (avail s) = length h div ch s - p"
    and pos_law: "repr s h p \<Longrightarrow> p \<le> length h div ch s"
    and skip_law: "repr s h p \<Longrightarrow> length h div ch s - p < 2 ^ 64 \<Longrightarrow>
      repr (skip s n) h (p + min (unat n) (length h div ch s - p))"
    and skip_dims: "ch (skip s n) = ch s" "cap (skip s n) = cap s"
    and read_iff: "repr s h p \<Longrightarrow> length h div ch s - p < 2 ^ 64 \<Longrightarrow> ch s dvd length out \<Longrightarrow>
      out \<noteq> [] \<Longrightarrow> fst (read s out) \<longleftrightarrow> length out div ch s \<le> length h div ch s - p \<and>
        length h div ch s - p \<le> unat (cap s)"
    and read_ok: "repr s h p \<Longrightarrow> length h div ch s - p < 2 ^ 64 \<Longrightarrow> ch s dvd length out \<Longrightarrow>
      out \<noteq> [] \<Longrightarrow> fst (read s out) \<Longrightarrow>
        fst (snd (read s out)) = take (length out) (drop (p * ch s) h) \<and>
        repr (snd (snd (read s out))) h (p + length out div ch s)"
begin

text \<open>Skipping everything that is available empties the queue (the flush at start-up).\<close>

lemma flush:
  assumes "repr s h p" and "length h div ch s - p < 2 ^ 64"
  shows "repr (skip s (avail s)) h (length h div ch s)" and "unat (avail (skip s (avail s))) = 0"
proof -
  show r: "repr (skip s (avail s)) h (length h div ch s)"
    using skip_law [OF assms, of "avail s"] avail_law [OF assms] pos_law [OF assms(1)] by simp
  then show "unat (avail (skip s (avail s))) = 0"
    using avail_law [OF r] by (simp add: skip_dims)
qed

text \<open>
  The catch-up of the drain policy: whatever the lag, even past the capacity, dropping all but
  \<open>target\<close> frames leaves exactly the newest \<open>target\<close> frames.
\<close>

lemma catch_up:
  assumes "repr s h p" and "length h div ch s - p < 2 ^ 64" and "target \<le> avail s"
  shows "repr (skip s (avail s - target)) h (length h div ch s - unat target)"
    and "avail (skip s (avail s - target)) = target"
proof -
  let ?T = "length h div ch s"
  have a: "unat (avail s) = ?T - p" by (rule avail_law [OF assms(1,2)])
  have t: "unat target \<le> ?T - p" using assms(3) a by (simp add: word_le_nat_alt)
  have d: "unat (avail s - target) = ?T - p - unat target"
    using assms(3) a by (simp add: unat_sub)
  have "p + min (unat (avail s - target)) (?T - p) = ?T - unat target"
    using d t pos_law [OF assms(1)] by simp
  then show r: "repr (skip s (avail s - target)) h (?T - unat target)"
    using skip_law [OF assms(1,2), of "avail s - target"] by simp
  have "unat (avail (skip s (avail s - target))) = unat target"
    using avail_law [OF r] t unat_u64_lt [of target] by (simp add: skip_dims)
  then show "avail (skip s (avail s - target)) = target" by (simp add: word_unat_eq_iff)
qed

text \<open>So the next read after a catch-up succeeds and returns the newest frames.\<close>

lemma read_after_catch_up:
  assumes "repr s h p" and "length h div ch s - p < 2 ^ 64" and "target \<le> avail s"
    and "target \<le> cap s" and "ch s dvd length out" and "out \<noteq> []"
    and "length out div ch s \<le> unat target"
  shows "fst (read (skip s (avail s - target)) out)"
    and "fst (snd (read (skip s (avail s - target)) out)) =
      take (length out) (drop ((length h div ch s - unat target) * ch s) h)"
proof -
  let ?s = "skip s (avail s - target)" and ?q = "length h div ch s - unat target"
  have r: "repr ?s h ?q" by (rule catch_up(1) [OF assms(1-3)])
  have t: "unat target \<le> length h div ch s"
    using assms(3) avail_law [OF assms(1,2)] by (simp add: word_le_nat_alt)
  have lag: "length h div ch ?s - ?q < 2 ^ 64"
    using t unat_u64_lt [of target] by (simp add: skip_dims)
  have side: "ch ?s dvd length out" using assms(5) by (simp add: skip_dims)
  show ok: "fst (read ?s out)"
    using read_iff [OF r lag side assms(6)] t assms(4,7) by (simp add: skip_dims word_le_nat_alt)
  show "fst (snd (read ?s out)) = take (length out) (drop (?q * ch s) h)"
    using read_ok [OF r lag side assms(6) ok] by (simp add: skip_dims)
qed

end

interpretation ringq: frame_queue available_frames capacity_frames skip_frames read_frames
  "\<lambda>r. unat (channels r)" ring_repr
proof unfold_locales
  fix r h p and out :: "i16 list"
  assume "ring_repr r h p" "length h div chn r - p < 2 ^ 64"
    "chn r dvd length out" "out \<noteq> []"
  note R = read_frames_repr [OF this]
  show "fst (read_frames r out) \<longleftrightarrow> length out div chn r \<le> length h div chn r - p \<and>
      length h div chn r - p \<le> unat (capacity_frames r)"
    using R(1) by (simp add: capacity_frames_def)
  show "fst (read_frames r out) \<Longrightarrow>
      fst (snd (read_frames r out)) = take (length out) (drop (p * chn r) h) \<and>
      ring_repr (snd (snd (read_frames r out))) h (p + length out div chn r)"
    by (rule R(2))
qed (simp_all add: available_frames_def lag_word capacity_frames_def skip_frames_repr ring_repr_le)

section \<open>Properties\<close>

text \<open>A ring of four stereo frames, for the witnesses.\<close>

definition demo_ring :: audio_ring where
  "demo_ring = the (channel 4 2)"

lemma demo_channel: "channel 4 2 = Some demo_ring"
  by code_simp

lemma demo_repr: "ring_repr demo_ring [] 0"
  by (rule channel_repr [OF demo_channel]) simp

lemma demo_dims: "chn demo_ring = 2" "capn demo_ring = 4"
  by code_simp+

text \<open>
  C5: \<open>write_s16le\<close> refines "append to the history": it adds exactly the chunk's complete
  frames, decoded little-endian, or the newest \<open>capacity\<close> of them when the chunk is larger
  than the ring; the consumer's position does not move and the slots hold the newest
  \<open>capacity\<close> frames of the new history, at any index, wrapped or not.
\<close>

theorem write_refines_append:
  assumes "ring_repr r h p"
  shows "ring_repr (write_s16le r bs) (h @ chunk_samples (chn r) (capn r) bs) p"
  by (rule write_s16le_repr [OF assms])

theorem write_refines_append_witness:
  "ring_repr (write_s16le demo_ring [1, 0, 2, 0, 3, 0])
     ([] @ chunk_samples (chn demo_ring) (capn demo_ring) [1, 0, 2, 0, 3, 0]) 0 \<and>
   chunk_samples (chn demo_ring) (capn demo_ring) [1, 0, 2, 0, 3, 0] = [1, 2]"
  by (intro conjI write_refines_append [OF demo_repr]) code_simp

text \<open>
  C6: \<open>read_frames\<close> refines "take the next frames": it succeeds exactly when enough frames
  are unread and the producer has not lapped the reader; then it returns the next samples of
  the history and advances by their frames. When it fails the ring is unchanged.
\<close>

theorem read_refines_take:
  assumes "ring_repr r h p" and "length h div chn r - p < 2 ^ 64"
    and "chn r dvd length out" and "out \<noteq> []" and "read_frames r out = (ok, out', r')"
  shows "ok = (length out div chn r \<le> length h div chn r - p \<and>
           length h div chn r - p \<le> capn r) \<and>
         (if ok then out' = take (length out) (drop (p * chn r) h) \<and>
             ring_repr r' h (p + length out div chn r)
          else r' = r)"
  using read_frames_repr [OF assms(1-4)] assms(5) by auto

definition demo_filled :: audio_ring where
  "demo_filled = write_s16le demo_ring [1, 0, 2, 0, 3, 0, 4, 0]"

lemma demo_filled_repr: "ring_repr demo_filled [1, 2, 3, 4] 0"
proof -
  have "chunk_samples (chn demo_ring) (capn demo_ring) [1, 0, 2, 0, 3, 0, 4, 0] = [1, 2, 3, 4]"
    by code_simp
  then show ?thesis
    using write_s16le_repr [OF demo_repr, of "[1, 0, 2, 0, 3, 0, 4, 0]"]
    by (simp add: demo_filled_def)
qed

lemma demo_filled_dims: "chn demo_filled = 2" "capn demo_filled = 4"
  by (simp_all add: demo_filled_def demo_dims)

definition demo_read :: audio_ring where
  "demo_read = snd (snd (read_frames demo_filled [0, 0]))"

lemma demo_read_eval: "read_frames demo_filled [0, 0] = (True, [1, 2], demo_read)"
  by code_simp

theorem read_refines_take_witness:
  "read_frames demo_filled [0, 0] = (True, [1, 2], demo_read) \<and> ring_repr demo_read [1, 2, 3, 4] 1"
  using read_refines_take [OF demo_filled_repr _ _ _ demo_read_eval] demo_read_eval
  by (simp add: demo_filled_dims)

text \<open>
  C7: The drain policy recovers from any lag. After dropping \<open>avail - target\<close> frames, exactly
  \<open>target\<close> frames are left, even when the producer had lapped the reader, and the next read of
  at most \<open>target\<close> frames succeeds and returns the newest \<open>target\<close> frames from their start.
\<close>

theorem drain_recovers:
  assumes "ring_repr r h p" and "length h div chn r - p < 2 ^ 64"
    and "target \<le> available_frames r" and "target \<le> capacity_frames r"
    and "chn r dvd length out" and "out \<noteq> []" and "length out div chn r \<le> unat target"
  shows "let r' = skip_frames r (available_frames r - target) in
    available_frames r' = target \<and> fst (read_frames r' out) \<and>
    fst (snd (read_frames r' out)) =
      take (length out) (drop ((length h div chn r - unat target) * chn r) h)"
  using ringq.catch_up [OF assms(1-3)] ringq.read_after_catch_up [OF assms] by (simp add: Let_def)

definition demo_lapped :: audio_ring where
  "demo_lapped = write_s16le (write_s16le demo_filled [5, 0, 6, 0, 7, 0, 8, 0]) [9, 0, 10, 0]"

lemma demo_lapped_repr: "ring_repr demo_lapped [1, 2, 3, 4, 5, 6, 7, 8, 9, 10] 0"
proof -
  have 1: "chunk_samples (chn demo_filled) (capn demo_filled) [5, 0, 6, 0, 7, 0, 8, 0] = [5, 6, 7, 8]"
    by code_simp
  have 2: "chunk_samples (chn demo_filled) (capn demo_filled) [9, 0, 10, 0] = [9, 10]"
    by code_simp
  show ?thesis
    using write_s16le_repr [OF write_s16le_repr [OF demo_filled_repr, of "[5, 0, 6, 0, 7, 0, 8, 0]"],
        of "[9, 0, 10, 0]"] 1 2
    by (simp add: demo_lapped_def)
qed

theorem drain_recovers_witness:
  "fst (snd (read_frames (skip_frames demo_lapped (available_frames demo_lapped - 1)) [0, 0]))
     = [9, 10] \<and> \<not> fst (read_frames demo_lapped [0, 0])"
proof -
  have d: "chn demo_lapped = 2" by (simp add: demo_lapped_def demo_filled_dims)
  have "1 \<le> available_frames demo_lapped" "1 \<le> capacity_frames demo_lapped"
    "\<not> fst (read_frames demo_lapped [0, 0])"
    by code_simp+
  then show ?thesis
    using drain_recovers [OF demo_lapped_repr, of 1 "[0, 0]"] by (simp add: d Let_def)
qed

text \<open>A ring of four stereo frames, for the examples.\<close>

lemma small_ring:
  obtains r where "channel 4 2 = Some r" and "ring_repr r [] 0" and "chn r = 2" and "capn r = 4"
proof -
  obtain r where r: "channel 4 2 = Some r" "chn r = 2" "capn r = 4"
    by (auto simp: channel_def is_power_of_two_def Let_def upt_rec)
  moreover have "ring_repr r [] 0" by (rule channel_repr [OF r(1)]) simp
  ultimately show ?thesis using that by blast
qed

end
