(* ===== verification/Ring_Concurrent.thy ===== *)
theory Ring_Concurrent
  imports Audio_Ring
begin

text \<open>
  \<open>src/audio_ring.rs\<close> run by two threads. Each operation of \<open>AudioRing\<close> is split into the
  atomic accesses of the source, in the order the release/acquire pairs and the two fences
  keep: the producer publishes \<open>reserved\<close>, stores one slot at a time, publishes \<open>write\<close>;
  the consumer loads \<open>write\<close>, loads one slot at a time, loads \<open>reserved\<close>, stores
  \<open>read\<close>. A step of \<open>ring_step\<close> is one access of one thread, interleaved at will. The
  memory here is sequentially consistent; \<open>Ring_Weak\<close> runs the same protocol on a memory with
  the orderings the source asks for, fences included.

  \<open>hist\<close>, \<open>pos\<close> and \<open>delivered\<close> are ghost fields: every sample ever handed to the slots,
  the consumer's position in frames, and the buffers of the successful reads with their
  positions. No guard reads them.
\<close>

section \<open>Threads\<close>

datatype prod_pc = PIdle | PStore usize usize "i16 list" nat

datatype cons_pc = CIdle | CCopy usize "i16 list" nat | CCommit usize "i16 list" | CSkip usize nat

record conc =
  ring :: audio_ring
  prod :: prod_pc
  cons :: cons_pc
  hist :: "i16 list"
  pos :: nat
  delivered :: "(nat \<times> i16 list) list"

abbreviation cch :: "conc \<Rightarrow> nat" where
  "cch s \<equiv> chn (ring s)"

definition initial :: "audio_ring \<Rightarrow> conc" where
  "initial r = \<lparr>ring = r, prod = PIdle, cons = CIdle, hist = [], pos = 0, delivered = []\<rparr>"

inductive ring_step :: "conc \<Rightarrow> conc \<Rightarrow> bool" where
  p_reserve: "prod s = PIdle \<Longrightarrow> length bs div (cch s * 2) \<noteq> 0 \<Longrightarrow>
    kept_chunk (ring s) bs = (b, f) \<Longrightarrow> ss = s16le_samples (take (f * (cch s * 2)) b) \<Longrightarrow>
    e = write_ix (ring s) + of_nat f \<Longrightarrow>
    ring_step s (s\<lparr>ring := (ring s)\<lparr>reserved := e\<rparr>,
      prod := PStore (write_ix (ring s) * channels (ring s)) e ss 0, hist := hist s @ ss\<rparr>)"
| p_store: "prod s = PStore base e ss i \<Longrightarrow> i < length ss \<Longrightarrow>
    ring_step s (s\<lparr>ring := (ring s)\<lparr>buf := (buf (ring s))[slot (ring s) base i := ss ! i]\<rparr>,
      prod := PStore base e ss (Suc i)\<rparr>)"
| p_publish: "prod s = PStore base e ss (length ss) \<Longrightarrow>
    ring_step s (s\<lparr>ring := (ring s)\<lparr>write_ix := e\<rparr>, prod := PIdle\<rparr>)"
| p_close: "ring_step s (s\<lparr>ring := close (ring s)\<rparr>)"
| c_begin: "cons s = CIdle \<Longrightarrow> cch s dvd length out \<Longrightarrow> length out div cch s \<noteq> 0 \<Longrightarrow>
    \<not> unat (write_ix (ring s) - read_ix (ring s)) < length out div cch s \<Longrightarrow>
    ring_step s (s\<lparr>cons := CCopy (read_ix (ring s)) out 0\<rparr>)"
| c_load: "cons s = CCopy rd out i \<Longrightarrow> i < length out \<Longrightarrow>
    ring_step s (s\<lparr>cons :=
      CCopy rd (out[i := buf (ring s) ! slot (ring s) (rd * channels (ring s)) i]) (Suc i)\<rparr>)"
| c_overrun: "cons s = CCopy rd out (length out) \<Longrightarrow>
    reserved (ring s) - rd > capacity (ring s) \<Longrightarrow> ring_step s (s\<lparr>cons := CIdle\<rparr>)"
| c_validate: "cons s = CCopy rd out (length out) \<Longrightarrow>
    \<not> reserved (ring s) - rd > capacity (ring s) \<Longrightarrow> ring_step s (s\<lparr>cons := CCommit rd out\<rparr>)"
| c_commit: "cons s = CCommit rd out \<Longrightarrow>
    ring_step s (s\<lparr>ring := (ring s)\<lparr>read_ix := rd + of_nat (length out div cch s)\<rparr>,
      cons := CIdle, pos := pos s + length out div cch s,
      delivered := delivered s @ [(pos s, out)]\<rparr>)"
| c_skip_load: "cons s = CIdle \<Longrightarrow> k = min n (write_ix (ring s) - read_ix (ring s)) \<Longrightarrow>
    ring_step s (s\<lparr>cons := CSkip (read_ix (ring s) + k) (pos s + unat k)\<rparr>)"
| c_skip_store: "cons s = CSkip new q \<Longrightarrow>
    ring_step s (s\<lparr>ring := (ring s)\<lparr>read_ix := new\<rparr>, cons := CIdle, pos := q\<rparr>)"

inductive reachable :: "audio_ring \<Rightarrow> conc \<Rightarrow> bool" for r where
  init: "reachable r (initial r)"
| step: "reachable r s \<Longrightarrow> ring_step s t \<Longrightarrow> reachable r t"

section \<open>The invariant\<close>

text \<open>In samples: what the producer has published, and what it has stored.\<close>

fun in_flight :: "prod_pc \<Rightarrow> nat" where
  "in_flight PIdle = 0"
| "in_flight (PStore base e ss i) = length ss"

fun unstored :: "prod_pc \<Rightarrow> nat" where
  "unstored PIdle = 0"
| "unstored (PStore base e ss i) = length ss - i"

definition published :: "conc \<Rightarrow> nat" where
  "published s = length (hist s) - in_flight (prod s)"

definition stored :: "conc \<Rightarrow> nat" where
  "stored s = length (hist s) - unstored (prod s)"

definition ring_inv :: "conc \<Rightarrow> bool" where
  "ring_inv s \<longleftrightarrow> ring_ok (ring s) \<and> cch s dvd length (hist s) \<and> cch s dvd published s \<and>
     write_ix (ring s) = of_nat (published s div cch s) \<and>
     reserved (ring s) = of_nat (length (hist s) div cch s) \<and>
     read_ix (ring s) = of_nat (pos s) \<and> pos s * cch s \<le> published s \<and>
     slots_hold (buf (ring s)) (hist s) (stored s - length (buf (ring s))) (stored s)"

text \<open>The \<open>n\<close> samples of the history \<open>h\<close> from frame \<open>p\<close> on, frames \<open>c\<close> wide.\<close>

definition segment :: "nat \<Rightarrow> i16 list \<Rightarrow> nat \<Rightarrow> nat \<Rightarrow> i16 list" where
  "segment c h p n = take n (drop (p * c) h)"

fun prod_ok :: "usize \<Rightarrow> usize \<Rightarrow> i16 list \<Rightarrow> prod_pc \<Rightarrow> bool" where
  "prod_ok b r h PIdle = True"
| "prod_ok b r h (PStore base e ss i) \<longleftrightarrow> base = b \<and> e = r \<and> length ss \<le> length h \<and>
     ss = drop (length h - length ss) h \<and> i \<le> length ss"

text \<open>
  While it copies, the consumer's buffer agrees with the history unless the producer has
  reserved past the region; after the check it agrees, unless the index wrapped.
\<close>

fun cons_ok :: "nat \<Rightarrow> nat \<Rightarrow> i16 list \<Rightarrow> nat \<Rightarrow> nat \<Rightarrow> cons_pc \<Rightarrow> bool" where
  "cons_ok c cells h p pub CIdle = True"
| "cons_ok c cells h p pub (CCopy rd out i) \<longleftrightarrow> rd = of_nat p \<and> c dvd length out \<and>
     p * c + length out \<le> pub \<and> i \<le> length out \<and>
     (length h \<le> p * c + cells \<longrightarrow> (\<forall>k < i. out ! k = h ! (p * c + k)))"
| "cons_ok c cells h p pub (CCommit rd out) \<longleftrightarrow> rd = of_nat p \<and> c dvd length out \<and>
     p * c + length out \<le> pub \<and>
     (length h div c < p + 2 ^ 64 \<longrightarrow> out = segment c h p (length out))"
| "cons_ok c cells h p pub (CSkip new q) \<longleftrightarrow> new = of_nat q \<and> p \<le> q \<and> q * c \<le> pub"

definition prod_inv :: "conc \<Rightarrow> bool" where
  "prod_inv s \<longleftrightarrow>
     prod_ok (of_nat (published s div cch s) * channels (ring s))
       (of_nat (length (hist s) div cch s)) (hist s) (prod s)"

definition cons_inv :: "conc \<Rightarrow> bool" where
  "cons_inv s \<longleftrightarrow> cons_ok (cch s) (length (buf (ring s))) (hist s) (pos s)
     (published s) (cons s)"

definition deliv_ok :: "nat \<Rightarrow> i16 list \<Rightarrow> nat \<Rightarrow> (nat \<times> i16 list) list \<Rightarrow> bool" where
  "deliv_ok c h q ds \<longleftrightarrow>
     (\<forall>p out. (p, out) \<in> set ds \<longrightarrow> c dvd length out \<and> p * c + length out \<le> q * c \<and>
        (length h div c < p + 2 ^ 64 \<longrightarrow> out = segment c h p (length out))) \<and>
     sorted_wrt (\<lambda>(p, out) (q, _). p + length out div c \<le> q) ds"

definition deliv_inv :: "conc \<Rightarrow> bool" where
  "deliv_inv s \<longleftrightarrow> deliv_ok (cch s) (hist s) (pos s) (delivered s)"

definition conc_inv :: "conc \<Rightarrow> bool" where
  "conc_inv s \<longleftrightarrow> ring_inv s \<and> prod_inv s \<and> cons_inv s \<and> deliv_inv s"

lemmas inv_defs = conc_inv_def ring_inv_def prod_inv_def cons_inv_def deliv_inv_def

lemma published_le:
  "published s \<le> length (hist s)" "stored s \<le> length (hist s)"
  "prod_inv s \<Longrightarrow> published s \<le> stored s"
  by (cases "prod s"; auto simp: published_def stored_def prod_inv_def)+

lemma cons_ok_mono:
  "cons_ok c n h p pub pc \<Longrightarrow> pub \<le> pub' \<Longrightarrow> cons_ok c n h p pub' pc"
  by (cases pc) auto

lemma segment_append [simp]: "p * c + n \<le> length h \<Longrightarrow> segment c (h @ x) p n = segment c h p n"
  by (simp add: segment_def)

lemma deliv_ok_mono:
  assumes "deliv_ok c h p ds" and "p * c \<le> q * c"
  shows "deliv_ok c h q ds"
  using assms unfolding deliv_ok_def by (meson le_trans)

lemma deliv_ok_append:
  assumes "deliv_ok c h q ds" and "q * c \<le> length h" and "0 < c"
  shows "deliv_ok c (h @ x) q ds"
proof -
  have "length h div c \<le> (length h + n) div c" for n by (rule div_le_mono) simp
  then show ?thesis using assms unfolding deliv_ok_def
    by (metis (no_types, lifting) le_trans length_append order_le_less_trans segment_append)
qed

lemma deliv_ok_snoc:
  assumes "deliv_ok c h q ds" and "c dvd length out" and "0 < c"
    and "length h div c < q + 2 ^ 64 \<longrightarrow> out = segment c h q (length out)"
  shows "deliv_ok c h (q + length out div c) (ds @ [(q, out)])"
proof -
  let ?q = "q + length out div c"
  have q: "q * c + length out = ?q * c" using assms(2) by (simp add: add_mult_distrib)
  have "deliv_ok c h ?q ds" by (rule deliv_ok_mono [OF assms(1)]) simp
  moreover have "p + length o' div c \<le> q" if "(p, o') \<in> set ds" for p o'
  proof -
    from assms(1) that have "p * c + length o' \<le> q * c" "c dvd length o'"
      unfolding deliv_ok_def by blast+
    then have "(p + length o' div c) * c \<le> q * c" by (simp add: add_mult_distrib)
    then show ?thesis using assms(3) by simp
  qed
  ultimately show ?thesis
    using assms(2,4) q by (auto simp: deliv_ok_def sorted_wrt_append)
qed

lemma initial_inv:
  assumes "ring_repr r [] 0"
  shows "conc_inv (initial r)"
  using assms by (simp add: inv_defs initial_def published_def stored_def ring_repr_def deliv_ok_def)

section \<open>Each access keeps it\<close>

lemma p_store_inv:
  assumes "conc_inv s" and "prod s = PStore base e ss i" and "i < length ss"
  shows "conc_inv (s\<lparr>ring := (ring s)\<lparr>buf := (buf (ring s))[slot (ring s) base i := ss ! i]\<rparr>,
      prod := PStore base e ss (Suc i)\<rparr>)" (is "conc_inv ?t")
proof -
  let ?r = "ring s" and ?P = "published s"
  have ok: "ring_ok ?r" and base: "base = of_nat (?P div cch s) * channels ?r"
      and dv: "cch s dvd ?P" and st: "stored s = ?P + i" "stored ?t = ?P + Suc i" "published ?t = ?P"
      and ss: "ss = drop ?P (hist s)"
    using assms by (auto simp: inv_defs stored_def published_def)
  have len: "?P + i < length (hist s)" using assms(3) ss by simp
  then have nth: "ss ! i = hist s ! (?P + i)" using ss by simp
  have sl: "slot ?r base i = (?P + i) mod length (buf ?r)"
    using slot_mod [OF ok base] dv by simp
  have "slots_hold (buf ?r) (hist s) (?P + i - length (buf ?r)) (?P + i)"
    using assms(1) st by (simp add: inv_defs)
  from slots_hold_store [OF this len ring_ok_nonempty [OF ok]] have
    "slots_hold ((buf ?r)[slot ?r base i := ss ! i]) (hist s) (Suc (?P + i) - length (buf ?r))
       (Suc (?P + i))"
    unfolding nth sl by (rule slots_hold_mono) simp
  moreover have "ring_ok (?r\<lparr>buf := (buf ?r)[slot ?r base i := ss ! i]\<rparr>)"
    by (rule ring_ok_cong [OF ok]) simp_all
  ultimately show ?thesis
    using assms st by (simp add: inv_defs)
qed

lemma p_publish_inv:
  assumes "conc_inv s" and "prod s = PStore base e ss (length ss)"
  shows "conc_inv (s\<lparr>ring := (ring s)\<lparr>write_ix := e\<rparr>, prod := PIdle\<rparr>)" (is "conc_inv ?t")
proof -
  have "ring_ok (ring s)" using assms(1) by (simp add: inv_defs)
  then have "ring_ok ((ring s)\<lparr>write_ix := e\<rparr>)" by (rule ring_ok_cong) simp_all
  moreover have "stored ?t = stored s" "published ?t = length (hist s)" "published s \<le> length (hist s)"
    using assms by (auto simp: stored_def published_def inv_defs)
  ultimately show ?thesis
    using assms by (auto simp: inv_defs elim!: cons_ok_mono)
qed

lemma p_close_inv: "conc_inv s \<Longrightarrow> conc_inv (s\<lparr>ring := close (ring s)\<rparr>)"
  (is "_ \<Longrightarrow> conc_inv ?t")
proof -
  assume inv: "conc_inv s"
  then have "ring_ok (ring s)" by (simp add: inv_defs)
  then have "ring_ok (close (ring s))" by (rule ring_ok_cong) (simp_all add: close_def)
  moreover have "published ?t = published s" "stored ?t = stored s"
    by (simp_all add: published_def stored_def)
  ultimately show ?thesis using inv by (simp add: inv_defs close_def)
qed

lemma p_reserve_inv:
  assumes "conc_inv s" and "prod s = PIdle" and "kept_chunk (ring s) bs = (b, f)"
    and "ss = s16le_samples (take (f * (cch s * 2)) b)"
    and "e = write_ix (ring s) + of_nat f"
  shows "conc_inv (s\<lparr>ring := (ring s)\<lparr>reserved := e\<rparr>,
      prod := PStore (write_ix (ring s) * channels (ring s)) e ss 0, hist := hist s @ ss\<rparr>)"
    (is "conc_inv ?t")
proof -
  let ?r = "ring s"
  have ok: "ring_ok ?r" and dvh: "cch s dvd length (hist s)"
    and posle: "pos s * cch s \<le> length (hist s)"
    and w: "write_ix ?r = of_nat (length (hist s) div cch s)"
    using assms(1,2) by (auto simp: inv_defs published_def)
  have f: "length ss = f * cch s"
    using kept_chunk_samples [OF assms(3)] length_chunk_samples [OF ring_ok_dims(1) [OF ok]] assms(4)
    by simp
  have P: "published ?t = length (hist s)" "stored ?t = length (hist s)" "published s = length (hist s)"
      "stored s = length (hist s)"
    using assms(2) by (simp_all add: published_def stored_def)
  have tot: "(length (hist s) + f * cch s) div cch s = length (hist s) div cch s + f"
    using ring_ok_dims(1) [OF ok] by simp
  have "ring_inv ?t"
    using assms(1) P f tot w assms(5) ring_ok_cong [OF ok, of "?r\<lparr>reserved := e\<rparr>"]
    by (simp add: inv_defs slots_hold_append)
  moreover have "prod_inv ?t"
    using P(1) w assms(5) tot f by (simp add: prod_inv_def)
  moreover have "cons_inv ?t"
    using assms(1) P tot f
    by (cases "cons s") (auto simp: inv_defs nth_append)
  moreover have "deliv_inv ?t"
    using assms(1) posle ring_ok_dims(1) [OF ok] by (simp add: inv_defs deliv_ok_append)
  ultimately show ?thesis by (simp add: conc_inv_def)
qed

lemma c_begin_inv:
  assumes "conc_inv s" and "cch s dvd length out"
    and "\<not> unat (write_ix (ring s) - read_ix (ring s)) < length out div cch s"
  shows "conc_inv (s\<lparr>cons := CCopy (read_ix (ring s)) out 0\<rparr>)" (is "conc_inv ?t")
proof -
  let ?W = "published s div cch s" and ?need = "length out div cch s"
  have dv: "cch s dvd published s" and pos: "pos s * cch s \<le> published s"
    and ok: "ring_ok (ring s)"
    using assms(1) by (auto simp: inv_defs)
  have pw: "pos s \<le> ?W"
    using pos ring_ok_dims(1) [OF ok] by (simp add: less_eq_div_iff_mult_less_eq)
  then have "write_ix (ring s) - read_ix (ring s) = of_nat (?W - pos s)"
    using assms(1) by (simp add: inv_defs of_nat_diff)
  then have "unat (write_ix (ring s) - read_ix (ring s)) \<le> ?W - pos s"
    by (simp only: unsigned_of_nat) (simp add: take_bit_nat_less_eq_self)
  with assms(3) have "?need + pos s \<le> ?W" using pw by linarith
  then have "(?need + pos s) * cch s \<le> ?W * cch s" by (rule mult_le_mono1)
  then have "pos s * cch s + length out \<le> published s"
    using dv assms(2) by (simp add: add_mult_distrib)
  moreover have "published ?t = published s" "stored ?t = stored s"
    by (simp_all add: published_def stored_def)
  ultimately show ?thesis
    using assms by (simp add: inv_defs)
qed

lemma c_load_inv:
  assumes "conc_inv s" and "cons s = CCopy rd out i" and "i < length out"
  shows "conc_inv (s\<lparr>cons := CCopy rd
      (out[i := buf (ring s) ! slot (ring s) (rd * channels (ring s)) i]) (Suc i)\<rparr>)"
    (is "conc_inv ?t")
proof -
  let ?r = "ring s" and ?x = "buf (ring s) ! slot (ring s) (rd * channels (ring s)) i"
    and ?j = "pos s * cch s + i"
  have ok: "ring_ok ?r" and rd: "rd = of_nat (pos s)" and P: "?j < published s"
    and sh: "slots_hold (buf ?r) (hist s) (stored s - length (buf ?r)) (stored s)"
    and le: "published s \<le> length (hist s)" "published s \<le> stored s" "stored s \<le> length (hist s)"
    using assms published_le by (auto simp: inv_defs stored_def)
  have "?x = hist s ! ?j" if "length (hist s) \<le> pos s * cch s + length (buf ?r)"
    using sh P le that slot_mod [OF ok, of "rd * channels ?r" "pos s" i] rd
    by (simp add: slots_hold_def)
  then have "\<forall>k < Suc i. out[i := ?x] ! k = hist s ! (pos s * cch s + k)"
    if "length (hist s) \<le> pos s * cch s + length (buf ?r)"
    using assms that by (auto simp: inv_defs less_Suc_eq)
  moreover have "published ?t = published s" "stored ?t = stored s"
    by (simp_all add: published_def stored_def)
  ultimately show ?thesis using assms by (simp add: inv_defs)
qed

lemma c_validate_inv:
  assumes "conc_inv s" and "cons s = CCopy rd out (length out)"
    and "\<not> reserved (ring s) - rd > capacity (ring s)"
  shows "conc_inv (s\<lparr>cons := CCommit rd out\<rparr>)" (is "conc_inv ?t")
proof -
  let ?r = "ring s" and ?T = "length (hist s) div cch s"
  have ok: "ring_ok ?r" and rd: "rd = of_nat (pos s)" and rv: "reserved ?r = of_nat ?T"
    and dvh: "cch s dvd length (hist s)" and P: "pos s * cch s + length out \<le> published s"
    and pl: "published s \<le> length (hist s)"
    using assms(1,2) published_le by (auto simp: inv_defs)
  have pT: "pos s \<le> ?T"
    using P pl ring_ok_dims(1) [OF ok] by (simp add: less_eq_div_iff_mult_less_eq)
  have "out = segment (cch s) (hist s) (pos s) (length out)" if lag: "?T < pos s + 2 ^ 64"
  proof -
    have "reserved ?r - rd = of_nat (?T - pos s)"
      using pT by (simp add: rd rv of_nat_diff)
    moreover have "?T - pos s < 2 ^ 64" using lag pT by linarith
    ultimately have "unat (reserved ?r - rd) = ?T - pos s"
      by (simp only: unsigned_of_nat) (simp add: take_bit_nat_eq_self)
    with assms(3) have "?T - pos s \<le> capn ?r" by (simp add: word_less_nat_alt)
    then have "(?T - pos s) * cch s \<le> capn ?r * cch s" by (rule mult_le_mono1)
    then have "length (hist s) \<le> pos s * cch s + length (buf ?r)"
      using dvh ring_ok_dims(3) [OF ok] by (simp add: diff_mult_distrib)
    then have "\<forall>k < length out. out ! k = hist s ! (pos s * cch s + k)"
      using assms(1,2) by (simp add: inv_defs)
    then show ?thesis using P pl
      by (intro nth_equalityI) (auto simp: segment_def)
  qed
  moreover have "published ?t = published s" "stored ?t = stored s"
    by (simp_all add: published_def stored_def)
  ultimately show ?thesis using assms by (simp add: inv_defs)
qed

lemma c_commit_inv:
  assumes "conc_inv s" and "cons s = CCommit rd out"
  shows "conc_inv (s\<lparr>ring := (ring s)\<lparr>read_ix := rd + of_nat (length out div cch s)\<rparr>,
      cons := CIdle, pos := pos s + length out div cch s,
      delivered := delivered s @ [(pos s, out)]\<rparr>)" (is "conc_inv ?t")
proof -
  have ok: "ring_ok (ring s)" and dv: "cch s dvd length out"
    using assms by (auto simp: inv_defs)
  have "ring_ok ((ring s)\<lparr>read_ix := rd + of_nat (length out div cch s)\<rparr>)"
    by (rule ring_ok_cong [OF ok]) simp_all
  moreover have "published ?t = published s" "stored ?t = stored s"
    by (simp_all add: published_def stored_def)
  moreover have "deliv_ok (cch s) (hist s) (pos s + length out div cch s)
      (delivered s @ [(pos s, out)])"
    using assms dv ring_ok_dims(1) [OF ok] by (intro deliv_ok_snoc) (auto simp: inv_defs)
  ultimately show ?thesis
    using assms dv by (simp add: inv_defs add_mult_distrib)
qed

lemma c_skip_load_inv:
  assumes "conc_inv s" and "k = min n (write_ix (ring s) - read_ix (ring s))"
  shows "conc_inv (s\<lparr>cons := CSkip (read_ix (ring s) + k) (pos s + unat k)\<rparr>)" (is "conc_inv ?t")
proof -
  let ?W = "published s div cch s"
  have dv: "cch s dvd published s" and pos: "pos s * cch s \<le> published s"
    and ok: "ring_ok (ring s)"
    using assms(1) by (auto simp: inv_defs)
  have pw: "pos s \<le> ?W"
    using pos ring_ok_dims(1) [OF ok] by (simp add: less_eq_div_iff_mult_less_eq)
  then have "write_ix (ring s) - read_ix (ring s) = of_nat (?W - pos s)"
    using assms(1) by (simp add: inv_defs of_nat_diff)
  then have "unat (write_ix (ring s) - read_ix (ring s)) \<le> ?W - pos s"
    by (simp only: unsigned_of_nat) (simp add: take_bit_nat_less_eq_self)
  moreover have "unat k \<le> unat (write_ix (ring s) - read_ix (ring s))"
    unfolding assms(2) by (simp add: min_def word_le_nat_alt)
  ultimately have "pos s + unat k \<le> ?W" using pw by linarith
  then have "(pos s + unat k) * cch s \<le> ?W * cch s" by (rule mult_le_mono1)
  then have "(pos s + unat k) * cch s \<le> published s" using dv by simp
  moreover have "published ?t = published s" "stored ?t = stored s"
    by (simp_all add: published_def stored_def)
  ultimately show ?thesis using assms(1) by (simp add: inv_defs)
qed

lemma c_skip_store_inv:
  assumes "conc_inv s" and "cons s = CSkip new q"
  shows "conc_inv (s\<lparr>ring := (ring s)\<lparr>read_ix := new\<rparr>, cons := CIdle, pos := q\<rparr>)"
    (is "conc_inv ?t")
proof -
  have ok: "ring_ok (ring s)" and q: "pos s * cch s \<le> q * cch s"
    using assms by (auto simp: inv_defs)
  have "ring_ok ((ring s)\<lparr>read_ix := new\<rparr>)"
    by (rule ring_ok_cong [OF ok]) simp_all
  moreover have "published ?t = published s" "stored ?t = stored s"
    by (simp_all add: published_def stored_def)
  ultimately show ?thesis
    using assms deliv_ok_mono [OF _ q] by (simp add: inv_defs)
qed

lemma c_idle_inv: "conc_inv s \<Longrightarrow> conc_inv (s\<lparr>cons := CIdle\<rparr>)"
  by (simp add: inv_defs published_def stored_def)

lemma step_inv: "ring_step s t \<Longrightarrow> conc_inv s \<Longrightarrow> conc_inv t"
proof (induction rule: ring_step.induct)
  case (p_reserve s bs b f ss e)
  show ?case by (rule p_reserve_inv [OF p_reserve.prems p_reserve.hyps(1,3,4,5)])
next
  case (p_store s base e ss i)
  show ?case by (rule p_store_inv [OF p_store.prems p_store.hyps])
next
  case (p_publish s base e ss)
  show ?case by (rule p_publish_inv [OF p_publish.prems p_publish.hyps])
next
  case (p_close s)
  then show ?case by (rule p_close_inv)
next
  case (c_begin s out)
  show ?case by (rule c_begin_inv [OF c_begin.prems c_begin.hyps(2,4)])
next
  case (c_load s rd out i)
  show ?case by (rule c_load_inv [OF c_load.prems c_load.hyps])
next
  case (c_overrun s rd out)
  show ?case by (rule c_idle_inv [OF c_overrun.prems])
next
  case (c_validate s rd out)
  show ?case by (rule c_validate_inv [OF c_validate.prems c_validate.hyps])
next
  case (c_commit s rd out)
  show ?case by (rule c_commit_inv [OF c_commit.prems c_commit.hyps])
next
  case (c_skip_load s k n)
  show ?case by (rule c_skip_load_inv [OF c_skip_load.prems c_skip_load.hyps(2)])
next
  case (c_skip_store s new q)
  show ?case by (rule c_skip_store_inv [OF c_skip_store.prems c_skip_store.hyps])
qed

lemma reachable_inv: "reachable r s \<Longrightarrow> ring_repr r [] 0 \<Longrightarrow> conc_inv s"
  by (induction rule: reachable.induct) (auto intro: initial_inv step_inv)

section \<open>The uninterrupted runs are the sequential operations\<close>

lemma store_run:
  assumes "prod s = PStore base e ss i" and "i \<le> length ss"
  shows "ring_step\<^sup>*\<^sup>* s (s\<lparr>ring := store_slots (ring s) base i (drop i ss),
      prod := PStore base e ss (length ss)\<rparr>)"
  using assms
proof (induction "length ss - i" arbitrary: i s)
  case 0
  then have "s = s\<lparr>ring := store_slots (ring s) base i (drop i ss),
      prod := PStore base e ss (length ss)\<rparr>" by simp
  then show ?case by (metis rtranclp.rtrancl_refl)
next
  case (Suc n)
  let ?s = "s\<lparr>ring := (ring s)\<lparr>buf := (buf (ring s))[slot (ring s) base i := ss ! i]\<rparr>,
      prod := PStore base e ss (Suc i)\<rparr>"
  from Suc.hyps(2) have i: "i < length ss" by simp
  have "ring_step s ?s" using Suc.prems(1) i by (rule p_store)
  moreover have "ring_step\<^sup>*\<^sup>* ?s (?s\<lparr>ring := store_slots (ring ?s) base (Suc i) (drop (Suc i) ss),
      prod := PStore base e ss (length ss)\<rparr>)"
    using Suc.hyps(2) i by (intro Suc.hyps(1)) auto
  moreover have "drop i ss = ss ! i # drop (Suc i) ss" using i by (simp add: Cons_nth_drop_Suc)
  ultimately show ?case by (auto intro: converse_rtranclp_into_rtranclp)
qed

lemma write_run:
  assumes "prod s = PIdle"
  shows "ring_step\<^sup>*\<^sup>* s (s\<lparr>ring := write_s16le (ring s) bs,
      hist := hist s @ chunk_samples (cch s) (capn (ring s)) bs\<rparr>)"
proof (cases "length bs div (cch s * 2) = 0")
  case True
  then have "write_s16le (ring s) bs = ring s" "chunk_samples (cch s) (capn (ring s)) bs = []"
    by (simp_all add: write_s16le_def chunk_samples_def Let_def)
  then show ?thesis by simp
next
  case False
  obtain b f where kc: "kept_chunk (ring s) bs = (b, f)" by fastforce
  let ?ss = "s16le_samples (take (f * (cch s * 2)) b)" and ?base = "write_ix (ring s) * channels (ring s)"
    and ?e = "write_ix (ring s) + of_nat f"
  let ?s1 = "s\<lparr>ring := (ring s)\<lparr>reserved := ?e\<rparr>, prod := PStore ?base ?e ?ss 0,
      hist := hist s @ ?ss\<rparr>"
  let ?s2 = "?s1\<lparr>ring := store_slots (ring ?s1) ?base 0 (drop 0 ?ss),
      prod := PStore ?base ?e ?ss (length ?ss)\<rparr>"
  have "ring_step s ?s1" by (rule p_reserve [OF assms False kc refl refl])
  moreover have "ring_step\<^sup>*\<^sup>* ?s1 ?s2" by (rule store_run [of ?s1 ?base ?e ?ss 0]) simp_all
  moreover have "ring_step ?s2 (?s2\<lparr>ring := (ring ?s2)\<lparr>write_ix := ?e\<rparr>, prod := PIdle\<rparr>)"
    by (rule p_publish [of ?s2 ?base ?e ?ss]) simp
  moreover have "?s2\<lparr>ring := (ring ?s2)\<lparr>write_ix := ?e\<rparr>, prod := PIdle\<rparr>
      = s\<lparr>ring := write_s16le (ring s) bs, hist := hist s @ chunk_samples (cch s) (capn (ring s)) bs\<rparr>"
    using False kc kept_chunk_samples(1) [OF kc] assms by (simp add: write_s16le_def Let_def)
  ultimately show ?thesis
    by (metis (no_types, lifting) converse_rtranclp_into_rtranclp rtranclp.rtrancl_into_rtrancl)
qed

lemma load_run:
  assumes "cons s = CCopy rd out i" and "i \<le> length out"
  shows "ring_step\<^sup>*\<^sup>* s (s\<lparr>cons := CCopy rd (take i out @
      map (\<lambda>k. buf (ring s) ! slot (ring s) (rd * channels (ring s)) k) [i..<length out])
      (length out)\<rparr>)"
  using assms
proof (induction "length out - i" arbitrary: i s out)
  case 0
  then have "s = s\<lparr>cons := CCopy rd (take i out @
      map (\<lambda>k. buf (ring s) ! slot (ring s) (rd * channels (ring s)) k) [i..<length out])
      (length out)\<rparr>" by simp
  then show ?case by (metis rtranclp.rtrancl_refl)
next
  case (Suc n)
  let ?x = "\<lambda>k. buf (ring s) ! slot (ring s) (rd * channels (ring s)) k"
  let ?s = "s\<lparr>cons := CCopy rd (out[i := ?x i]) (Suc i)\<rparr>"
  from Suc.hyps(2) have i: "i < length out" by simp
  have "ring_step s ?s" using Suc.prems(1) i by (rule c_load)
  moreover have "ring_step\<^sup>*\<^sup>* ?s (?s\<lparr>cons := CCopy rd (take (Suc i) (out[i := ?x i]) @
      map ?x [Suc i..<length out]) (length out)\<rparr>)"
    using Suc.hyps(1) [of "out[i := ?x i]" "Suc i" ?s] Suc.hyps(2) i by simp
  moreover have "take (Suc i) (out[i := ?x i]) @ map ?x [Suc i..<length out]
      = take i out @ map ?x [i..<length out]"
    using i by (simp add: take_Suc_conv_app_nth upt_conv_Cons)
  ultimately show ?case by (auto intro: converse_rtranclp_into_rtranclp)
qed

lemma read_run:
  assumes "cons s = CIdle" and "cch s dvd length out" and "read_frames (ring s) out = (True, out', r')"
  shows "ring_step\<^sup>*\<^sup>* s (s\<lparr>ring := r', pos := pos s + length out div cch s,
      delivered := delivered s @ [(pos s, out')]\<rparr>)"
proof -
  let ?r = "ring s" and ?rd = "read_ix (ring s)"
  let ?s1 = "s\<lparr>cons := CCopy ?rd out 0\<rparr>"
  let ?s2 = "?s1\<lparr>cons := CCopy ?rd out' (length out)\<rparr>"
  let ?s3 = "?s2\<lparr>cons := CCommit ?rd out'\<rparr>"
  have need: "length out div cch s \<noteq> 0" "\<not> unat (write_ix ?r - ?rd) < length out div cch s"
    and nov: "\<not> reserved ?r - ?rd > capacity ?r"
    and out': "out' = map (\<lambda>i. buf ?r ! slot ?r (?rd * channels ?r) i) [0..<length out]"
    and r': "r' = ?r\<lparr>read_ix := ?rd + of_nat (length out div cch s)\<rparr>"
    using assms(3) by (auto simp: read_frames_def Let_def split: if_splits)
  have "ring_step s ?s1" by (rule c_begin [OF assms(1,2) need])
  moreover have "ring_step\<^sup>*\<^sup>* ?s1 ?s2"
    using load_run [of ?s1 ?rd out 0] by (simp add: out')
  moreover have "ring_step ?s2 ?s3"
    using c_validate [of ?s2 ?rd out'] nov by (simp add: out')
  moreover have "ring_step ?s3 (s\<lparr>ring := r', cons := CIdle,
      pos := pos s + length out div cch s, delivered := delivered s @ [(pos s, out')]\<rparr>)"
    using c_commit [of ?s3 ?rd out'] by (simp add: r' out')
  moreover have "s\<lparr>ring := r', cons := CIdle, pos := pos s + length out div cch s,
      delivered := delivered s @ [(pos s, out')]\<rparr> = s\<lparr>ring := r',
      pos := pos s + length out div cch s, delivered := delivered s @ [(pos s, out')]\<rparr>"
    using assms(1) by simp
  ultimately show ?thesis
    by (metis (no_types, lifting) converse_rtranclp_into_rtranclp rtranclp.rtrancl_into_rtrancl)
qed

lemma reachable_steps: "ring_step\<^sup>*\<^sup>* s t \<Longrightarrow> reachable r s \<Longrightarrow> reachable r t"
  by (induction rule: rtranclp.induct) (auto intro: reachable.step)

section \<open>Properties\<close>

text \<open>
  No torn reads. Whatever the interleaving of the two threads, every buffer a successful
  \<open>read_frames\<close> hands to the encoder is one contiguous segment of what the producer wrote,
  exactly at the consumer's position: never a mixture of old and new samples, never samples in
  flight. (The total written stays below \<open>2 ^ 64\<close> frames, 12 million years at 48 kHz.)
\<close>

theorem no_torn_reads:
  assumes "channel n c = Some r" and "unat n * unat c < 2 ^ 64" and "reachable r s"
    and "length (hist s) div cch s < 2 ^ 64" and "(p, out) \<in> set (delivered s)"
  shows "p * cch s + length out \<le> length (hist s) \<and>
    out = take (length out) (drop (p * cch s) (hist s))"
proof -
  have inv: "conc_inv s" by (rule reachable_inv [OF assms(3) channel_repr [OF assms(1,2)]])
  then have "p * cch s + length out \<le> pos s * cch s" "pos s * cch s \<le> length (hist s)"
    and seg: "length (hist s) div cch s < p + 2 ^ 64 \<longrightarrow>
      out = segment (cch s) (hist s) p (length out)"
    using assms(5) published_le(1) [of s] by (auto simp: inv_defs deliv_ok_def)
  with assms(4) show ?thesis by (auto simp: segment_def)
qed

text \<open>A ring of four stereo frames: two frames written, one read.\<close>

definition demo_written :: conc where
  "demo_written = (initial demo_ring)\<lparr>ring := write_s16le demo_ring [1, 0, 2, 0, 3, 0, 4, 0],
     hist := chunk_samples 2 4 [1, 0, 2, 0, 3, 0, 4, 0]\<rparr>"

definition demo_state :: conc where
  "demo_state = demo_written\<lparr>ring := snd (snd (read_frames (ring demo_written) [0, 0])),
     pos := 1, delivered := [(0, [1, 2])]\<rparr>"

lemma demo_eval:
  "chn demo_ring = 2" "capn demo_ring = 4" "cch demo_written = 2"
  "read_frames (ring demo_written) [0, 0] =
     (True, [1, 2], snd (snd (read_frames (ring demo_written) [0, 0])))"
  "hist demo_state = [1, 2, 3, 4]"
  by code_simp+

lemma demo_reachable: "reachable demo_ring demo_state"
proof (rule reachable_steps)
  let ?bs = "[1, 0, 2, 0, 3, 0, 4, 0]"
  have 1: "ring_step\<^sup>*\<^sup>* (initial demo_ring) demo_written"
    using write_run [of "initial demo_ring" ?bs] demo_eval
    by (simp add: demo_written_def initial_def)
  have 2: "ring_step\<^sup>*\<^sup>* demo_written demo_state"
    using read_run [OF _ _ demo_eval(4)] demo_eval(3)
    by (simp add: demo_state_def demo_written_def initial_def)
  show "ring_step\<^sup>*\<^sup>* (initial demo_ring) demo_state"
    by (rule rtranclp_trans [OF 1 2])
qed (rule reachable.init)

theorem no_torn_reads_witness:
  "0 * cch demo_state + length [1, 2 :: i16] \<le> length (hist demo_state) \<and>
    [1, 2] = take (length [1, 2 :: i16]) (drop (0 * cch demo_state) (hist demo_state))"
proof (rule no_torn_reads [OF demo_channel _ demo_reachable])
  show "length (hist demo_state) div cch demo_state < 2 ^ 64"
    by (rule order_le_less_trans [OF div_le_dividend]) (simp add: demo_eval)
qed (simp_all add: demo_state_def)

text \<open>
  In order, without duplicates. The successful reads of any interleaving take disjoint
  segments in the order they were written: each starts at or after the end of the one before,
  also across skips, failed reads and overruns.
\<close>

theorem delivered_in_order:
  assumes "channel n c = Some r" and "unat n * unat c < 2 ^ 64" and "reachable r s"
  shows "sorted_wrt (\<lambda>(p, out) (q, _). p + length out div cch s \<le> q) (delivered s)"
  using reachable_inv [OF assms(3) channel_repr [OF assms(1,2)]]
  by (simp add: inv_defs deliv_ok_def)

theorem delivered_in_order_witness:
  "sorted_wrt (\<lambda>(p, out) (q, _). p + length out div cch demo_state \<le> q) (delivered demo_state)"
  by (rule delivered_in_order [OF demo_channel _ demo_reachable]) simp

text \<open>
  The atomic accesses of an operation, run without interruption from idle threads, are the
  operation: the producer's run is \<open>write_s16le\<close> and, when the read succeeds, the
  consumer's run is \<open>read_frames\<close>.
\<close>

theorem uninterrupted_runs:
  assumes "prod s = PIdle" and "cons s = CIdle" and "cch s dvd length out"
  shows "ring_step\<^sup>*\<^sup>* s (s\<lparr>ring := write_s16le (ring s) bs,
      hist := hist s @ chunk_samples (cch s) (capn (ring s)) bs\<rparr>) \<and>
    (read_frames (ring s) out = (True, out', r') \<longrightarrow>
      ring_step\<^sup>*\<^sup>* s (s\<lparr>ring := r', pos := pos s + length out div cch s,
        delivered := delivered s @ [(pos s, out')]\<rparr>))"
  using write_run [OF assms(1)] read_run [OF assms(2,3)] by blast

theorem uninterrupted_runs_witness:
  "ring_step\<^sup>*\<^sup>* demo_written (demo_written\<lparr>ring := snd (snd (read_frames (ring demo_written) [0, 0])),
      pos := pos demo_written + length [0, 0 :: i16] div cch demo_written,
      delivered := delivered demo_written @ [(pos demo_written, [1, 2])]\<rparr>)"
  using uninterrupted_runs [of demo_written "[0, 0]" "[1, 2]"] demo_eval
  by (simp add: demo_written_def initial_def)

end
