(* ===== verification/Weak_Memory.thy ===== *)
theory Weak_Memory
  imports Cast_Prelude
begin

text \<open>
  The atomics of \<open>std::sync::atomic\<close>, as far as the ring uses them: relaxed, acquire and release
  accesses and the two fences. A location has the list of all its stores in modification order;
  a view gives, for each location, the newest store that is known. A load may return any store that
  is not older than what its thread knows. A store carries the view its reader obtains by an
  acquiring load, or by a relaxed load and an acquire fence after it.

  Each location is written by one thread (so a store goes to the end of the list); loads do not
  see stores that come later in program order.
\<close>

type_synonym 'l view = "'l \<Rightarrow> nat"

record ('l, 'v) message =
  val :: 'v
  seen :: "'l view"

type_synonym ('l, 'v) memory = "'l \<Rightarrow> ('l, 'v) message list"

text \<open>
  What a thread knows now, what it will know after an acquire fence, and what it knew at its last
  release fence.
\<close>

record 'l thread_view =
  current :: "'l view"
  pending :: "'l view"
  released :: "'l view"

definition fresh_view :: "'l thread_view" where
  "fresh_view = \<lparr>current = \<lambda>_. 0, pending = \<lambda>_. 0, released = \<lambda>_. 0\<rparr>"

definition readable :: "('l, 'v) memory \<Rightarrow> 'l thread_view \<Rightarrow> 'l \<Rightarrow> nat \<Rightarrow> bool" where
  "readable m t l k \<longleftrightarrow> current t l \<le> k \<and> k < length (m l)"

definition load_relaxed :: "('l, 'v) memory \<Rightarrow> 'l \<Rightarrow> nat \<Rightarrow> 'l thread_view \<Rightarrow> 'l thread_view" where
  "load_relaxed m l k t =
     t\<lparr>current := (current t)(l := k), pending := sup (pending t) (seen (m l ! k))\<rparr>"

definition load_acquire :: "('l, 'v) memory \<Rightarrow> 'l \<Rightarrow> nat \<Rightarrow> 'l thread_view \<Rightarrow> 'l thread_view" where
  "load_acquire m l k t =
     t\<lparr>current := sup (current t) (seen (m l ! k)), pending := sup (pending t) (seen (m l ! k))\<rparr>"

definition put :: "'l \<Rightarrow> 'v \<Rightarrow> 'l view \<Rightarrow> ('l, 'v) memory \<Rightarrow> ('l, 'v) memory" where
  "put l x v m = m(l := m l @ [\<lparr>val = x, seen = v(l := length (m l))\<rparr>])"

definition advance :: "'l \<Rightarrow> nat \<Rightarrow> 'l thread_view \<Rightarrow> 'l thread_view" where
  "advance l k t = t\<lparr>current := (current t)(l := k), pending := (pending t)(l := k)\<rparr>"

definition store_relaxed ::
  "'l \<Rightarrow> 'v \<Rightarrow> 'l thread_view \<Rightarrow> ('l, 'v) memory \<Rightarrow> 'l thread_view \<times> ('l, 'v) memory" where
  "store_relaxed l x t m = (advance l (length (m l)) t, put l x (released t) m)"

definition store_release ::
  "'l \<Rightarrow> 'v \<Rightarrow> 'l thread_view \<Rightarrow> ('l, 'v) memory \<Rightarrow> 'l thread_view \<times> ('l, 'v) memory" where
  "store_release l x t m = (advance l (length (m l)) t, put l x (current t) m)"

definition fence_acquire :: "'l thread_view \<Rightarrow> 'l thread_view" where
  "fence_acquire t = t\<lparr>current := pending t\<rparr>"

definition fence_release :: "'l thread_view \<Rightarrow> 'l thread_view" where
  "fence_release t = t\<lparr>released := current t\<rparr>"

section \<open>Well-formed memories and views\<close>

text \<open>A store's view contains the store itself.\<close>

definition stamped :: "('l, 'v) memory \<Rightarrow> bool" where
  "stamped m \<longleftrightarrow> (\<forall>l k. k < length (m l) \<longrightarrow> seen (m l ! k) l = k)"

definition ordered :: "'l thread_view \<Rightarrow> bool" where
  "ordered t \<longleftrightarrow> released t \<le> current t \<and> current t \<le> pending t"

text \<open>A property of all views of a thread, and of all stores.\<close>

definition thread_all :: "('l view \<Rightarrow> bool) \<Rightarrow> 'l thread_view \<Rightarrow> bool" where
  "thread_all Q t \<longleftrightarrow> Q (current t) \<and> Q (pending t) \<and> Q (released t)"

definition mem_all :: "('l view \<Rightarrow> bool) \<Rightarrow> ('l, 'v) memory \<Rightarrow> bool" where
  "mem_all Q m \<longleftrightarrow> (\<forall>l k. k < length (m l) \<longrightarrow> Q (seen (m l ! k)))"

named_theorems view_simps

declare load_relaxed_def [view_simps] load_acquire_def [view_simps] advance_def [view_simps]
  store_relaxed_def [view_simps] store_release_def [view_simps] fence_acquire_def [view_simps]
  fence_release_def [view_simps]

declare sup_nat_def [simp]

lemma put_apply: "put l x v m l' = (if l' = l then m l @ [\<lparr>val = x, seen = v(l := length (m l))\<rparr>] else m l')"
  by (simp add: put_def)

lemma put_length [simp]: "length (put l x v m l') = (if l' = l then Suc (length (m l)) else length (m l'))"
  by (simp add: put_apply)

lemma put_old [simp]: "k < length (m l') \<Longrightarrow> put l x v m l' ! k = m l' ! k"
  by (cases "l' = l") (simp_all add: put_apply nth_append)

lemma put_new [simp]: "put l x v m l ! length (m l) = \<lparr>val = x, seen = v(l := length (m l))\<rparr>"
  by (simp add: put_apply nth_append)

lemma put_stamped: "stamped m \<Longrightarrow> stamped (put l x v m)"
  by (auto simp: stamped_def less_Suc_eq split: if_splits)

lemma put_mem_all:
  "mem_all Q m \<Longrightarrow> Q (v(l := length (m l))) \<Longrightarrow> mem_all Q (put l x v m)"
  by (auto simp: mem_all_def less_Suc_eq split: if_splits)

lemma load_relaxed_ordered:
  assumes "ordered t" "stamped m" "readable m t l k"
  shows "ordered (load_relaxed m l k t)"
  using assms by (auto simp: ordered_def load_relaxed_def le_fun_def stamped_def readable_def
      intro: le_trans max.coboundedI1)

lemma load_acquire_ordered: "ordered t \<Longrightarrow> ordered (load_acquire m l k t)"
  by (auto simp: ordered_def load_acquire_def intro: le_supI1 sup_mono)

lemma advance_ordered:
  "ordered t \<Longrightarrow> pending t l \<le> k \<Longrightarrow> ordered (advance l k t)"
  by (auto simp: ordered_def advance_def le_fun_def) (meson le_trans)

lemma fence_ordered: "ordered t \<Longrightarrow> ordered (fence_acquire t)" "ordered t \<Longrightarrow> ordered (fence_release t)"
  by (auto simp: ordered_def fence_acquire_def fence_release_def)

lemma load_acquire_all:
  assumes "thread_all Q t" "mem_all Q m" "k < length (m l)" "\<And>v w. Q v \<Longrightarrow> Q w \<Longrightarrow> Q (sup v w)"
  shows "thread_all Q (load_acquire m l k t)"
  using assms by (simp add: thread_all_def mem_all_def load_acquire_def)

lemma load_relaxed_all:
  assumes "thread_all Q t" "mem_all Q m" "k < length (m l)" "\<And>v w. Q v \<Longrightarrow> Q w \<Longrightarrow> Q (sup v w)"
    and "Q ((current t)(l := k))"
  shows "thread_all Q (load_relaxed m l k t)"
  using assms by (simp add: thread_all_def mem_all_def load_relaxed_def)

lemma fence_all:
  "thread_all Q t \<Longrightarrow> thread_all Q (fence_acquire t)" "thread_all Q t \<Longrightarrow> thread_all Q (fence_release t)"
  by (simp_all add: thread_all_def fence_acquire_def fence_release_def)

lemma advance_all:
  "thread_all Q t \<Longrightarrow> Q ((current t)(l := k)) \<Longrightarrow> Q ((pending t)(l := k)) \<Longrightarrow> thread_all Q (advance l k t)"
  by (simp add: thread_all_def advance_def)

lemma all_mono:
  "thread_all Q t \<Longrightarrow> (\<And>v. Q v \<Longrightarrow> R v) \<Longrightarrow> thread_all R t"
  "mem_all Q m \<Longrightarrow> (\<And>v. Q v \<Longrightarrow> R v) \<Longrightarrow> mem_all R m"
  by (auto simp: thread_all_def mem_all_def)

end
