(* ===== verification/Ring_Weak.thy ===== *)
theory Ring_Weak
  imports Ring_Concurrent Weak_Memory
begin

text \<open>
  \<open>src/audio_ring.rs\<close> run by two threads on a memory as weak as its atomic accesses ask for: every
  load and store has the ordering of the source, and a relaxed load may return old values or values
  of stores that are not published yet. The two fences are arguments of the step relation, so
  that what they are for can be stated; the code's are \<open>fence_acquire\<close> and \<open>fence_release\<close>.
  \<open>Ring_Concurrent\<close> is the same protocol on sequentially consistent memory. The flag \<open>closed\<close> is
  left out: other threads may set it, and it orders nothing.
\<close>

section \<open>Threads\<close>

datatype place = Reserved | WriteIx | ReadIx | Slot nat

datatype cell = Index usize | Sample i16

datatype prod_at =
    PRest
  | PReserve usize usize "i16 list"
  | PFence usize usize "i16 list"
  | PSlots usize usize "i16 list" nat

datatype cons_at =
    CRest
  | CWrite usize "i16 list"
  | CSlots usize "i16 list" nat
  | CCheck usize "i16 list"
  | CStore usize "i16 list"
  | CSkipWrite usize usize
  | CSkipStore usize nat

text \<open>
  \<open>whist\<close>, \<open>ends\<close>, \<open>wpos\<close> and \<open>wdeliv\<close> are ghost fields: the samples ever handed to the slots, the
  values ever stored to \<open>reserved\<close> (in frames, not wrapped), the consumer's position, and the
  buffers of the successful reads with their positions.
\<close>

record weak =
  mem :: "(place, cell) memory"
  pview :: "place thread_view"
  cview :: "place thread_view"
  ppc :: prod_at
  cpc :: cons_at
  whist :: "i16 list"
  ends :: "nat list"
  wpos :: nat
  wdeliv :: "(nat \<times> i16 list) list"

fun first_value :: "audio_ring \<Rightarrow> place \<Rightarrow> cell" where
  "first_value r Reserved = Index (reserved r)"
| "first_value r WriteIx = Index (write_ix r)"
| "first_value r ReadIx = Index (read_ix r)"
| "first_value r (Slot a) = Sample (if a < length (buf r) then buf r ! a else 0)"

definition weak_initial :: "audio_ring \<Rightarrow> weak" where
  "weak_initial r = \<lparr>mem = \<lambda>l. [\<lparr>val = first_value r l, seen = \<lambda>_. 0\<rparr>], pview = fresh_view,
     cview = fresh_view, ppc = PRest, cpc = CRest, whist = [], ends = [0], wpos = 0, wdeliv = []\<rparr>"

text \<open>The capacity, the channels and the mask never change; they are those of the ring \<open>r\<close> as created.\<close>

inductive weak_step ::
  "(place thread_view \<Rightarrow> place thread_view) \<Rightarrow> (place thread_view \<Rightarrow> place thread_view) \<Rightarrow>
    audio_ring \<Rightarrow> weak \<Rightarrow> weak \<Rightarrow> bool" for acq rel r where
  p_load: "ppc s = PRest \<Longrightarrow> length bs div (chn r * 2) \<noteq> 0 \<Longrightarrow> kept_chunk r bs = (b, f) \<Longrightarrow>
    readable (mem s) (pview s) WriteIx k \<Longrightarrow> val (mem s WriteIx ! k) = Index w \<Longrightarrow>
    weak_step acq rel r s (s\<lparr>pview := load_relaxed (mem s) WriteIx k (pview s),
      ppc := PReserve w (w + of_nat f) (s16le_samples (take (f * (chn r * 2)) b))\<rparr>)"
| p_reserve: "ppc s = PReserve w e ss \<Longrightarrow>
    store_relaxed Reserved (Index e) (pview s) (mem s) = (v, m) \<Longrightarrow>
    weak_step acq rel r s (s\<lparr>mem := m, pview := v, ppc := PFence w e ss,
      whist := whist s @ ss, ends := ends s @ [length (whist s @ ss) div chn r]\<rparr>)"
| p_fence: "ppc s = PFence w e ss \<Longrightarrow>
    weak_step acq rel r s (s\<lparr>pview := rel (pview s), ppc := PSlots (w * channels r) e ss 0\<rparr>)"
| p_slot: "ppc s = PSlots base e ss i \<Longrightarrow> i < length ss \<Longrightarrow>
    store_relaxed (Slot (slot r base i)) (Sample (ss ! i)) (pview s) (mem s) = (v, m) \<Longrightarrow>
    weak_step acq rel r s (s\<lparr>mem := m, pview := v, ppc := PSlots base e ss (Suc i)\<rparr>)"
| p_publish: "ppc s = PSlots base e ss (length ss) \<Longrightarrow>
    store_release WriteIx (Index e) (pview s) (mem s) = (v, m) \<Longrightarrow>
    weak_step acq rel r s (s\<lparr>mem := m, pview := v, ppc := PRest\<rparr>)"
| c_load: "cpc s = CRest \<Longrightarrow> chn r dvd length out \<Longrightarrow> length out div chn r \<noteq> 0 \<Longrightarrow>
    readable (mem s) (cview s) ReadIx k \<Longrightarrow> val (mem s ReadIx ! k) = Index rd \<Longrightarrow>
    weak_step acq rel r s (s\<lparr>cview := load_relaxed (mem s) ReadIx k (cview s), cpc := CWrite rd out\<rparr>)"
| c_few: "cpc s = CWrite rd out \<Longrightarrow>
    readable (mem s) (cview s) WriteIx k \<Longrightarrow> val (mem s WriteIx ! k) = Index w \<Longrightarrow>
    unat (w - rd) < length out div chn r \<Longrightarrow>
    weak_step acq rel r s (s\<lparr>cview := load_acquire (mem s) WriteIx k (cview s), cpc := CRest\<rparr>)"
| c_enough: "cpc s = CWrite rd out \<Longrightarrow>
    readable (mem s) (cview s) WriteIx k \<Longrightarrow> val (mem s WriteIx ! k) = Index w \<Longrightarrow>
    \<not> unat (w - rd) < length out div chn r \<Longrightarrow>
    weak_step acq rel r s (s\<lparr>cview := load_acquire (mem s) WriteIx k (cview s), cpc := CSlots rd out 0\<rparr>)"
| c_slot: "cpc s = CSlots rd out i \<Longrightarrow> i < length out \<Longrightarrow> l = Slot (slot r (rd * channels r) i) \<Longrightarrow>
    readable (mem s) (cview s) l k \<Longrightarrow> val (mem s l ! k) = Sample x \<Longrightarrow>
    weak_step acq rel r s (s\<lparr>cview := load_relaxed (mem s) l k (cview s),
      cpc := CSlots rd (out[i := x]) (Suc i)\<rparr>)"
| c_fence: "cpc s = CSlots rd out (length out) \<Longrightarrow>
    weak_step acq rel r s (s\<lparr>cview := acq (cview s), cpc := CCheck rd out\<rparr>)"
| c_lapped: "cpc s = CCheck rd out \<Longrightarrow>
    readable (mem s) (cview s) Reserved k \<Longrightarrow> val (mem s Reserved ! k) = Index e \<Longrightarrow>
    e - rd > capacity r \<Longrightarrow>
    weak_step acq rel r s (s\<lparr>cview := load_relaxed (mem s) Reserved k (cview s), cpc := CRest\<rparr>)"
| c_valid: "cpc s = CCheck rd out \<Longrightarrow>
    readable (mem s) (cview s) Reserved k \<Longrightarrow> val (mem s Reserved ! k) = Index e \<Longrightarrow>
    \<not> e - rd > capacity r \<Longrightarrow>
    weak_step acq rel r s (s\<lparr>cview := load_relaxed (mem s) Reserved k (cview s), cpc := CStore rd out\<rparr>)"
| c_store: "cpc s = CStore rd out \<Longrightarrow>
    store_release ReadIx (Index (rd + of_nat (length out div chn r))) (cview s) (mem s) = (v, m) \<Longrightarrow>
    weak_step acq rel r s (s\<lparr>mem := m, cview := v, cpc := CRest,
      wpos := wpos s + length out div chn r, wdeliv := wdeliv s @ [(wpos s, out)]\<rparr>)"
| c_skip: "cpc s = CRest \<Longrightarrow>
    readable (mem s) (cview s) ReadIx k \<Longrightarrow> val (mem s ReadIx ! k) = Index rd \<Longrightarrow>
    weak_step acq rel r s (s\<lparr>cview := load_relaxed (mem s) ReadIx k (cview s), cpc := CSkipWrite rd n\<rparr>)"
| c_skip_write: "cpc s = CSkipWrite rd n \<Longrightarrow>
    readable (mem s) (cview s) WriteIx k \<Longrightarrow> val (mem s WriteIx ! k) = Index w \<Longrightarrow>
    weak_step acq rel r s (s\<lparr>cview := load_acquire (mem s) WriteIx k (cview s),
      cpc := CSkipStore (rd + min n (w - rd)) (wpos s + unat (min n (w - rd)))\<rparr>)"
| c_skip_store: "cpc s = CSkipStore new q \<Longrightarrow>
    store_release ReadIx (Index new) (cview s) (mem s) = (v, m) \<Longrightarrow>
    weak_step acq rel r s (s\<lparr>mem := m, cview := v, cpc := CRest, wpos := q\<rparr>)"

inductive weak_reachable ::
  "(place thread_view \<Rightarrow> place thread_view) \<Rightarrow> (place thread_view \<Rightarrow> place thread_view) \<Rightarrow>
    audio_ring \<Rightarrow> weak \<Rightarrow> bool" for acq rel r where
  init: "weak_reachable acq rel r (weak_initial r)"
| step: "weak_reachable acq rel r s \<Longrightarrow> weak_step acq rel r s t \<Longrightarrow> weak_reachable acq rel r t"

section \<open>What the stores and the views say\<close>

text \<open>A view that covers \<open>n\<close> knows the stores of the first \<open>n\<close> samples into a ring of \<open>N\<close> slots.\<close>

definition covers :: "nat \<Rightarrow> place view \<Rightarrow> nat \<Rightarrow> bool" where
  "covers N v n \<longleftrightarrow> (\<forall>x < n. x div N < v (Slot (x mod N)))"

text \<open>Who knows a store to \<open>write\<close> knows the slots it publishes.\<close>

definition view_ok :: "nat \<Rightarrow> nat \<Rightarrow> nat list \<Rightarrow> (place, cell) memory \<Rightarrow> place view \<Rightarrow> bool" where
  "view_ok N c es m v \<longleftrightarrow> (\<forall>l. v l < length (m l)) \<and> covers N v (es ! v WriteIx * c)"

definition ends_ok :: "nat \<Rightarrow> nat list \<Rightarrow> i16 list \<Rightarrow> bool" where
  "ends_ok c es h \<longleftrightarrow> es \<noteq> [] \<and> es ! 0 = 0 \<and> sorted es \<and> last es * c = length h"

definition index_ok :: "nat list \<Rightarrow> (place, cell) memory \<Rightarrow> bool" where
  "index_ok es m \<longleftrightarrow> length (m Reserved) = length es \<and> length (m WriteIx) \<le> length es \<and>
     (\<forall>k < length es. val (m Reserved ! k) = Index (of_nat (es ! k))) \<and>
     (\<forall>k < length (m WriteIx). val (m WriteIx ! k) = Index (of_nat (es ! k)))"

text \<open>
  A store to a slot is a sample of the history, of the lap its number says, and its view knows a
  store to \<open>reserved\<close> past that sample; the samples stored are those below \<open>st\<close>.
\<close>

definition slots_ok :: "nat \<Rightarrow> nat \<Rightarrow> nat list \<Rightarrow> i16 list \<Rightarrow> (place, cell) memory \<Rightarrow> nat \<Rightarrow> bool" where
  "slots_ok N c es h m st \<longleftrightarrow>
     (\<forall>x. x < st \<longleftrightarrow> Suc (x div N) < length (m (Slot (x mod N)))) \<and>
     (\<forall>x. x < st \<longrightarrow> (let y = m (Slot (x mod N)) ! Suc (x div N) in
        val y = Sample (h ! x) \<and> x < es ! seen y Reserved * c))"

definition last_index :: "place \<Rightarrow> nat \<Rightarrow> (place, cell) memory \<Rightarrow> place thread_view \<Rightarrow> bool" where
  "last_index l p m t \<longleftrightarrow> Suc (current t l) = length (m l) \<and> val (last (m l)) = Index (of_nat p)"

section \<open>The invariant\<close>

fun wstored :: "i16 list \<Rightarrow> prod_at \<Rightarrow> nat" where
  "wstored h (PFence w e ss) = length h - length ss"
| "wstored h (PSlots base e ss i) = length h - (length ss - i)"
| "wstored h _ = length h"

fun prod_knows :: "nat \<Rightarrow> audio_ring \<Rightarrow> nat list \<Rightarrow> i16 list \<Rightarrow> (place, cell) memory \<Rightarrow>
    place thread_view \<Rightarrow> prod_at \<Rightarrow> bool" where
  "prod_knows c r es h m t PRest \<longleftrightarrow> length (m WriteIx) = length es"
| "prod_knows c r es h m t (PReserve w e ss) \<longleftrightarrow> length (m WriteIx) = length es \<and>
     c dvd length ss \<and> w = of_nat (last es) \<and> e = of_nat (last es + length ss div c)"
| "prod_knows c r es h m t (PFence w e ss) \<longleftrightarrow> Suc (length (m WriteIx)) = length es \<and>
     w = of_nat (es ! current t WriteIx) \<and> e = of_nat (last es) \<and>
     ss = drop (es ! current t WriteIx * c) h \<and> es ! current t WriteIx * c + length ss = length h \<and> Suc (current t Reserved) = length es"
| "prod_knows c r es h m t (PSlots base e ss i) \<longleftrightarrow> Suc (length (m WriteIx)) = length es \<and>
     base = of_nat (es ! current t WriteIx) * channels r \<and> e = of_nat (last es) \<and>
     ss = drop (es ! current t WriteIx * c) h \<and> es ! current t WriteIx * c + length ss = length h \<and> i \<le> length ss \<and>
     Suc (released t Reserved) = length es"

text \<open>
  A sample the consumer copied is right, or the view \<open>v\<close> knows that its place is being written
  again.
\<close>

definition copied :: "nat \<Rightarrow> nat \<Rightarrow> nat list \<Rightarrow> i16 list \<Rightarrow> nat \<Rightarrow> place view \<Rightarrow> i16 list \<Rightarrow> nat \<Rightarrow> bool" where
  "copied N c es h p v out i \<longleftrightarrow>
     (\<forall>k < i. out ! k = h ! (p * c + k) \<or> p * c + N < es ! v Reserved * c)"

fun cons_knows :: "nat \<Rightarrow> nat \<Rightarrow> nat list \<Rightarrow> i16 list \<Rightarrow> nat \<Rightarrow> place thread_view \<Rightarrow> cons_at \<Rightarrow> bool" where
  "cons_knows N c es h p t CRest = True"
| "cons_knows N c es h p t (CWrite rd out) \<longleftrightarrow> rd = of_nat p \<and> c dvd length out"
| "cons_knows N c es h p t (CSlots rd out i) \<longleftrightarrow> rd = of_nat p \<and> c dvd length out \<and>
     p * c + length out \<le> es ! current t WriteIx * c \<and> i \<le> length out \<and> copied N c es h p (pending t) out i"
| "cons_knows N c es h p t (CCheck rd out) \<longleftrightarrow> rd = of_nat p \<and> c dvd length out \<and>
     p * c + length out \<le> es ! current t WriteIx * c \<and> copied N c es h p (current t) out (length out)"
| "cons_knows N c es h p t (CStore rd out) \<longleftrightarrow> rd = of_nat p \<and> c dvd length out \<and>
     p * c + length out \<le> es ! current t WriteIx * c \<and>
     (length h div c < p + 2 ^ 64 \<longrightarrow> out = segment c h p (length out))"
| "cons_knows N c es h p t (CSkipWrite rd n) \<longleftrightarrow> rd = of_nat p"
| "cons_knows N c es h p t (CSkipStore new q) \<longleftrightarrow> new = of_nat q \<and> p \<le> q \<and> q \<le> es ! current t WriteIx"

definition memory_inv :: "audio_ring \<Rightarrow> weak \<Rightarrow> bool" where
  "memory_inv r s \<longleftrightarrow> stamped (mem s) \<and> ends_ok (chn r) (ends s) (whist s) \<and> index_ok (ends s) (mem s) \<and>
     slots_ok (length (buf r)) (chn r) (ends s) (whist s) (mem s) (wstored (whist s) (ppc s)) \<and>
     mem_all (view_ok (length (buf r)) (chn r) (ends s) (mem s)) (mem s)"

definition producer_inv :: "audio_ring \<Rightarrow> weak \<Rightarrow> bool" where
  "producer_inv r s \<longleftrightarrow> ordered (pview s) \<and>
     thread_all (view_ok (length (buf r)) (chn r) (ends s) (mem s)) (pview s) \<and>
     Suc (current (pview s) WriteIx) = length (mem s WriteIx) \<and>
     covers (length (buf r)) (current (pview s)) (wstored (whist s) (ppc s)) \<and>
     prod_knows (chn r) r (ends s) (whist s) (mem s) (pview s) (ppc s)"

definition consumer_inv :: "audio_ring \<Rightarrow> weak \<Rightarrow> bool" where
  "consumer_inv r s \<longleftrightarrow> ordered (cview s) \<and>
     thread_all (view_ok (length (buf r)) (chn r) (ends s) (mem s)) (cview s) \<and>
     last_index ReadIx (wpos s) (mem s) (cview s) \<and>
     wpos s \<le> ends s ! current (cview s) WriteIx \<and>
     cons_knows (length (buf r)) (chn r) (ends s) (whist s) (wpos s) (cview s) (cpc s) \<and>
     deliv_ok (chn r) (whist s) (wpos s) (wdeliv s)"

definition weak_inv :: "audio_ring \<Rightarrow> weak \<Rightarrow> bool" where
  "weak_inv r s \<longleftrightarrow> memory_inv r s \<and> producer_inv r s \<and> consumer_inv r s"

lemmas weak_defs = weak_inv_def memory_inv_def producer_inv_def consumer_inv_def

section \<open>Views under loads and growth\<close>

lemma covers_mono: "covers N v n \<Longrightarrow> v \<le> v' \<Longrightarrow> n' \<le> n \<Longrightarrow> covers N v' n'"
  unfolding covers_def le_fun_def by (meson order_less_le_trans)

lemma ends_mono: "ends_ok c es h \<Longrightarrow> i \<le> j \<Longrightarrow> j < length es \<Longrightarrow> es ! i \<le> es ! j"
  by (simp add: ends_ok_def sorted_nth_mono)

lemma ends_le_last: "ends_ok c es h \<Longrightarrow> i < length es \<Longrightarrow> es ! i \<le> last es"
  by (simp add: ends_ok_def last_conv_nth sorted_nth_mono)

lemma ends_le_hist: "ends_ok c es h \<Longrightarrow> i < length es \<Longrightarrow> es ! i * c \<le> length h"
  using ends_le_last [of c es h i] by (metis ends_ok_def mult_le_mono1)

lemma view_ok_sup:
  assumes "ends_ok c es h" and "length (m WriteIx) \<le> length es"
    and "view_ok N c es m v" and "view_ok N c es m w"
  shows "view_ok N c es m (sup v w)"
proof -
  have "covers N (sup v w) (es ! max (v WriteIx) (w WriteIx) * c)"
    using assms(3,4) by (auto simp: view_ok_def max_def intro: covers_mono)
  then show ?thesis using assms(3,4) by (simp add: view_ok_def)
qed

lemma view_ok_update:
  assumes "view_ok N c es m v" and "v l \<le> k" and "k < length (m l)" and "l \<noteq> WriteIx"
  shows "view_ok N c es m (v(l := k))"
  using assms covers_mono [of N v _ "v(l := k)"] by (auto simp: view_ok_def le_fun_def)

lemma view_ok_grow:
  assumes "view_ok N c es m v" and "\<And>l. length (m l) \<le> length (m' l)" and "length (m WriteIx) \<le> length es"
  shows "view_ok N c (es @ x) m' v"
proof -
  have "v l < length (m' l)" for l using assms(1) assms(2) [of l] by (meson order_less_le_trans view_ok_def)
  moreover have "v WriteIx < length es" using assms(1,3) by (meson order_less_le_trans view_ok_def)
  ultimately show ?thesis using assms(1) by (simp add: view_ok_def nth_append)
qed

lemma view_ok_put:
  "view_ok N c es m v \<Longrightarrow> length (m WriteIx) \<le> length es \<Longrightarrow> view_ok N c es (put l x u m) v"
  using view_ok_grow [of N c es m v "put l x u m" "[]"] by simp

lemma copied_mono:
  assumes "copied N c es h p v out i" and "v Reserved \<le> v' Reserved" and "v' Reserved < length es"
    and "ends_ok c es h"
  shows "copied N c es h p v' out i"
proof -
  have "es ! v Reserved * c \<le> es ! v' Reserved * c"
    using ends_mono [OF assms(4,2,3)] by (rule mult_le_mono1)
  then show ?thesis using assms(1) unfolding copied_def by (meson order_less_le_trans)
qed

lemma copied_grow:
  assumes "copied N c es h p v out i" and "p * c + i \<le> length h" and "v Reserved < length es"
  shows "copied N c (es @ x) (h @ y) p v out i"
  using assms by (auto simp: copied_def nth_append)

lemma cons_knows_grow:
  assumes "cons_knows N c es h p t pc" and "current t WriteIx < length es" and "ends_ok c es h"
    and "pending t Reserved < length es" and "current t Reserved < length es"
  shows "cons_knows N c (es @ x) (h @ y) p t pc"
proof -
  have le: "es ! current t WriteIx * c \<le> length h" by (rule ends_le_hist [OF assms(3,2)])
  show ?thesis
  proof (cases pc)
    case (CSlots rd out i)
    then show ?thesis using assms le by (auto simp: nth_append intro!: copied_grow)
  next
    case (CCheck rd out)
    then show ?thesis using assms le by (auto simp: nth_append intro!: copied_grow)
  next
    case (CStore rd out)
    have "length h div c \<le> (length h + length y) div c" by (rule div_le_mono) simp
    then show ?thesis using CStore assms le by (auto simp: nth_append)
  qed (use assms in \<open>auto simp: nth_append\<close>)
qed

lemma last_index_put:
  "last_index l p m t \<Longrightarrow> l' \<noteq> l \<Longrightarrow> last_index l p (put l' x v m) t"
  by (simp add: last_index_def put_apply)

text \<open>The producer's steps leave what the consumer knows in place.\<close>

lemma consumer_grow:
  assumes "weak_inv r s" and "0 < chn r"
    and "\<And>l. length (mem s l) \<le> length (m l)" and "m ReadIx = mem s ReadIx"
  shows "consumer_inv r (s\<lparr>mem := m, pview := v, ppc := pc, whist := whist s @ y, ends := ends s @ x\<rparr>)"
proof -
  let ?Q = "view_ok (length (buf r)) (chn r) (ends s) (mem s)"
  have inv: "ends_ok (chn r) (ends s) (whist s)" "index_ok (ends s) (mem s)" "thread_all ?Q (cview s)"
      "ordered (cview s)" "last_index ReadIx (wpos s) (mem s) (cview s)"
      "wpos s \<le> ends s ! current (cview s) WriteIx" "deliv_ok (chn r) (whist s) (wpos s) (wdeliv s)"
      "cons_knows (length (buf r)) (chn r) (ends s) (whist s) (wpos s) (cview s) (cpc s)"
    using assms(1) by (simp_all add: weak_defs)
  have lt: "current (cview s) WriteIx < length (ends s)" "pending (cview s) Reserved < length (ends s)"
      "current (cview s) Reserved < length (ends s)" "length (mem s WriteIx) \<le> length (ends s)"
    using inv(2,3) by (auto simp: thread_all_def view_ok_def index_ok_def intro: order_less_le_trans)
  have "wpos s * chn r \<le> length (whist s)"
    using inv(6) ends_le_hist [OF inv(1) lt(1)] by (meson le_trans mult_le_mono1)
  then have "deliv_ok (chn r) (whist s @ y) (wpos s) (wdeliv s)"
    using deliv_ok_append inv(7) assms(2) by blast
  moreover have "thread_all (view_ok (length (buf r)) (chn r) (ends s @ x) m) (cview s)"
    by (rule all_mono(1) [OF inv(3)]) (erule view_ok_grow; rule assms(3) lt(4))
  ultimately show ?thesis
    using inv lt assms(4) cons_knows_grow [OF inv(8) lt(1) inv(1) lt(2,3)]
    by (simp add: consumer_inv_def nth_append last_index_def)
qed

lemma load_ok:
  assumes "ends_ok c es h" and "index_ok es m" and "stamped m" and "mem_all (view_ok N c es m) m"
    and "ordered t" and "thread_all (view_ok N c es m) t" and "readable m t l k"
  shows "thread_all (view_ok N c es m) (load_acquire m l k t)" and "ordered (load_acquire m l k t)"
    and "ordered (load_relaxed m l k t)"
    and "l \<noteq> WriteIx \<or> k = current t l \<Longrightarrow> thread_all (view_ok N c es m) (load_relaxed m l k t)"
proof -
  have sup: "view_ok N c es m (sup v w)" if "view_ok N c es m v" "view_ok N c es m w" for v w
    using view_ok_sup [OF assms(1) _ that] assms(2) by (simp add: index_ok_def)
  show "thread_all (view_ok N c es m) (load_acquire m l k t)"
    using assms(4,6,7) sup by (intro load_acquire_all) (auto simp: readable_def)
  show "ordered (load_acquire m l k t)" by (rule load_acquire_ordered [OF assms(5)])
  show "ordered (load_relaxed m l k t)" by (rule load_relaxed_ordered [OF assms(5,3,7)])
  assume l: "l \<noteq> WriteIx \<or> k = current t l"
  then have "view_ok N c es m ((current t)(l := k))"
    using assms(6,7) view_ok_update [of N c es m "current t" l k]
    by (cases "k = current t l") (auto simp: thread_all_def readable_def)
  then show "thread_all (view_ok N c es m) (load_relaxed m l k t)"
    using assms(4,6,7) sup by (intro load_relaxed_all) (auto simp: readable_def)
qed

lemma load_pending: "pending t l' \<le> pending (load_relaxed m l k t) l'"
  "seen (m l ! k) l' \<le> pending (load_relaxed m l k t) l'"
  by (simp_all add: load_relaxed_def)

lemma load_current:
  "current (load_relaxed m l k t) = (current t)(l := k)"
  "current (load_acquire m l k t) = sup (current t) (seen (m l ! k))"
  "released (load_relaxed m l k t) = released t"
  by (simp_all add: load_relaxed_def load_acquire_def)

section \<open>The producer's steps\<close>

lemma weak_loads:
  assumes "weak_inv r s"
  shows "readable (mem s) (pview s) l k \<Longrightarrow> ordered (load_relaxed (mem s) l k (pview s))"
    and "readable (mem s) (pview s) l k \<Longrightarrow> l \<noteq> WriteIx \<or> k = current (pview s) l \<Longrightarrow>
      thread_all (view_ok (length (buf r)) (chn r) (ends s) (mem s)) (load_relaxed (mem s) l k (pview s))"
    and "readable (mem s) (cview s) l k \<Longrightarrow> ordered (load_relaxed (mem s) l k (cview s))"
    and "readable (mem s) (cview s) l k \<Longrightarrow> l \<noteq> WriteIx \<or> k = current (cview s) l \<Longrightarrow>
      thread_all (view_ok (length (buf r)) (chn r) (ends s) (mem s)) (load_relaxed (mem s) l k (cview s))"
    and "readable (mem s) (cview s) l k \<Longrightarrow> ordered (load_acquire (mem s) l k (cview s))"
    and "readable (mem s) (cview s) l k \<Longrightarrow>
      thread_all (view_ok (length (buf r)) (chn r) (ends s) (mem s)) (load_acquire (mem s) l k (cview s))"
  using assms unfolding weak_defs by (auto intro: load_ok)

lemma p_load_inv:
  assumes "weak_inv r s" and "ring_ok r" and "ppc s = PRest" and "kept_chunk r bs = (b, f)"
    and "readable (mem s) (pview s) WriteIx k" and "val (mem s WriteIx ! k) = Index w"
  shows "weak_inv r (s\<lparr>pview := load_relaxed (mem s) WriteIx k (pview s),
      ppc := PReserve w (w + of_nat f) (s16le_samples (take (f * (chn r * 2)) b))\<rparr>)"
proof -
  have k: "k = current (pview s) WriteIx" and kl: "k < length (mem s WriteIx)"
    using assms(1,5) by (auto simp: weak_defs readable_def)
  have "Suc k = length (ends s)" using assms(1,3) k by (simp add: weak_defs)
  then have "ends s ! k = last (ends s)"
    by (metis diff_Suc_1 last_conv_nth list.size(3) nat.distinct(1))
  moreover have "w = of_nat (ends s ! k)" using assms(1,6) kl by (simp add: weak_defs index_ok_def)
  ultimately have w: "w = of_nat (last (ends s))" by simp
  obtain ss where ss: "s16le_samples (take (f * (chn r * 2)) b) = ss" by blast
  then have len: "length ss = f * chn r"
    using kept_chunk_samples [OF assms(4)] length_chunk_samples [OF ring_ok_dims(1) [OF assms(2)]] by simp
  have "producer_inv r (s\<lparr>pview := load_relaxed (mem s) WriteIx k (pview s),
      ppc := PReserve w (w + of_nat f) ss\<rparr>)"
    using assms(1,3) w k weak_loads(1,2) [OF assms(1,5)] ring_ok_dims(1) [OF assms(2)]
    unfolding producer_inv_def by (simp add: weak_defs load_current len)
  then show ?thesis using assms(1,3) ss by (simp add: weak_inv_def memory_inv_def consumer_inv_def)
qed

lemma put_views:
  assumes "thread_all (view_ok N c es m) t" and "mem_all (view_ok N c es m) m"
    and "length (m WriteIx) \<le> length es" and "l \<noteq> WriteIx" and "v = released t \<or> v = current t"
  shows "mem_all (view_ok N c (es @ x) (put l y v m)) (put l y v m)"
    and "thread_all (view_ok N c (es @ x) (put l y v m)) (advance l (length (m l)) t)"
proof -
  let ?m = "put l y v m"
  have grow: "view_ok N c (es @ x) ?m u" if "view_ok N c es m u" for u
    by (rule view_ok_grow [OF that _ assms(3)]) simp
  have upd: "view_ok N c (es @ x) ?m (u(l := length (m l)))" if "view_ok N c es m u" for u
  proof (rule view_ok_update [OF grow [OF that] _ _ assms(4)])
    show "u l \<le> length (m l)" using that by (simp add: view_ok_def less_imp_le)
  qed simp
  show "mem_all (view_ok N c (es @ x) ?m) ?m"
    using assms(1,5) by (intro put_mem_all upd all_mono(2) [OF assms(2) grow]) (auto simp: thread_all_def)
  show "thread_all (view_ok N c (es @ x) ?m) (advance l (length (m l)) t)"
    using assms(1) by (intro advance_all upd all_mono(1) [OF assms(1) grow]) (auto simp: thread_all_def)
qed

lemma advance_view:
  "current (advance l k t) = (current t)(l := k)" "released (advance l k t) = released t"
  by (simp_all add: advance_def)

lemma advance_ordered_view:
  "ordered t \<Longrightarrow> thread_all (view_ok N c es m) t \<Longrightarrow> ordered (advance l (length (m l)) t)"
  by (rule advance_ordered) (auto simp: thread_all_def view_ok_def intro: less_imp_le)

lemma slots_ok_grow:
  assumes "slots_ok N c es h m st" and "\<And>a. m' (Slot a) = m (Slot a)" and "st \<le> length h"
    and "mem_all (view_ok N c es m) m" and "length (m Reserved) = length es"
  shows "slots_ok N c (es @ x) (h @ y) m' st"
proof -
  have "(h @ y) ! a = h ! a" if "a < st" for a using that assms(3) by (simp add: nth_append)
  moreover have "(es @ x) ! seen (m (Slot (a mod N)) ! Suc (a div N)) Reserved =
      es ! seen (m (Slot (a mod N)) ! Suc (a div N)) Reserved" if "a < st" for a
  proof -
    have "Suc (a div N) < length (m (Slot (a mod N)))" using assms(1) that by (simp add: slots_ok_def)
    then have "seen (m (Slot (a mod N)) ! Suc (a div N)) Reserved < length es"
      using assms(4,5) by (metis mem_all_def view_ok_def)
    then show ?thesis by (simp add: nth_append)
  qed
  ultimately show ?thesis using assms(1,2) unfolding slots_ok_def by (simp add: Let_def)
qed

lemma weak_reserve_inv:
  assumes "weak_inv r s" and "ring_ok r" and "ppc s = PReserve w e ss"
    and "store_relaxed Reserved (Index e) (pview s) (mem s) = (v, m)"
  shows "weak_inv r (s\<lparr>mem := m, pview := v, ppc := PFence w e ss,
      whist := whist s @ ss, ends := ends s @ [length (whist s @ ss) div chn r]\<rparr>)"
    (is "weak_inv r ?t")
proof -
  let ?c = "chn r" and ?es = "ends s" and ?h = "whist s"
  have c: "0 < ?c" by (rule ring_ok_dims(1) [OF assms(2)])
  have m: "m = put Reserved (Index e) (released (pview s)) (mem s)"
    and v: "v = advance Reserved (length (mem s Reserved)) (pview s)"
    using assms(4) by (auto simp: store_relaxed_def)
  have inv: "stamped (mem s)" "ends_ok ?c ?es ?h" "index_ok ?es (mem s)"
      "slots_ok (length (buf r)) ?c ?es ?h (mem s) (length ?h)"
      "mem_all (view_ok (length (buf r)) ?c ?es (mem s)) (mem s)" "ordered (pview s)"
      "thread_all (view_ok (length (buf r)) ?c ?es (mem s)) (pview s)"
      "Suc (current (pview s) WriteIx) = length (mem s WriteIx)"
      "covers (length (buf r)) (current (pview s)) (length ?h)"
      "length (mem s WriteIx) = length ?es" "?c dvd length ss" "w = of_nat (last ?es)"
      "e = of_nat (last ?es + length ss div ?c)"
    using assms(1,3) by (auto simp: weak_defs)
  obtain f where f: "length ss = f * ?c" using inv(11) by (metis dvd_def mult.commute)
  have h: "length ?h = last ?es * ?c" using inv(2) by (simp add: ends_ok_def)
  have E: "(length ?h + length ss) div ?c = last ?es + f" using h f c by (simp flip: add_mult_distrib)
  have le: "x \<le> last ?es" if "x \<in> set ?es" for x
    using that ends_le_last [OF inv(2)] by (auto simp: in_set_conv_nth)
  have ends': "ends_ok ?c (?es @ [last ?es + f]) (?h @ ss)"
    using inv(2) h f le by (fastforce simp: ends_ok_def sorted_append nth_append add_mult_distrib)
  have idx: "index_ok (?es @ [last ?es + f]) m"
    using inv(3,13) f c unfolding index_ok_def m by (auto simp: nth_append less_Suc_eq put_apply)
  have lw: "length (mem s WriteIx) \<le> length ?es" "length (mem s Reserved) = length ?es"
    using inv(3,10) by (simp_all add: index_ok_def)
  note pv = put_views [OF inv(7,5) lw(1), of Reserved "released (pview s)" "[last ?es + f]" "Index e"]
  have slots: "slots_ok (length (buf r)) ?c (?es @ [last ?es + f]) (?h @ ss) m (length ?h)"
    by (rule slots_ok_grow [OF inv(4) _ _ inv(5) lw(2)]) (simp_all add: m put_apply)
  have "memory_inv r ?t"
    using ends' idx slots pv inv(1) by (simp add: memory_inv_def E m put_stamped)
  moreover have nth: "(?es @ [last ?es + f]) ! current (pview s) WriteIx = last ?es"
    using inv(8,10) by (metis diff_Suc_1 last_conv_nth length_0_conv lessI nat.distinct(1) nth_append)
  have "covers (length (buf r)) ((current (pview s))(Reserved := k)) (length ?h)" for k
    using inv(9) by (simp add: covers_def)
  then have "producer_inv r ?t"
    using pv inv(3,6,7,8,10,12,13) f h nth lw advance_ordered_view [OF inv(6,7), of Reserved] c
    by (simp add: producer_inv_def m v advance_view E)
  moreover have "consumer_inv r ?t"
    using consumer_grow [OF assms(1) c, where m = m and v = v and pc = "PFence w e ss" and y = ss] E by (simp add: m put_apply)
  ultimately show ?thesis by (simp add: weak_inv_def)
qed

lemma p_fence_inv:
  assumes "weak_inv r s" and "ppc s = PFence w e ss"
  shows "weak_inv r (s\<lparr>pview := fence_release (pview s), ppc := PSlots (w * channels r) e ss 0\<rparr>)"
proof -
  have "ordered (pview s)" using assms(1) by (simp add: weak_defs)
  then have "ordered (fence_release (pview s))" by (rule fence_ordered(2))
  moreover have "covers (length (buf r)) (current (fence_release (pview s))) (wstored (whist s) (ppc s))"
    using assms(1) by (simp add: weak_inv_def producer_inv_def fence_release_def)
  moreover have "wstored (whist s) (PSlots (w * channels r) e ss 0) = wstored (whist s) (ppc s)"
    using assms(2) by simp
  moreover have "memory_inv r (s\<lparr>pview := fence_release (pview s), ppc := PSlots (w * channels r) e ss 0\<rparr>)"
    using assms by (simp add: weak_inv_def memory_inv_def)
  moreover have "prod_knows (chn r) r (ends s) (whist s) (mem s) (fence_release (pview s))
      (PSlots (w * channels r) e ss 0)" "current (fence_release (pview s)) = current (pview s)"
    using assms by (simp_all add: weak_inv_def producer_inv_def fence_release_def)
  ultimately show ?thesis using assms(1)
    by (simp add: weak_inv_def producer_inv_def consumer_inv_def fence_all(2) del: prod_knows.simps wstored.simps)
qed

text \<open>The next sample is the next store of its slot.\<close>

lemma next_store:
  assumes "slots_ok N c es h m x" and "0 < N" and "m (Slot (x mod N)) \<noteq> []"
  shows "length (m (Slot (x mod N))) = Suc (x div N)"
proof -
  have le: "length (m (Slot (x mod N))) \<le> Suc (x div N)"
    using assms(1) by (meson less_irrefl not_le slots_ok_def)
  show ?thesis
  proof (cases "x < N")
    case True
    then show ?thesis using le assms(3) by (cases "m (Slot (x mod N))") auto
  next
    case False
    then have "x - N < x" "(x - N) mod N = x mod N" "x div N = Suc ((x - N) div N)"
      using assms(2) by (simp_all add: le_mod_geq le_div_geq)
    then have "Suc (x div N) \<le> length (m (Slot (x mod N)))"
      using assms(1) unfolding slots_ok_def by (metis Suc_leI)
    with le show ?thesis by simp
  qed
qed

lemma less_mod_div: "(x :: nat) mod N = y mod N \<Longrightarrow> x div N \<le> y div N \<longleftrightarrow> x \<le> y"
  by (metis add_le_cancel_right div_le_mono div_mult_mod_eq mult_le_mono1)

lemma slots_ok_store:
  assumes "slots_ok N c es h m x" and "0 < N" and "m (Slot (x mod N)) \<noteq> []"
    and "x < es ! v Reserved * c"
  shows "slots_ok N c es h (put (Slot (x mod N)) (Sample (h ! x)) v m) (Suc x)"
proof -
  let ?m = "put (Slot (x mod N)) (Sample (h ! x)) v m"
  note len = next_store [OF assms(1-3)]
  have old: "Suc (y div N) < length (m (Slot (y mod N)))" if "y < x" for y
    using assms(1) that by (simp add: slots_ok_def)
  have "y < Suc x \<longleftrightarrow> Suc (y div N) < length (?m (Slot (y mod N)))" for y
  proof (cases "y mod N = x mod N")
    case True
    then show ?thesis using less_mod_div [OF True] len by (simp add: less_Suc_eq_le)
  next
    case False
    then have "y \<noteq> x" by auto
    then show ?thesis using False assms(1) by (simp add: slots_ok_def less_Suc_eq)
  qed
  moreover have "val (?m (Slot (y mod N)) ! Suc (y div N)) = Sample (h ! y) \<and>
      y < es ! seen (?m (Slot (y mod N)) ! Suc (y div N)) Reserved * c" if "y < Suc x" for y
  proof (cases "y = x")
    case True
    then show ?thesis using len assms(4) put_new [of "Slot (x mod N)" "Sample (h ! x)" v m] by simp
  next
    case False
    with that have "y < x" by simp
    then show ?thesis using old [of y] assms(1) by (simp add: slots_ok_def Let_def)
  qed
  ultimately show ?thesis by (simp add: slots_ok_def Let_def)
qed

lemma covers_store: "covers N v x \<Longrightarrow> covers N (v(Slot (x mod N) := Suc (x div N))) (Suc x)"
  unfolding covers_def
proof (intro allI impI)
  fix y assume v: "\<forall>x'<x. x' div N < v (Slot (x' mod N))" and y: "y < Suc x"
  show "y div N < (v(Slot (x mod N) := Suc (x div N))) (Slot (y mod N))"
  proof (cases "y mod N = x mod N")
    case True
    then show ?thesis using y by (simp add: less_Suc_eq_le div_le_mono)
  next
    case False
    then have "y < x" using y by (auto simp: less_Suc_eq)
    then show ?thesis using v False by simp
  qed
qed

lemma p_slot_inv:
  assumes "weak_inv r s" and "ring_ok r" and "ppc s = PSlots base e ss i" and "i < length ss"
    and "store_relaxed (Slot (slot r base i)) (Sample (ss ! i)) (pview s) (mem s) = (v, m)"
  shows "weak_inv r (s\<lparr>mem := m, pview := v, ppc := PSlots base e ss (Suc i)\<rparr>)" (is "weak_inv r ?t")
proof -
  let ?c = "chn r" and ?N = "length (buf r)" and ?es = "ends s" and ?h = "whist s"
  let ?P = "?es ! current (pview s) WriteIx"
  define x where "x = length ?h - (length ss - i)"
  have inv: "stamped (mem s)" "ends_ok ?c ?es ?h" "index_ok ?es (mem s)" "slots_ok ?N ?c ?es ?h (mem s) x"
      "mem_all (view_ok ?N ?c ?es (mem s)) (mem s)" "ordered (pview s)"
      "thread_all (view_ok ?N ?c ?es (mem s)) (pview s)"
      "Suc (current (pview s) WriteIx) = length (mem s WriteIx)" "covers ?N (current (pview s)) x"
      "prod_knows ?c r ?es ?h (mem s) (pview s) (PSlots base e ss i)"
    using assms(1,3) by (auto simp: weak_defs x_def)
  have x: "x = ?P * ?c + i" "x < length ?h" and ss: "ss = drop (?P * ?c) ?h"
    using inv(10) assms(4) by (auto simp: x_def)
  have a: "slot r base i = x mod ?N" using slot_mod [OF assms(2), of base ?P i] inv(10) x by simp
  have nth: "ss ! i = ?h ! x" using ss assms(4) x by simp
  have m: "m = put (Slot (x mod ?N)) (Sample (?h ! x)) (released (pview s)) (mem s)"
    and v: "v = advance (Slot (x mod ?N)) (length (mem s (Slot (x mod ?N)))) (pview s)"
    using assms(5) by (auto simp: store_relaxed_def a nth)
  have lw: "length (mem s WriteIx) \<le> length ?es" using inv(3) by (simp add: index_ok_def)
  have ne: "mem s (Slot (x mod ?N)) \<noteq> []"
    using inv(7) by (metis less_nat_zero_code list.size(3) thread_all_def view_ok_def)
  have "released (pview s) Reserved = length ?es - 1" using inv(10) by (metis diff_Suc_1 prod_knows.simps(4))
  moreover have "?es ! (length ?es - 1) = last ?es" using inv(2) by (simp add: ends_ok_def last_conv_nth)
  ultimately have "x < ?es ! released (pview s) Reserved * ?c" using x inv(2) by (simp add: ends_ok_def)
  then have slots: "slots_ok ?N ?c ?es ?h m (Suc x)"
    unfolding m using ring_ok_nonempty [OF assms(2)] ne by (intro slots_ok_store [OF inv(4)]) simp_all
  note pv = put_views [OF inv(7,5) lw, of "Slot (x mod ?N)" "released (pview s)" "[]" "Sample (?h ! x)", simplified]
  have st: "wstored ?h (PSlots base e ss (Suc i)) = Suc x" using assms(4) inv(10) by (simp add: x_def)
  have "memory_inv r ?t"
    using inv pv slots st by (simp add: memory_inv_def m put_stamped index_ok_def put_apply)
  moreover have "covers ?N ((current (pview s))(Slot (x mod ?N) := Suc (x div ?N))) (Suc x)"
    using inv(9) by (rule covers_store)
  then have "producer_inv r ?t"
    using pv inv st advance_ordered_view [OF inv(6,7), of "Slot (x mod ?N)"] assms(4)
      next_store [OF inv(4) _ ne] ring_ok_nonempty [OF assms(2)]
    by (simp add: producer_inv_def m v advance_view)
  moreover have "consumer_inv r ?t"
    using consumer_grow [OF assms(1) ring_ok_dims(1) [OF assms(2)], where m = m and v = v
        and pc = "PSlots base e ss (Suc i)" and x = "[]" and y = "[]"]
    by (simp add: m put_apply)
  ultimately show ?thesis by (simp add: weak_inv_def)
qed

lemma weak_publish_inv:
  assumes "weak_inv r s" and "ring_ok r" and "ppc s = PSlots base e ss (length ss)"
    and "store_release WriteIx (Index e) (pview s) (mem s) = (v, m)"
  shows "weak_inv r (s\<lparr>mem := m, pview := v, ppc := PRest\<rparr>)" (is "weak_inv r ?t")
proof -
  let ?c = "chn r" and ?N = "length (buf r)" and ?es = "ends s" and ?h = "whist s"
  let ?k = "length (mem s WriteIx)"
  have inv: "stamped (mem s)" "ends_ok ?c ?es ?h" "index_ok ?es (mem s)" "slots_ok ?N ?c ?es ?h (mem s) (length ?h)"
      "mem_all (view_ok ?N ?c ?es (mem s)) (mem s)" "ordered (pview s)"
      "thread_all (view_ok ?N ?c ?es (mem s)) (pview s)" "covers ?N (current (pview s)) (length ?h)"
      "Suc ?k = length ?es" "e = of_nat (last ?es)"
    using assms(1,3) by (simp_all add: weak_defs)
  have m: "m = put WriteIx (Index e) (current (pview s)) (mem s)" and v: "v = advance WriteIx ?k (pview s)"
    using assms(4) by (auto simp: store_release_def)
  have k: "?es ! ?k = last ?es" "?es ! ?k * ?c = length ?h"
    using inv(2,9) by (auto simp: ends_ok_def last_conv_nth simp flip: inv(9))
  have lw: "?k \<le> length ?es" using inv(9) by simp
  have new: "view_ok ?N ?c ?es m (u(WriteIx := ?k))"
    if "view_ok ?N ?c ?es (mem s) u" "current (pview s) \<le> u" for u
  proof -
    have "covers ?N u (length ?h)" using inv(8) that(2) by (rule covers_mono) simp
    then show ?thesis using that(1) k(2) by (simp add: view_ok_def m covers_def less_Suc_eq)
  qed
  have old: "view_ok ?N ?c ?es m u" if "view_ok ?N ?c ?es (mem s) u" for u
    unfolding m by (rule view_ok_put [OF that lw])
  have Q: "view_ok ?N ?c ?es (mem s) (current (pview s))" "view_ok ?N ?c ?es (mem s) (pending (pview s))"
      "current (pview s) \<le> pending (pview s)"
    using inv(6,7) by (auto simp: thread_all_def ordered_def)
  have "mem_all (view_ok ?N ?c ?es m) (mem s)" by (rule all_mono(2) [OF inv(5) old])
  then have "mem_all (view_ok ?N ?c ?es m) m"
    unfolding m by (rule put_mem_all) (rule new [OF Q(1) order.refl, unfolded m])
  moreover have "index_ok ?es m"
    using inv(3,10) k by (auto simp: index_ok_def m less_Suc_eq put_apply nth_append simp flip: inv(9))
  moreover have "slots_ok ?N ?c ?es ?h m (length ?h)" using inv(4) by (simp add: slots_ok_def m put_apply)
  ultimately have "memory_inv r ?t"
    using inv by (simp add: memory_inv_def m put_stamped)
  moreover have "thread_all (view_ok ?N ?c ?es m) v"
    unfolding v by (intro advance_all all_mono(1) [OF inv(7) old] new Q order.refl)
  then have "producer_inv r ?t"
    using inv advance_ordered_view [OF inv(6,7), of WriteIx]
    by (simp add: producer_inv_def v m advance_view covers_def)
  moreover have "consumer_inv r ?t"
    using consumer_grow [OF assms(1) ring_ok_dims(1) [OF assms(2)], where m = m and v = v and pc = PRest
        and x = "[]" and y = "[]"]
    by (simp add: m put_apply)
  ultimately show ?thesis by (simp add: weak_inv_def)
qed

section \<open>The consumer's steps\<close>

text \<open>Loads change only what the consumer knows.\<close>

lemma consumer_step:
  assumes "weak_inv r s" and "consumer_inv r (s\<lparr>cview := v, cpc := pc\<rparr>)"
  shows "weak_inv r (s\<lparr>cview := v, cpc := pc\<rparr>)"
  using assms by (simp add: weak_inv_def memory_inv_def producer_inv_def)

lemma read_own:
  assumes "weak_inv r s" and "readable (mem s) (cview s) ReadIx k" and "val (mem s ReadIx ! k) = Index rd"
  shows "k = current (cview s) ReadIx" and "rd = of_nat (wpos s)"
proof -
  show k: "k = current (cview s) ReadIx"
    using assms(1,2) by (auto simp: weak_defs last_index_def readable_def)
  have "mem s ReadIx ! k = last (mem s ReadIx)"
    using assms(1) unfolding k weak_defs last_index_def
    by (metis diff_Suc_1 last_conv_nth list.size(3) nat.distinct(1))
  then show "rd = of_nat (wpos s)" using assms(1,3) by (simp add: weak_defs last_index_def)
qed

text \<open>A load of \<open>read\<close> by the consumer itself.\<close>

lemma c_own_inv:
  assumes "weak_inv r s" and "readable (mem s) (cview s) ReadIx k" and "val (mem s ReadIx ! k) = Index rd"
    and "pc = CWrite rd out \<and> chn r dvd length out \<or> pc = CSkipWrite rd n"
  shows "weak_inv r (s\<lparr>cview := load_relaxed (mem s) ReadIx k (cview s), cpc := pc\<rparr>)"
proof (rule consumer_step [OF assms(1)])
  note own = read_own [OF assms(1-3)]
  show "consumer_inv r (s\<lparr>cview := load_relaxed (mem s) ReadIx k (cview s), cpc := pc\<rparr>)"
    using assms(1,4) own weak_loads(3,4) [OF assms(1,2)]
    by (auto simp: weak_defs load_current last_index_def)
qed

text \<open>What an acquiring load of \<open>write\<close> tells.\<close>

lemma read_write:
  assumes "weak_inv r s" and "readable (mem s) (cview s) WriteIx k" and "val (mem s WriteIx ! k) = Index w"
  defines "t \<equiv> load_acquire (mem s) WriteIx k (cview s)"
  shows "current t WriteIx = k" and "current t ReadIx = current (cview s) ReadIx" and "k < length (ends s)"
    and "w = of_nat (ends s ! k)" and "wpos s \<le> ends s ! k" and "unat (w - of_nat (wpos s)) \<le> ends s ! k - wpos s"
proof -
  let ?msg = "mem s WriteIx ! k"
  have k: "k < length (mem s WriteIx)" "current (cview s) WriteIx \<le> k" using assms(2) by (simp_all add: readable_def)
  then have st: "seen ?msg WriteIx = k" "view_ok (length (buf r)) (chn r) (ends s) (mem s) (seen ?msg)"
    using assms(1) by (simp_all add: weak_defs stamped_def mem_all_def)
  then show "current t WriteIx = k" using k by (simp add: t_def load_current)
  have "seen ?msg ReadIx < length (mem s ReadIx)" "Suc (current (cview s) ReadIx) = length (mem s ReadIx)"
    using st(2) assms(1) by (simp_all add: view_ok_def weak_defs last_index_def)
  then show "current t ReadIx = current (cview s) ReadIx" by (simp add: t_def load_current)
  show kl: "k < length (ends s)" using k assms(1) by (simp add: weak_defs index_ok_def)
  show w: "w = of_nat (ends s ! k)" using k assms(1,3) by (simp add: weak_defs index_ok_def)
  have "wpos s \<le> ends s ! current (cview s) WriteIx" "ends_ok (chn r) (ends s) (whist s)"
    using assms(1) by (simp_all add: weak_defs)
  then show p: "wpos s \<le> ends s ! k" using ends_mono [OF _ k(2) kl] by (meson le_trans)
  then have "w - of_nat (wpos s) = of_nat (ends s ! k - wpos s)" by (simp add: w of_nat_diff)
  then show "unat (w - of_nat (wpos s)) \<le> ends s ! k - wpos s"
    by (simp only: unsigned_of_nat) (simp add: take_bit_nat_less_eq_self)
qed

lemma c_write_inv:
  assumes "weak_inv r s" and "readable (mem s) (cview s) WriteIx k" and "val (mem s WriteIx ! k) = Index w"
    and "cons_knows (length (buf r)) (chn r) (ends s) (whist s) (wpos s)
      (load_acquire (mem s) WriteIx k (cview s)) pc"
  shows "weak_inv r (s\<lparr>cview := load_acquire (mem s) WriteIx k (cview s), cpc := pc\<rparr>)"
  using assms(1,4) read_write [OF assms(1-3)] weak_loads(5,6) [OF assms(1,2)]
  by (intro consumer_step [OF assms(1)]) (simp add: weak_defs last_index_def)

lemma c_enough_inv:
  assumes "weak_inv r s" and "ring_ok r" and "cpc s = CWrite rd out"
    and "readable (mem s) (cview s) WriteIx k" and "val (mem s WriteIx ! k) = Index w"
    and "\<not> unat (w - rd) < length out div chn r"
  shows "weak_inv r (s\<lparr>cview := load_acquire (mem s) WriteIx k (cview s), cpc := CSlots rd out 0\<rparr>)"
proof (rule c_write_inv [OF assms(1,4,5)])
  note rw = read_write [OF assms(1,4,5)]
  have pc: "rd = of_nat (wpos s)" "chn r dvd length out" using assms(1,3) by (simp_all add: weak_defs)
  then have "wpos s + length out div chn r \<le> ends s ! k" using rw(5,6) assms(6) by simp
  then have "(wpos s + length out div chn r) * chn r \<le> ends s ! k * chn r" by (rule mult_le_mono1)
  then show "cons_knows (length (buf r)) (chn r) (ends s) (whist s) (wpos s)
      (load_acquire (mem s) WriteIx k (cview s)) (CSlots rd out 0)"
    using pc rw(1) by (simp add: add_mult_distrib copied_def)
qed

lemma c_skip_write_inv:
  assumes "weak_inv r s" and "cpc s = CSkipWrite rd n"
    and "readable (mem s) (cview s) WriteIx k" and "val (mem s WriteIx ! k) = Index w"
  shows "weak_inv r (s\<lparr>cview := load_acquire (mem s) WriteIx k (cview s),
      cpc := CSkipStore (rd + min n (w - rd)) (wpos s + unat (min n (w - rd)))\<rparr>)"
proof (rule c_write_inv [OF assms(1,3,4)])
  note rw = read_write [OF assms(1,3,4)]
  have rd: "rd = of_nat (wpos s)" using assms(1,2) by (simp add: weak_defs)
  have "unat (min n (w - rd)) \<le> unat (w - rd)" by (simp add: min_def word_le_nat_alt)
  then show "cons_knows (length (buf r)) (chn r) (ends s) (whist s) (wpos s)
      (load_acquire (mem s) WriteIx k (cview s)) (CSkipStore (rd + min n (w - rd)) (wpos s + unat (min n (w - rd))))"
    using rw rd by simp
qed

text \<open>A copied sample: it is the one published there, or the view now knows of a later lap.\<close>

lemma slot_value:
  assumes "weak_inv r s" and "ring_ok r" and "l = Slot (x mod length (buf r))"
    and "readable (mem s) (cview s) l k" and "val (mem s l ! k) = Sample y"
    and "x < ends s ! current (cview s) WriteIx * chn r"
  shows "y = whist s ! x \<or> x + length (buf r) < ends s ! seen (mem s l ! k) Reserved * chn r"
proof -
  let ?N = "length (buf r)"
  have sl: "slots_ok ?N (chn r) (ends s) (whist s) (mem s) (wstored (whist s) (ppc s))"
    and "view_ok ?N (chn r) (ends s) (mem s) (current (cview s))"
    using assms(1) by (simp_all add: weak_defs thread_all_def)
  then have "x div ?N < current (cview s) (Slot (x mod ?N))" using assms(6) by (simp add: view_ok_def covers_def)
  then have lt: "x div ?N < k" using assms(3,4) by (simp add: readable_def)
  define z where "z = (k - 1) * ?N + x mod ?N"
  have z: "z mod ?N = x mod ?N" "Suc (z div ?N) = k"
    using lt ring_ok_nonempty [OF assms(2)] by (simp_all add: z_def)
  have "z < wstored (whist s) (ppc s)"
    using sl z assms(3,4) by (simp add: slots_ok_def readable_def)
  then have "val (mem s l ! k) = Sample (whist s ! z) \<and> z < ends s ! seen (mem s l ! k) Reserved * chn r"
    using sl z assms(3) unfolding slots_ok_def Let_def by metis
  then have zv: "y = whist s ! z" "z < ends s ! seen (mem s l ! k) Reserved * chn r" using assms(5) by simp_all
  show ?thesis
  proof (cases "z div ?N = x div ?N")
    case True
    then have "z = x" using z(1) by (metis div_mult_mod_eq)
    then show ?thesis using zv by simp
  next
    case False
    then have "Suc (x div ?N) \<le> z div ?N" using lt z(2) by simp
    then have "Suc (x div ?N) * ?N \<le> z div ?N * ?N" by (rule mult_le_mono1)
    then have "x + ?N \<le> z"
      using z(1) div_mult_mod_eq [of x ?N] div_mult_mod_eq [of z ?N] unfolding mult_Suc by linarith
    then show ?thesis using zv(2) by simp
  qed
qed

lemma c_slot_inv:
  assumes "weak_inv r s" and "ring_ok r" and "cpc s = CSlots rd out i" and "i < length out"
    and "l = Slot (slot r (rd * channels r) i)"
    and "readable (mem s) (cview s) l k" and "val (mem s l ! k) = Sample y"
  shows "weak_inv r (s\<lparr>cview := load_relaxed (mem s) l k (cview s), cpc := CSlots rd (out[i := y]) (Suc i)\<rparr>)"
proof (rule consumer_step [OF assms(1)])
  let ?N = "length (buf r)" and ?c = "chn r" and ?p = "wpos s" and ?t = "load_relaxed (mem s) l k (cview s)"
  let ?x = "?p * ?c + i"
  have pc: "rd = of_nat ?p" "?c dvd length out" "?p * ?c + length out \<le> ends s ! current (cview s) WriteIx * ?c"
      "copied ?N ?c (ends s) (whist s) ?p (pending (cview s)) out i"
    and e: "ends_ok ?c (ends s) (whist s)" "length (mem s Reserved) = length (ends s)"
    using assms(1,3) by (simp_all add: weak_defs index_ok_def)
  have l: "l = Slot (?x mod ?N)" using slot_mod [OF assms(2), of _ ?p i] pc(1) assms(5) by simp
  have all: "thread_all (view_ok ?N ?c (ends s) (mem s)) ?t"
    using weak_loads(4) [OF assms(1,6)] l by simp
  then have pr: "pending ?t Reserved < length (ends s)" using e(2) by (metis thread_all_def view_ok_def)
  have val: "y = whist s ! ?x \<or> ?x + ?N < ends s ! seen (mem s l ! k) Reserved * ?c"
    using pc(3) assms(4) by (intro slot_value [OF assms(1,2) l assms(6,7)]) simp
  have "ends s ! seen (mem s l ! k) Reserved * ?c \<le> ends s ! pending ?t Reserved * ?c"
    using ends_mono [OF e(1) load_pending(2) pr] by (rule mult_le_mono1)
  then have "y = whist s ! ?x \<or> ?p * ?c + ?N < ends s ! pending ?t Reserved * ?c" using val by linarith
  moreover have "copied ?N ?c (ends s) (whist s) ?p (pending ?t) out i"
    by (rule copied_mono [where v = "pending (cview s)"]) (rule pc(4) load_pending(1) pr e(1))+
  ultimately have "copied ?N ?c (ends s) (whist s) ?p (pending ?t) (out[i := y]) (Suc i)"
    using assms(4) by (auto simp: copied_def less_Suc_eq)
  then show "consumer_inv r (s\<lparr>cview := ?t, cpc := CSlots rd (out[i := y]) (Suc i)\<rparr>)"
    using assms(1,4) pc all weak_loads(3) [OF assms(1,6)] l
    by (simp add: weak_defs load_current last_index_def)
qed

lemma c_fence_inv:
  assumes "weak_inv r s" and "cpc s = CSlots rd out (length out)"
  shows "weak_inv r (s\<lparr>cview := fence_acquire (cview s), cpc := CCheck rd out\<rparr>)"
proof (rule consumer_step [OF assms(1)])
  let ?t = "fence_acquire (cview s)" and ?Q = "view_ok (length (buf r)) (chn r) (ends s) (mem s)"
  have all: "thread_all ?Q (cview s)" "ordered (cview s)" and e: "ends_ok (chn r) (ends s) (whist s)"
    and last: "last_index ReadIx (wpos s) (mem s) (cview s)" and lw: "length (mem s WriteIx) \<le> length (ends s)"
    using assms(1) by (simp_all add: weak_defs index_ok_def)
  have cur: "current ?t = pending (cview s)" by (simp add: fence_acquire_def)
  have "pending (cview s) ReadIx < length (mem s ReadIx)" "pending (cview s) WriteIx < length (mem s WriteIx)"
    using all by (simp_all add: thread_all_def view_ok_def)
  moreover have "current (cview s) ReadIx \<le> pending (cview s) ReadIx"
      "current (cview s) WriteIx \<le> pending (cview s) WriteIx"
    using all by (simp_all add: ordered_def le_fun_def)
  ultimately have "pending (cview s) ReadIx = current (cview s) ReadIx"
      "ends s ! current (cview s) WriteIx \<le> ends s ! pending (cview s) WriteIx"
    using last lw ends_mono [OF e] by (simp_all add: last_index_def)
  moreover from this(2) have "n \<le> ends s ! pending (cview s) WriteIx * chn r"
    if "n \<le> ends s ! current (cview s) WriteIx * chn r" for n
    using that by (meson le_trans mult_le_mono1)
  ultimately show "consumer_inv r (s\<lparr>cview := ?t, cpc := CCheck rd out\<rparr>)"
    using assms fence_all(1) [OF all(1)] fence_ordered(1) [OF all(2)]
    by (simp add: weak_defs cur last_index_def)
qed

lemma c_check_inv:
  assumes "weak_inv r s" and "ring_ok r" and "cpc s = CCheck rd out"
    and "readable (mem s) (cview s) Reserved k" and "val (mem s Reserved ! k) = Index e"
    and "pc = CRest \<or> pc = CStore rd out \<and> \<not> e - rd > capacity r"
  shows "weak_inv r (s\<lparr>cview := load_relaxed (mem s) Reserved k (cview s), cpc := pc\<rparr>)"
proof (rule consumer_step [OF assms(1)])
  let ?N = "length (buf r)" and ?c = "chn r" and ?p = "wpos s" and ?h = "whist s" and ?T = "length (whist s) div chn r"
  have pc: "rd = of_nat ?p" "?c dvd length out" "?p * ?c + length out \<le> ends s ! current (cview s) WriteIx * ?c"
      "copied ?N ?c (ends s) ?h ?p (current (cview s)) out (length out)"
    and ends: "ends_ok ?c (ends s) ?h" "length (mem s Reserved) = length (ends s)"
      "length (mem s WriteIx) \<le> length (ends s)" "thread_all (view_ok ?N ?c (ends s) (mem s)) (cview s)"
      "\<forall>k < length (ends s). val (mem s Reserved ! k) = Index (of_nat (ends s ! k))"
    using assms(1,3) by (simp_all add: weak_defs index_ok_def)
  have k: "current (cview s) Reserved \<le> k" "k < length (ends s)"
    using assms(4) ends(2) by (simp_all add: readable_def)
  have "current (cview s) WriteIx < length (ends s)"
    using ends(3,4) by (meson order_less_le_trans thread_all_def view_ok_def)
  then have P: "?p * ?c + length out \<le> length ?h" using ends_le_hist [OF ends(1)] pc(3) by (meson le_trans)
  have "out = segment ?c ?h ?p (length out)" if ok: "\<not> e - rd > capacity r" and lag: "?T < ?p + 2 ^ 64"
  proof -
    have ek: "e = of_nat (ends s ! k)" using ends(5) k(2) assms(5) by simp
    have eT: "ends s ! k \<le> ?T"
      using ends_le_hist [OF ends(1) k(2)] ring_ok_dims(1) [OF assms(2)] by (simp add: less_eq_div_iff_mult_less_eq)
    have "ends s ! k \<le> ?p + capn r"
    proof (cases "?p \<le> ends s ! k")
      case True
      then have "e - rd = of_nat (ends s ! k - ?p)" by (simp add: ek pc(1) of_nat_diff)
      moreover have "ends s ! k - ?p < 2 ^ 64" using lag eT True by linarith
      ultimately have "unat (e - rd) = ends s ! k - ?p"
        by (simp only: unsigned_of_nat) (simp add: take_bit_nat_eq_self)
      with ok show ?thesis by (simp add: word_less_nat_alt)
    qed simp
    then have "ends s ! k * ?c \<le> (?p + capn r) * ?c" by (rule mult_le_mono1)
    moreover have "ends s ! current (cview s) Reserved * ?c \<le> ends s ! k * ?c"
      using ends_mono [OF ends(1) k] by (rule mult_le_mono1)
    ultimately have "ends s ! current (cview s) Reserved * ?c \<le> ?p * ?c + ?N"
      unfolding add_mult_distrib ring_ok_dims(3) [OF assms(2)] by linarith
    then have "\<forall>j < length out. out ! j = ?h ! (?p * ?c + j)" using pc(4) by (auto simp: copied_def)
    then show ?thesis using P by (intro nth_equalityI) (auto simp: segment_def)
  qed
  then show "consumer_inv r (s\<lparr>cview := load_relaxed (mem s) Reserved k (cview s), cpc := pc\<rparr>)"
    using assms(1,6) pc weak_loads(3,4) [OF assms(1,4)]
    by (auto simp: weak_defs load_current last_index_def)
qed

lemma prod_knows_cong:
  "length (m WriteIx) = length (m' WriteIx) \<Longrightarrow> prod_knows c r es h m t pc = prod_knows c r es h m' t pc"
  by (cases pc) simp_all

text \<open>A store to \<open>read\<close> concerns the consumer alone.\<close>

lemma store_read_inv:
  assumes "weak_inv r s" and "store_release ReadIx (Index (of_nat q)) (cview s) (mem s) = (v, m)"
    and "wpos s \<le> q" and "q \<le> ends s ! current (cview s) WriteIx" and "deliv_ok (chn r) (whist s) q ds"
  shows "weak_inv r (s\<lparr>mem := m, cview := v, cpc := CRest, wpos := q, wdeliv := ds\<rparr>)" (is "weak_inv r ?t")
proof -
  let ?c = "chn r" and ?N = "length (buf r)" and ?es = "ends s"
  have m: "m = put ReadIx (Index (of_nat q)) (current (cview s)) (mem s)"
    and v: "v = advance ReadIx (length (mem s ReadIx)) (cview s)"
    using assms(2) by (auto simp: store_release_def)
  have inv: "memory_inv r s" "producer_inv r s" "ordered (cview s)" "mem_all (view_ok ?N ?c ?es (mem s)) (mem s)"
      "thread_all (view_ok ?N ?c ?es (mem s)) (cview s)" "thread_all (view_ok ?N ?c ?es (mem s)) (pview s)"
    and lw: "length (mem s WriteIx) \<le> length ?es"
    using assms(1) by (auto simp: weak_defs index_ok_def)
  have same: "m Reserved = mem s Reserved" "m WriteIx = mem s WriteIx" "\<And>a. m (Slot a) = mem s (Slot a)"
    by (simp_all add: m put_apply)
  note pv = put_views [OF inv(5,4) lw, of ReadIx "current (cview s)" "[]" "Index (of_nat q)", simplified, folded m v]
  have "thread_all (view_ok ?N ?c ?es m) (pview s)"
    unfolding m by (rule all_mono(1) [OF inv(6)]) (rule view_ok_put, assumption, rule lw)
  then have "producer_inv r ?t"
    using inv(2) prod_knows_cong [of m "mem s"] by (simp add: producer_inv_def same)
  moreover have "memory_inv r ?t"
    using inv(1) pv(1) put_stamped [of "mem s"] by (simp add: memory_inv_def index_ok_def slots_ok_def same m)
  moreover have "consumer_inv r ?t"
    using pv(2) assms(3-5) advance_ordered_view [OF inv(3,5), of ReadIx]
    by (simp add: consumer_inv_def last_index_def v m advance_view put_apply)
  ultimately show ?thesis by (simp add: weak_inv_def)
qed

lemma c_store_inv:
  assumes "weak_inv r s" and "ring_ok r" and "cpc s = CStore rd out"
    and "store_release ReadIx (Index (rd + of_nat (length out div chn r))) (cview s) (mem s) = (v, m)"
  shows "weak_inv r (s\<lparr>mem := m, cview := v, cpc := CRest,
      wpos := wpos s + length out div chn r, wdeliv := wdeliv s @ [(wpos s, out)]\<rparr>)"
proof -
  have pc: "rd = of_nat (wpos s)" "chn r dvd length out"
      "wpos s * chn r + length out \<le> ends s ! current (cview s) WriteIx * chn r"
      "length (whist s) div chn r < wpos s + 2 ^ 64 \<longrightarrow> out = segment (chn r) (whist s) (wpos s) (length out)"
      "deliv_ok (chn r) (whist s) (wpos s) (wdeliv s)"
    using assms(1,3) by (simp_all add: weak_defs)
  have "(wpos s + length out div chn r) * chn r \<le> ends s ! current (cview s) WriteIx * chn r"
    using pc(2,3) by (simp add: add_mult_distrib)
  then have "wpos s + length out div chn r \<le> ends s ! current (cview s) WriteIx"
    using ring_ok_dims(1) [OF assms(2)] by simp
  moreover have "deliv_ok (chn r) (whist s) (wpos s + length out div chn r) (wdeliv s @ [(wpos s, out)])"
    using pc ring_ok_dims(1) [OF assms(2)] by (intro deliv_ok_snoc)
  ultimately show ?thesis using store_read_inv [OF assms(1)] assms(4) pc(1) by simp
qed

lemma weak_skip_store_inv:
  assumes "weak_inv r s" and "cpc s = CSkipStore new q"
    and "store_release ReadIx (Index new) (cview s) (mem s) = (v, m)"
  shows "weak_inv r (s\<lparr>mem := m, cview := v, cpc := CRest, wpos := q\<rparr>)"
proof -
  have pc: "new = of_nat q" "wpos s \<le> q" "q \<le> ends s ! current (cview s) WriteIx"
      "deliv_ok (chn r) (whist s) (wpos s) (wdeliv s)"
    using assms(1,2) by (simp_all add: weak_defs)
  have "deliv_ok (chn r) (whist s) q (wdeliv s)" by (rule deliv_ok_mono [OF pc(4)]) (simp add: pc(2))
  from store_read_inv [OF assms(1) _ pc(2,3) this] assms(3) pc(1) show ?thesis by simp
qed

lemma weak_initial_inv:
  assumes "ring_repr r [] 0"
  shows "weak_inv r (weak_initial r)"
proof -
  have "buf r \<noteq> []" using assms by (simp add: ring_repr_def ring_ok_nonempty)
  then have "slots_ok (length (buf r)) (chn r) [0] [] (mem (weak_initial r)) 0"
    by (simp add: slots_ok_def weak_initial_def)
  moreover have "read_ix r = 0" "write_ix r = 0" "reserved r = 0" using assms by (simp_all add: ring_repr_def)
  ultimately show ?thesis
    by (simp add: weak_defs weak_initial_def stamped_def ends_ok_def index_ok_def mem_all_def view_ok_def
        covers_def thread_all_def fresh_view_def ordered_def last_index_def deliv_ok_def)
qed

lemma weak_step_inv:
  "weak_step fence_acquire fence_release r s t \<Longrightarrow> ring_ok r \<Longrightarrow> weak_inv r s \<Longrightarrow> weak_inv r t"
proof (induction rule: weak_step.induct)
  case (p_load s bs b f k w)
  then show ?case by (intro p_load_inv)
next
  case (p_reserve s w e ss v m)
  then show ?case by (intro weak_reserve_inv)
next
  case (p_fence s w e ss)
  then show ?case by (intro p_fence_inv)
next
  case (p_slot s base e ss i v m)
  then show ?case by (intro p_slot_inv)
next
  case (p_publish s base e ss v m)
  then show ?case by (intro weak_publish_inv)
next
  case (c_load s out k rd)
  then show ?case by (intro c_own_inv) auto
next
  case (c_few s rd out k w)
  then show ?case by (intro c_write_inv) auto
next
  case (c_enough s rd out k w)
  then show ?case by (intro c_enough_inv)
next
  case (c_slot s rd out i l k x)
  then show ?case by (intro c_slot_inv)
next
  case (c_fence s rd out)
  then show ?case by (intro c_fence_inv)
next
  case (c_lapped s rd out k e)
  then show ?case by (intro c_check_inv [where rd = rd and out = out]) auto
next
  case (c_valid s rd out k e)
  then show ?case by (intro c_check_inv [where rd = rd and out = out]) auto
next
  case (c_store s rd out v m)
  then show ?case by (intro c_store_inv)
next
  case (c_skip s k rd n)
  then show ?case by (intro c_own_inv) auto
next
  case (c_skip_write s rd n k w)
  then show ?case by (intro c_skip_write_inv)
next
  case (c_skip_store s new q v m)
  then show ?case by (intro weak_skip_store_inv)
qed

lemma weak_reachable_inv:
  "weak_reachable fence_acquire fence_release r s \<Longrightarrow> ring_repr r [] 0 \<Longrightarrow> weak_inv r s"
  by (induction rule: weak_reachable.induct) (auto intro: weak_initial_inv weak_step_inv simp: ring_repr_def)

end
