(* ===== verification/Ring_Weak_Runs.thy ===== *)
theory Ring_Weak_Runs
  imports Ring_Weak
begin

text \<open>
  Runs of \<open>Ring_Weak\<close>: schedules, which make the step relation executable; the sequentially
  consistent runs of \<open>Ring_Concurrent\<close> among them; what the ring guarantees on the weak memory;
  and a check of the memory model, which tells the source's fences from missing ones.
\<close>

section \<open>Scheduled runs\<close>

text \<open>
  A schedule says which thread goes next, what it is called with when it is at rest, and which store
  a load returns. \<open>None\<close>: the step is not possible.
\<close>

datatype turn = Produce bytes nat | Consume "i16 list" nat

fun produce ::
  "(place thread_view \<Rightarrow> place thread_view) \<Rightarrow> audio_ring \<Rightarrow> bytes \<Rightarrow> nat \<Rightarrow> prod_at \<Rightarrow> weak \<Rightarrow> weak option" where
  "produce rel r bs k PRest s =
     (case val (mem s WriteIx ! k) of
        Index w \<Rightarrow>
          if length bs div (chn r * 2) \<noteq> 0 \<and> readable (mem s) (pview s) WriteIx k then
            case kept_chunk r bs of (b, f) \<Rightarrow>
              Some (s\<lparr>pview := load_relaxed (mem s) WriteIx k (pview s),
                ppc := PReserve w (w + of_nat f) (s16le_samples (take (f * (chn r * 2)) b))\<rparr>)
          else None
      | Sample x \<Rightarrow> None)"
| "produce rel r bs k (PReserve w e ss) s =
     (case store_relaxed Reserved (Index e) (pview s) (mem s) of (v, m) \<Rightarrow>
        Some (s\<lparr>mem := m, pview := v, ppc := PFence w e ss,
          whist := whist s @ ss, ends := ends s @ [length (whist s @ ss) div chn r]\<rparr>))"
| "produce rel r bs k (PFence w e ss) s =
     Some (s\<lparr>pview := rel (pview s), ppc := PSlots (w * channels r) e ss 0\<rparr>)"
| "produce rel r bs k (PSlots base e ss i) s =
     (if i < length ss then
        case store_relaxed (Slot (slot r base i)) (Sample (ss ! i)) (pview s) (mem s) of (v, m) \<Rightarrow>
          Some (s\<lparr>mem := m, pview := v, ppc := PSlots base e ss (Suc i)\<rparr>)
      else if i = length ss then
        case store_release WriteIx (Index e) (pview s) (mem s) of (v, m) \<Rightarrow>
          Some (s\<lparr>mem := m, pview := v, ppc := PRest\<rparr>)
      else None)"

fun consume ::
  "(place thread_view \<Rightarrow> place thread_view) \<Rightarrow> audio_ring \<Rightarrow> i16 list \<Rightarrow> nat \<Rightarrow> cons_at \<Rightarrow> weak \<Rightarrow> weak option" where
  "consume acq r out k CRest s =
     (case val (mem s ReadIx ! k) of
        Index rd \<Rightarrow>
          if length out mod chn r = 0 \<and> length out div chn r \<noteq> 0 \<and> readable (mem s) (cview s) ReadIx k
          then Some (s\<lparr>cview := load_relaxed (mem s) ReadIx k (cview s), cpc := CWrite rd out\<rparr>)
          else None
      | Sample x \<Rightarrow> None)"
| "consume acq r _ k (CWrite rd out) s =
     (case val (mem s WriteIx ! k) of
        Index w \<Rightarrow>
          if readable (mem s) (cview s) WriteIx k then
            Some (s\<lparr>cview := load_acquire (mem s) WriteIx k (cview s),
              cpc := (if unat (w - rd) < length out div chn r then CRest else CSlots rd out 0)\<rparr>)
          else None
      | Sample x \<Rightarrow> None)"
| "consume acq r _ k (CSlots rd out i) s =
     (if i = length out then Some (s\<lparr>cview := acq (cview s), cpc := CCheck rd out\<rparr>)
      else let l = Slot (slot r (rd * channels r) i) in
        case val (mem s l ! k) of
          Sample x \<Rightarrow>
            if i < length out \<and> readable (mem s) (cview s) l k then
              Some (s\<lparr>cview := load_relaxed (mem s) l k (cview s), cpc := CSlots rd (out[i := x]) (Suc i)\<rparr>)
            else None
        | Index w \<Rightarrow> None)"
| "consume acq r _ k (CCheck rd out) s =
     (case val (mem s Reserved ! k) of
        Index e \<Rightarrow>
          if readable (mem s) (cview s) Reserved k then
            Some (s\<lparr>cview := load_relaxed (mem s) Reserved k (cview s),
              cpc := (if e - rd > capacity r then CRest else CStore rd out)\<rparr>)
          else None
      | Sample x \<Rightarrow> None)"
| "consume acq r _ k (CStore rd out) s =
     (case store_release ReadIx (Index (rd + of_nat (length out div chn r))) (cview s) (mem s) of (v, m) \<Rightarrow>
        Some (s\<lparr>mem := m, cview := v, cpc := CRest,
          wpos := wpos s + length out div chn r, wdeliv := wdeliv s @ [(wpos s, out)]\<rparr>))"
| "consume acq r _ k (CSkipWrite rd n) s = None"
| "consume acq r _ k (CSkipStore new q) s = None"

fun run_turns ::
  "(place thread_view \<Rightarrow> place thread_view) \<Rightarrow> (place thread_view \<Rightarrow> place thread_view) \<Rightarrow>
    audio_ring \<Rightarrow> turn list \<Rightarrow> weak \<Rightarrow> weak option" where
  "run_turns acq rel r [] s = Some s"
| "run_turns acq rel r (Produce bs k # ts) s =
     (case produce rel r bs k (ppc s) s of None \<Rightarrow> None | Some s' \<Rightarrow> run_turns acq rel r ts s')"
| "run_turns acq rel r (Consume out k # ts) s =
     (case consume acq r out k (cpc s) s of None \<Rightarrow> None | Some s' \<Rightarrow> run_turns acq rel r ts s')"

lemma produce_step: "produce rel r bs k (ppc s) s = Some t \<Longrightarrow> weak_step acq rel r s t"
  by (cases "ppc s")
    (auto intro: weak_step.intros simp del: length_append split: cell.splits if_splits prod.splits)

lemma consume_step: "consume acq r out k (cpc s) s = Some t \<Longrightarrow> weak_step acq rel r s t"
  by (cases "cpc s")
    (auto intro: weak_step.intros simp: Let_def dvd_eq_mod_eq_0 split: cell.splits if_splits prod.splits)

lemma run_turns_reachable:
  "run_turns acq rel r ts s = Some t \<Longrightarrow> weak_reachable acq rel r s \<Longrightarrow> weak_reachable acq rel r t"
  by (induction acq rel r ts s rule: run_turns.induct)
    (auto split: option.splits intro: weak_reachable.step produce_step consume_step)

section \<open>Sequentially consistent runs are weak runs\<close>

text \<open>A weak run that always loads the latest store is a run of \<open>Ring_Concurrent\<close>.\<close>

definition latest :: "(place, cell) memory \<Rightarrow> place \<Rightarrow> cell" where
  "latest m l = val (last (m l))"

fun same_prod :: "prod_pc \<Rightarrow> prod_at \<Rightarrow> bool" where
  "same_prod PIdle pc \<longleftrightarrow> pc = PRest"
| "same_prod (PStore base e ss i) pc \<longleftrightarrow> pc = PSlots base e ss i"

fun same_cons :: "cons_pc \<Rightarrow> cons_at \<Rightarrow> bool" where
  "same_cons CIdle pc \<longleftrightarrow> pc = CRest"
| "same_cons (CCopy rd out i) pc \<longleftrightarrow> pc = CSlots rd out i"
| "same_cons (CCommit rd out) pc \<longleftrightarrow> pc = CStore rd out"
| "same_cons (CSkip new q) pc \<longleftrightarrow> pc = CSkipStore new q"

definition same_ring :: "audio_ring \<Rightarrow> audio_ring \<Rightarrow> (place, cell) memory \<Rightarrow> bool" where
  "same_ring r q m \<longleftrightarrow> capacity q = capacity r \<and> channels q = channels r \<and> sample_mask q = sample_mask r \<and>
     length (buf q) = length (buf r) \<and> latest m Reserved = Index (reserved q) \<and>
     latest m WriteIx = Index (write_ix q) \<and> latest m ReadIx = Index (read_ix q) \<and>
     (\<forall>a < length (buf r). latest m (Slot a) = Sample (buf q ! a))"

definition sc_matches :: "audio_ring \<Rightarrow> conc \<Rightarrow> weak \<Rightarrow> bool" where
  "sc_matches r s t \<longleftrightarrow> same_ring r (ring s) (mem t) \<and> same_prod (prod s) (ppc t) \<and>
     same_cons (cons s) (cpc t) \<and> whist t = hist s \<and> wpos t = pos s \<and> wdeliv t = delivered s"

lemma latest_put [simp]: "latest (put l x v m) l' = (if l' = l then x else latest m l')"
  by (simp add: latest_def put_apply)

text \<open>The latest store can always be loaded.\<close>

lemma latest_readable:
  fixes l
  assumes "thread_all (view_ok N c es m) t"
  defines "k \<equiv> length (m l) - 1"
  shows "readable m t l k" and "val (m l ! k) = latest m l"
proof -
  have lt: "current t l < length (m l)" using assms(1) by (simp add: thread_all_def view_ok_def)
  then show "readable m t l k" unfolding readable_def k_def by linarith
  have "m l \<noteq> []" using lt by auto
  then show "val (m l ! k) = latest m l" by (simp add: latest_def k_def last_conv_nth)
qed

lemma slot_lt:
  assumes "ring_ok r"
  shows "slot r base i < length (buf r)"
proof -
  obtain c k where ck: "c + k < 64" "sample_mask r = 2 ^ (c + k) - 1" "length (buf r) = 2 ^ (c + k)"
    using assms by (auto simp: ring_ok_def)
  then have "slot r base i = take_bit (c + k) (unat (base + of_nat i))"
    unfolding slot_def mask_eq_exp_minus_1 [symmetric] by (simp only: take_bit_eq_mask [symmetric] unsigned_take_bit_eq)
  then show ?thesis using ck by simp
qed

lemma same_params:
  "same_ring r q m \<Longrightarrow> kept_chunk q = kept_chunk r" "same_ring r q m \<Longrightarrow> slot q = slot r"
  "same_ring r q m \<Longrightarrow> channels q = channels r" "same_ring r q m \<Longrightarrow> capacity q = capacity r"
  by (auto simp: same_ring_def kept_chunk_def [abs_def] Let_def slot_def [abs_def] fun_eq_iff)

abbreviation code_reachable :: "audio_ring \<Rightarrow> weak \<Rightarrow> bool" where
  "code_reachable \<equiv> weak_reachable fence_acquire fence_release"

abbreviation code_step :: "audio_ring \<Rightarrow> weak \<Rightarrow> weak \<Rightarrow> bool" where
  "code_step \<equiv> weak_step fence_acquire fence_release"

lemma code_reachable_views:
  assumes "code_reachable r t" and "ring_repr r [] 0"
  shows "readable (mem t) (pview t) l (length (mem t l) - 1)"
    and "readable (mem t) (cview t) l (length (mem t l) - 1)"
    and "val (mem t l ! (length (mem t l) - 1)) = latest (mem t) l"
proof -
  have "weak_inv r t" by (rule weak_reachable_inv [OF assms])
  then have "thread_all (view_ok (length (buf r)) (chn r) (ends t) (mem t)) (pview t)"
    "thread_all (view_ok (length (buf r)) (chn r) (ends t) (mem t)) (cview t)"
    by (simp_all add: weak_defs)
  then show "readable (mem t) (pview t) l (length (mem t l) - 1)"
    "readable (mem t) (cview t) l (length (mem t l) - 1)"
    "val (mem t l ! (length (mem t l) - 1)) = latest (mem t) l"
    using latest_readable by blast+
qed

lemma initial_matches:
  assumes "ring_repr r [] 0"
  shows "sc_matches r (initial r) (weak_initial r)"
  by (simp add: sc_matches_def same_ring_def initial_def weak_initial_def latest_def)

text \<open>The accesses of a \<open>ring_step\<close>, each on the latest store.\<close>

lemma reserve_matches:
  assumes "code_reachable r t" and "ring_repr r [] 0" and "sc_matches r s t" and "prod s = PIdle"
    and "length bs div (cch s * 2) \<noteq> 0" and "kept_chunk (ring s) bs = (b, f)"
    and "ss = s16le_samples (take (f * (cch s * 2)) b)" and "e = write_ix (ring s) + of_nat f"
  shows "\<exists>t'. code_reachable r t' \<and> sc_matches r (s\<lparr>ring := (ring s)\<lparr>reserved := e\<rparr>,
      prod := PStore (write_ix (ring s) * channels (ring s)) e ss 0, hist := hist s @ ss\<rparr>) t'"
proof -
  note views = code_reachable_views [OF assms(1,2), of WriteIx]
  have sr: "same_ring r (ring s) (mem t)" and idle: "ppc t = PRest" using assms(3,4) by (simp_all add: sc_matches_def)
  then have w: "val (mem t WriteIx ! (length (mem t WriteIx) - 1)) = Index (write_ix (ring s))"
    using views(3) by (simp add: same_ring_def)
  note sp = same_params [OF sr]
  let ?w = "write_ix (ring s)"
  define t1 where "t1 = t\<lparr>pview := load_relaxed (mem t) WriteIx (length (mem t WriteIx) - 1) (pview t),
      ppc := PReserve ?w (?w + of_nat f) (s16le_samples (take (f * (chn r * 2)) b))\<rparr>"
  have "code_step r t t1" unfolding t1_def
    using assms(5,6) sp by (intro weak_step.p_load idle views(1) w) simp_all
  moreover obtain v m where vm: "store_relaxed Reserved (Index e) (pview t1) (mem t1) = (v, m)" by fastforce
  define t2 where "t2 = t1\<lparr>mem := m, pview := v, ppc := PFence ?w e ss, whist := whist t1 @ ss,
      ends := ends t1 @ [length (whist t1 @ ss) div chn r]\<rparr>"
  have pc1: "ppc t1 = PReserve ?w e ss" using assms(7,8) sp by (simp add: t1_def)
  have "code_step r t1 t2" unfolding t2_def by (rule weak_step.p_reserve [OF pc1 vm])
  moreover define t3 where "t3 = t2\<lparr>pview := fence_release (pview t2), ppc := PSlots (?w * channels r) e ss 0\<rparr>"
  have "code_step r t2 t3" unfolding t3_def by (rule weak_step.p_fence) (simp add: t2_def)
  ultimately have "code_reachable r t3" using assms(1) by (blast intro: weak_reachable.step)
  moreover have "m = put Reserved (Index e) (released (pview t1)) (mem t)"
    using vm by (simp add: store_relaxed_def t1_def)
  then have "sc_matches r (s\<lparr>ring := (ring s)\<lparr>reserved := e\<rparr>,
      prod := PStore (?w * channels (ring s)) e ss 0, hist := hist s @ ss\<rparr>) t3"
    using assms(3) sp sr by (simp add: sc_matches_def same_ring_def t3_def t2_def t1_def)
  ultimately show ?thesis by blast
qed

lemma begin_matches:
  assumes "code_reachable r t" and "ring_repr r [] 0" and "sc_matches r s t" and "cons s = CIdle"
    and "cch s dvd length out" and "length out div cch s \<noteq> 0"
    and "\<not> unat (write_ix (ring s) - read_ix (ring s)) < length out div cch s"
  shows "\<exists>t'. code_reachable r t' \<and> sc_matches r (s\<lparr>cons := CCopy (read_ix (ring s)) out 0\<rparr>) t'"
proof -
  have sr: "same_ring r (ring s) (mem t)" and idle: "cpc t = CRest" using assms(3,4) by (simp_all add: sc_matches_def)
  note views = code_reachable_views [OF assms(1,2)] and sp = same_params [OF sr]
  define t1 where "t1 = t\<lparr>cview := load_relaxed (mem t) ReadIx (length (mem t ReadIx) - 1) (cview t),
      cpc := CWrite (read_ix (ring s)) out\<rparr>"
  have rd: "val (mem t ReadIx ! (length (mem t ReadIx) - 1)) = Index (read_ix (ring s))"
    using views(3) sr by (simp add: same_ring_def)
  have "code_step r t t1" unfolding t1_def using assms(5,6) sp
    by (intro weak_step.c_load idle views(2) rd) simp_all
  then have r1: "code_reachable r t1" using assms(1) by (blast intro: weak_reachable.step)
  note views1 = code_reachable_views [OF r1 assms(2)]
  have m1: "mem t1 = mem t" "cpc t1 = CWrite (read_ix (ring s)) out" by (simp_all add: t1_def)
  have w: "val (mem t1 WriteIx ! (length (mem t1 WriteIx) - 1)) = Index (write_ix (ring s))"
    using views1(3) sr m1(1) by (simp add: same_ring_def)
  have "code_step r t1 (t1\<lparr>cview := load_acquire (mem t1) WriteIx (length (mem t1 WriteIx) - 1) (cview t1),
      cpc := CSlots (read_ix (ring s)) out 0\<rparr>)" (is "code_step r t1 ?t2")
    using assms(7) sp by (intro weak_step.c_enough [OF m1(2) views1(2) w]) simp
  then have "code_reachable r ?t2" using r1 by (blast intro: weak_reachable.step)
  moreover have "sc_matches r (s\<lparr>cons := CCopy (read_ix (ring s)) out 0\<rparr>) ?t2"
    using assms(3) by (simp add: sc_matches_def t1_def)
  ultimately show ?thesis by blast
qed

lemma store_matches:
  assumes "code_reachable r t" and "sc_matches r s t" and "prod s = PStore base e ss i" and "i < length ss"
  shows "\<exists>t'. code_reachable r t' \<and>
    sc_matches r (s\<lparr>ring := (ring s)\<lparr>buf := (buf (ring s))[slot (ring s) base i := ss ! i]\<rparr>,
      prod := PStore base e ss (Suc i)\<rparr>) t'"
proof -
  have sr: "same_ring r (ring s) (mem t)" and pc: "ppc t = PSlots base e ss i"
    using assms(2,3) by (simp_all add: sc_matches_def)
  obtain v m where vm: "store_relaxed (Slot (slot r base i)) (Sample (ss ! i)) (pview t) (mem t) = (v, m)" by fastforce
  have "code_step r t (t\<lparr>mem := m, pview := v, ppc := PSlots base e ss (Suc i)\<rparr>)" (is "code_step r t ?t")
    by (rule weak_step.p_slot [OF pc assms(4) vm])
  then have "code_reachable r ?t" using assms(1) by (blast intro: weak_reachable.step)
  moreover have "m = put (Slot (slot r base i)) (Sample (ss ! i)) (released (pview t)) (mem t)"
    using vm by (simp add: store_relaxed_def)
  then have "sc_matches r (s\<lparr>ring := (ring s)\<lparr>buf := (buf (ring s))[slot (ring s) base i := ss ! i]\<rparr>,
      prod := PStore base e ss (Suc i)\<rparr>) ?t"
    using assms(2) sr same_params(2) [OF sr] by (auto simp: sc_matches_def same_ring_def nth_list_update)
  ultimately show ?thesis by blast
qed

lemma publish_matches:
  assumes "code_reachable r t" and "sc_matches r s t" and "prod s = PStore base e ss (length ss)"
  shows "\<exists>t'. code_reachable r t' \<and> sc_matches r (s\<lparr>ring := (ring s)\<lparr>write_ix := e\<rparr>, prod := PIdle\<rparr>) t'"
proof -
  have pc: "ppc t = PSlots base e ss (length ss)" using assms(2,3) by (simp add: sc_matches_def)
  obtain v m where vm: "store_release WriteIx (Index e) (pview t) (mem t) = (v, m)" by fastforce
  have "code_step r t (t\<lparr>mem := m, pview := v, ppc := PRest\<rparr>)" (is "code_step r t ?t")
    by (rule weak_step.p_publish [OF pc vm])
  then have "code_reachable r ?t" using assms(1) by (blast intro: weak_reachable.step)
  moreover have "m = put WriteIx (Index e) (current (pview t)) (mem t)" using vm by (simp add: store_release_def)
  then have "sc_matches r (s\<lparr>ring := (ring s)\<lparr>write_ix := e\<rparr>, prod := PIdle\<rparr>) ?t"
    using assms(2) by (simp add: sc_matches_def same_ring_def)
  ultimately show ?thesis by blast
qed

lemma load_matches:
  assumes "code_reachable r t" and "ring_repr r [] 0" and "sc_matches r s t" and "cons s = CCopy rd out i"
    and "i < length out"
  shows "\<exists>t'. code_reachable r t' \<and> sc_matches r (s\<lparr>cons :=
      CCopy rd (out[i := buf (ring s) ! slot (ring s) (rd * channels (ring s)) i]) (Suc i)\<rparr>) t'"
proof -
  have sr: "same_ring r (ring s) (mem t)" and pc: "cpc t = CSlots rd out i"
    using assms(3,4) by (simp_all add: sc_matches_def)
  let ?a = "slot r (rd * channels r) i"
  have "?a < length (buf r)" by (rule slot_lt) (use assms(2) in \<open>simp add: ring_repr_def\<close>)
  then have v: "val (mem t (Slot ?a) ! (length (mem t (Slot ?a)) - 1)) = Sample (buf (ring s) ! ?a)"
    using code_reachable_views(3) [OF assms(1,2)] sr by (simp add: same_ring_def)
  have "code_step r t (t\<lparr>cview := load_relaxed (mem t) (Slot ?a) (length (mem t (Slot ?a)) - 1) (cview t),
      cpc := CSlots rd (out[i := buf (ring s) ! ?a]) (Suc i)\<rparr>)" (is "code_step r t ?t")
    by (rule weak_step.c_slot [OF pc assms(5) refl code_reachable_views(2) [OF assms(1,2)] v])
  then have "code_reachable r ?t" using assms(1) by (blast intro: weak_reachable.step)
  then show ?thesis using assms(3) same_params [OF sr] by (auto simp: sc_matches_def)
qed

text \<open>The fence and the check of \<open>reserved\<close>.\<close>

lemma check_matches:
  assumes "code_reachable r t" and "ring_repr r [] 0" and "sc_matches r s t"
    and "cons s = CCopy rd out (length out)"
    and "pc = (if reserved (ring s) - rd > capacity (ring s) then CIdle else CCommit rd out)"
  shows "\<exists>t'. code_reachable r t' \<and> sc_matches r (s\<lparr>cons := pc\<rparr>) t'"
proof -
  have sr: "same_ring r (ring s) (mem t)" and at: "cpc t = CSlots rd out (length out)"
    using assms(3,4) by (simp_all add: sc_matches_def)
  define t1 where "t1 = t\<lparr>cview := fence_acquire (cview t), cpc := CCheck rd out\<rparr>"
  have "code_step r t t1" unfolding t1_def by (rule weak_step.c_fence [OF at])
  then have r1: "code_reachable r t1" using assms(1) by (blast intro: weak_reachable.step)
  note views = code_reachable_views [OF r1 assms(2)]
  let ?k = "length (mem t1 Reserved) - 1"
  have e: "val (mem t1 Reserved ! ?k) = Index (reserved (ring s))" and at1: "cpc t1 = CCheck rd out"
    using views(3) sr by (simp_all add: same_ring_def t1_def)
  have "code_step r t1 (t1\<lparr>cview := load_relaxed (mem t1) Reserved ?k (cview t1),
      cpc := (if reserved (ring s) - rd > capacity r then CRest else CStore rd out)\<rparr>)" (is "code_step r t1 ?t")
    using weak_step.c_lapped [OF at1 views(2) e] weak_step.c_valid [OF at1 views(2) e] by simp
  then have "code_reachable r ?t" using r1 by (blast intro: weak_reachable.step)
  moreover have "sc_matches r (s\<lparr>cons := pc\<rparr>) ?t"
    using assms(3,5) same_params [OF sr] by (simp add: sc_matches_def t1_def)
  ultimately show ?thesis by blast
qed

lemma commit_matches:
  assumes "code_reachable r t" and "sc_matches r s t" and "cons s = CCommit rd out"
  shows "\<exists>t'. code_reachable r t' \<and> sc_matches r (s\<lparr>ring := (ring s)\<lparr>read_ix := rd + of_nat (length out div cch s)\<rparr>,
      cons := CIdle, pos := pos s + length out div cch s, delivered := delivered s @ [(pos s, out)]\<rparr>) t'"
proof -
  have sr: "same_ring r (ring s) (mem t)" and at: "cpc t = CStore rd out"
    using assms(2,3) by (simp_all add: sc_matches_def)
  obtain v m where vm: "store_release ReadIx (Index (rd + of_nat (length out div chn r))) (cview t) (mem t) = (v, m)"
    by fastforce
  have "code_step r t (t\<lparr>mem := m, cview := v, cpc := CRest, wpos := wpos t + length out div chn r,
      wdeliv := wdeliv t @ [(wpos t, out)]\<rparr>)" (is "code_step r t ?t")
    by (rule weak_step.c_store [OF at vm])
  then have "code_reachable r ?t" using assms(1) by (blast intro: weak_reachable.step)
  moreover have "m = put ReadIx (Index (rd + of_nat (length out div chn r))) (current (cview t)) (mem t)"
    using vm by (simp add: store_release_def)
  then have "sc_matches r (s\<lparr>ring := (ring s)\<lparr>read_ix := rd + of_nat (length out div cch s)\<rparr>,
      cons := CIdle, pos := pos s + length out div cch s, delivered := delivered s @ [(pos s, out)]\<rparr>) ?t"
    using assms(2) same_params [OF sr] by (simp add: sc_matches_def same_ring_def)
  ultimately show ?thesis by blast
qed

lemma skip_matches:
  assumes "code_reachable r t" and "ring_repr r [] 0" and "sc_matches r s t" and "cons s = CIdle"
    and "k = min n (write_ix (ring s) - read_ix (ring s))"
  shows "\<exists>t'. code_reachable r t' \<and> sc_matches r (s\<lparr>cons := CSkip (read_ix (ring s) + k) (pos s + unat k)\<rparr>) t'"
proof -
  have sr: "same_ring r (ring s) (mem t)" and idle: "cpc t = CRest" and pos: "wpos t = pos s"
    using assms(3,4) by (simp_all add: sc_matches_def)
  note views = code_reachable_views [OF assms(1,2)]
  let ?rd = "read_ix (ring s)"
  define t1 where "t1 = t\<lparr>cview := load_relaxed (mem t) ReadIx (length (mem t ReadIx) - 1) (cview t),
      cpc := CSkipWrite ?rd n\<rparr>"
  have rd: "val (mem t ReadIx ! (length (mem t ReadIx) - 1)) = Index ?rd"
    using views(3) sr by (simp add: same_ring_def)
  have "code_step r t t1" unfolding t1_def by (intro weak_step.c_skip idle views(2) rd)
  then have r1: "code_reachable r t1" using assms(1) by (blast intro: weak_reachable.step)
  note views1 = code_reachable_views [OF r1 assms(2)]
  have m1: "mem t1 = mem t" "cpc t1 = CSkipWrite ?rd n" by (simp_all add: t1_def)
  have w: "val (mem t1 WriteIx ! (length (mem t1 WriteIx) - 1)) = Index (write_ix (ring s))"
    using views1(3) sr m1(1) by (simp add: same_ring_def)
  note step = weak_step.c_skip_write [OF m1(2) views1(2) w, of fence_acquire fence_release r]
  have "code_reachable r (t1\<lparr>cview := load_acquire (mem t1) WriteIx (length (mem t1 WriteIx) - 1) (cview t1),
      cpc := CSkipStore (?rd + k) (wpos t1 + unat k)\<rparr>)" (is "code_reachable r ?t")
    unfolding assms(5) by (rule weak_reachable.step [OF r1 step])
  moreover have "sc_matches r (s\<lparr>cons := CSkip (?rd + k) (pos s + unat k)\<rparr>) ?t"
    using assms(3) pos by (simp add: sc_matches_def t1_def)
  ultimately show ?thesis by blast
qed

lemma skip_store_matches:
  assumes "code_reachable r t" and "sc_matches r s t" and "cons s = CSkip new q"
  shows "\<exists>t'. code_reachable r t' \<and>
    sc_matches r (s\<lparr>ring := (ring s)\<lparr>read_ix := new\<rparr>, cons := CIdle, pos := q\<rparr>) t'"
proof -
  have at: "cpc t = CSkipStore new q" using assms(2,3) by (simp add: sc_matches_def)
  obtain v m where vm: "store_release ReadIx (Index new) (cview t) (mem t) = (v, m)" by fastforce
  have "code_step r t (t\<lparr>mem := m, cview := v, cpc := CRest, wpos := q\<rparr>)" (is "code_step r t ?t")
    by (rule weak_step.c_skip_store [OF at vm])
  then have "code_reachable r ?t" using assms(1) by (blast intro: weak_reachable.step)
  moreover have "m = put ReadIx (Index new) (current (cview t)) (mem t)" using vm by (simp add: store_release_def)
  then have "sc_matches r (s\<lparr>ring := (ring s)\<lparr>read_ix := new\<rparr>, cons := CIdle, pos := q\<rparr>) ?t"
    using assms(2) by (simp add: sc_matches_def same_ring_def)
  ultimately show ?thesis by blast
qed

lemma step_matches:
  "ring_step s s' \<Longrightarrow> code_reachable r t \<Longrightarrow> ring_repr r [] 0 \<Longrightarrow> sc_matches r s t \<Longrightarrow>
    \<exists>t'. code_reachable r t' \<and> sc_matches r s' t'"
proof (induction rule: ring_step.induct)
  case (p_reserve s bs b f ss e)
  then show ?case by (intro reserve_matches)
next
  case (p_store s base e ss i)
  then show ?case by (intro store_matches)
next
  case (p_publish s base e ss)
  then show ?case by (intro publish_matches)
next
  case (p_close s)
  then show ?case by (auto simp: sc_matches_def same_ring_def close_def)
next
  case (c_begin s out)
  then show ?case by (intro begin_matches)
next
  case (c_load s rd out i)
  then show ?case by (intro load_matches)
next
  case (c_overrun s rd out)
  then show ?case by (intro check_matches [where rd = rd and out = out]) simp_all
next
  case (c_validate s rd out)
  then show ?case by (intro check_matches [where rd = rd and out = out]) simp_all
next
  case (c_commit s rd out)
  then show ?case by (intro commit_matches)
next
  case (c_skip_load s k n)
  then show ?case by (intro skip_matches)
next
  case (c_skip_store s new q)
  then show ?case by (intro skip_store_matches)
qed

lemma reachable_matches:
  "reachable r s \<Longrightarrow> ring_repr r [] 0 \<Longrightarrow> \<exists>t. code_reachable r t \<and> sc_matches r s t"
proof (induction rule: reachable.induct)
  case init
  then show ?case using initial_matches weak_reachable.init by blast
next
  case (step s s')
  then show ?case using step_matches by blast
qed

section \<open>Typed memory and progress\<close>

text \<open>The indices only ever hold indices, the slots only samples.\<close>

fun cell_of :: "place \<Rightarrow> cell \<Rightarrow> bool" where
  "cell_of (Slot a) v \<longleftrightarrow> (\<exists>x. v = Sample x)"
| "cell_of l v \<longleftrightarrow> (\<exists>w. v = Index w)"

definition typed :: "(place, cell) memory \<Rightarrow> bool" where
  "typed m \<longleftrightarrow> (\<forall>l. \<forall>y \<in> set (m l). cell_of l (val y))"

lemma typed_put: "typed m \<Longrightarrow> cell_of l x \<Longrightarrow> typed (put l x v m)"
  by (auto simp: typed_def put_apply)

lemma typed_step: "weak_step acq rel r s t \<Longrightarrow> typed (mem s) \<Longrightarrow> typed (mem t)"
  by (induction rule: weak_step.induct) (auto simp: store_relaxed_def store_release_def intro!: typed_put)

lemma typed_first: "cell_of l (first_value r l)"
  by (cases l) simp_all

lemma typed_reachable: "weak_reachable acq rel r s \<Longrightarrow> typed (mem s)"
proof (induction rule: weak_reachable.induct)
  case init
  show ?case by (simp add: weak_initial_def typed_def typed_first)
qed (rule typed_step)

text \<open>The steps a thread has left until it is at rest.\<close>

fun prod_left :: "prod_at \<Rightarrow> nat" where
  "prod_left PRest = 0"
| "prod_left (PReserve w e ss) = length ss + 3"
| "prod_left (PFence w e ss) = length ss + 2"
| "prod_left (PSlots base e ss i) = Suc (length ss - i)"

fun cons_left :: "cons_at \<Rightarrow> nat" where
  "cons_left CRest = 0"
| "cons_left (CWrite rd out) = length out + 4"
| "cons_left (CSlots rd out i) = length out - i + 3"
| "cons_left (CCheck rd out) = 2"
| "cons_left (CStore rd out) = 1"
| "cons_left (CSkipWrite rd n) = 2"
| "cons_left (CSkipStore new q) = 1"

lemma step_left:
  "weak_step acq rel r s t \<Longrightarrow>
    (ppc t = ppc s \<or> ppc s = PRest \<or> Suc (prod_left (ppc t)) = prod_left (ppc s)) \<and>
    (cpc t = cpc s \<or> cpc s = CRest \<or> cons_left (cpc t) < cons_left (cpc s))"
  by (induction rule: weak_step.induct) auto

lemma latest_typed:
  assumes "code_reachable r s" and "ring_repr r [] 0"
  shows "cell_of l (val (mem s l ! (length (mem s l) - 1)))"
proof -
  have "length (mem s l) - 1 < length (mem s l)"
    using code_reachable_views(1) [OF assms, of l] by (simp add: readable_def)
  then show ?thesis using typed_reachable [OF assms(1)] by (simp add: typed_def)
qed

lemma producer_steps:
  assumes "code_reachable r s" and "ring_repr r [] 0"
  shows "\<exists>t. code_step r s t \<and> ppc t \<noteq> ppc s"
proof (cases "ppc s")
  case PRest
  obtain w where w: "val (mem s WriteIx ! (length (mem s WriteIx) - 1)) = Index w"
    using latest_typed [OF assms, of WriteIx] by auto
  let ?bs = "replicate (chn r * 2) 0"
  have "0 < chn r" using assms(2) by (simp add: ring_repr_def ring_ok_dims)
  then have bs: "length ?bs div (chn r * 2) \<noteq> 0" by simp
  obtain b f where kc: "kept_chunk r ?bs = (b, f)" by fastforce
  from weak_step.p_load [OF PRest bs kc code_reachable_views(1) [OF assms] w] show ?thesis
    using PRest by fastforce
next
  case (PReserve w e ss)
  obtain v m where "store_relaxed Reserved (Index e) (pview s) (mem s) = (v, m)" by fastforce
  from weak_step.p_reserve [OF PReserve this] show ?thesis using PReserve by fastforce
next
  case (PFence w e ss)
  from weak_step.p_fence [OF PFence] show ?thesis using PFence by fastforce
next
  case (PSlots base e ss i)
  have "weak_inv r s" by (rule weak_reachable_inv [OF assms])
  then have "prod_knows (chn r) r (ends s) (whist s) (mem s) (pview s) (PSlots base e ss i)"
    unfolding PSlots [symmetric] by (simp add: weak_inv_def producer_inv_def)
  then have "i \<le> length ss" unfolding prod_knows.simps by blast
  then consider "i < length ss" | "i = length ss" by linarith
  then show ?thesis
  proof cases
    case 1
    obtain v m where "store_relaxed (Slot (slot r base i)) (Sample (ss ! i)) (pview s) (mem s) = (v, m)" by fastforce
    from weak_step.p_slot [OF PSlots 1 this] show ?thesis using PSlots by fastforce
  next
    case 2
    obtain v m where "store_release WriteIx (Index e) (pview s) (mem s) = (v, m)" by fastforce
    from weak_step.p_publish [OF PSlots [unfolded 2] this] show ?thesis using PSlots by fastforce
  qed
qed

lemma consumer_steps:
  assumes "code_reachable r s" and "ring_repr r [] 0"
  shows "\<exists>t. code_step r s t \<and> cpc t \<noteq> cpc s"
proof -
  note rd = code_reachable_views(2) [OF assms] and ty = latest_typed [OF assms]
  show ?thesis
  proof (cases "cpc s")
    case CRest
    obtain w where "val (mem s ReadIx ! (length (mem s ReadIx) - 1)) = Index w" using ty [of ReadIx] by auto
    from weak_step.c_skip [OF CRest rd this] show ?thesis using CRest by fastforce
  next
    case (CWrite x out)
    obtain w where "val (mem s WriteIx ! (length (mem s WriteIx) - 1)) = Index w" using ty [of WriteIx] by auto
    from weak_step.c_few [OF CWrite rd this] weak_step.c_enough [OF CWrite rd this] show ?thesis
      using CWrite by (cases "unat (w - x) < length out div chn r") fastforce+
  next
    case (CSlots x out i)
    have "weak_inv r s" by (rule weak_reachable_inv [OF assms])
    then have "i \<le> length out" using CSlots by (simp add: weak_defs)
    then consider "i < length out" | "i = length out" by linarith
    then show ?thesis
    proof cases
      case 1
      let ?l = "Slot (slot r (x * channels r) i)"
      obtain y where "val (mem s ?l ! (length (mem s ?l) - 1)) = Sample y" using ty [of ?l] by auto
      from weak_step.c_slot [OF CSlots 1 refl rd this] show ?thesis using CSlots by fastforce
    next
      case 2
      from weak_step.c_fence [OF CSlots [unfolded 2]] show ?thesis using CSlots by fastforce
    qed
  next
    case (CCheck x out)
    obtain e where "val (mem s Reserved ! (length (mem s Reserved) - 1)) = Index e" using ty [of Reserved] by auto
    from weak_step.c_lapped [OF CCheck rd this] weak_step.c_valid [OF CCheck rd this] show ?thesis
      using CCheck by (cases "e - x > capacity r") fastforce+
  next
    case (CStore x out)
    obtain v m where "store_release ReadIx (Index (x + of_nat (length out div chn r))) (cview s) (mem s) = (v, m)"
      by fastforce
    from weak_step.c_store [OF CStore this] show ?thesis using CStore by fastforce
  next
    case (CSkipWrite x n)
    obtain w where "val (mem s WriteIx ! (length (mem s WriteIx) - 1)) = Index w" using ty [of WriteIx] by auto
    from weak_step.c_skip_write [OF CSkipWrite rd this] show ?thesis using CSkipWrite by fastforce
  next
    case (CSkipStore new q)
    obtain v m where "store_release ReadIx (Index new) (cview s) (mem s) = (v, m)" by fastforce
    from weak_step.c_skip_store [OF CSkipStore this] show ?thesis using CSkipStore by fastforce
  qed
qed

section \<open>Properties\<close>

text \<open>A ring of one mono frame, and a schedule: the slot is overwritten while it is read.\<close>

definition cell_ring :: audio_ring where
  "cell_ring = \<lparr>buf = [0], capacity = 1, channels = 1, sample_mask = 0, reserved = 0, write_ix = 0,
     read_ix = 0, closed = False\<rparr>"

definition one_sample :: "turn list" where
  "one_sample = [Produce [1, 0] 0, Produce [] 0, Produce [] 0, Produce [] 0, Produce [] 0,
     Consume [0] 0, Consume [] 1]"

definition read_it :: "turn list" where
  "read_it = [Consume [] 1, Consume [] 0, Consume [] 1, Consume [] 0]"

definition overwrite :: "turn list" where
  "overwrite = [Produce [2, 0] 1, Produce [] 0, Produce [] 0, Produce [] 0]"

definition read_new :: "turn list" where
  "read_new = [Consume [] 2, Consume [] 0, Consume [] 1, Consume [] 0]"

lemma cell_ring_facts: "channel 1 1 = Some cell_ring" "ring_repr cell_ring [] 0" "chn cell_ring = 1"
proof -
  show c: "channel 1 1 = Some cell_ring" by code_simp
  show "ring_repr cell_ring [] 0" by (rule channel_repr [OF c]) simp
  show "chn cell_ring = 1" by (simp add: cell_ring_def)
qed

text \<open>
  C3: No torn reads, in order, on the memory the source's orderings ask for. Whatever the threads'
  interleaving, whichever old or unpublished values the relaxed loads return, every buffer a
  successful \<open>read_frames\<close> hands out is one contiguous segment of what the producer wrote, at the
  consumer's position, and the successful reads are disjoint and in order. (The total written stays
  below \<open>2 ^ 64\<close> frames, 12 million years at 48 kHz.)
\<close>

theorem weak_no_torn_reads:
  assumes "channel n c = Some r" and "unat n * unat c < 2 ^ 64"
    and "weak_reachable fence_acquire fence_release r s" and "length (whist s) div chn r < 2 ^ 64"
  shows "(\<forall>(p, out) \<in> set (wdeliv s). p * chn r + length out \<le> length (whist s) \<and>
      out = take (length out) (drop (p * chn r) (whist s))) \<and>
    sorted_wrt (\<lambda>(p, out) (q, _). p + length out div chn r \<le> q) (wdeliv s)"
proof -
  have "weak_inv r s" by (rule weak_reachable_inv [OF assms(3) channel_repr [OF assms(1,2)]])
  then have d: "deliv_ok (chn r) (whist s) (wpos s) (wdeliv s)" "ends_ok (chn r) (ends s) (whist s)"
      "wpos s \<le> ends s ! current (cview s) WriteIx" "current (cview s) WriteIx < length (mem s WriteIx)"
      "length (mem s WriteIx) \<le> length (ends s)"
    by (simp_all add: weak_defs thread_all_def view_ok_def index_ok_def)
  have "ends s ! current (cview s) WriteIx * chn r \<le> length (whist s)"
    by (rule ends_le_hist [OF d(2)]) (use d(4,5) in simp)
  then have le: "wpos s * chn r \<le> length (whist s)" using d(3) by (meson le_trans mult_le_mono1)
  have "p * chn r + length out \<le> length (whist s) \<and> out = take (length out) (drop (p * chn r) (whist s))"
    if "(p, out) \<in> set (wdeliv s)" for p out
  proof -
    from d(1) that have "p * chn r + length out \<le> wpos s * chn r"
      "length (whist s) div chn r < p + 2 ^ 64 \<longrightarrow> out = segment (chn r) (whist s) p (length out)"
      unfolding deliv_ok_def by blast+
    then show ?thesis using assms(4) le by (simp add: segment_def)
  qed
  then show ?thesis using d(1) by (auto simp: deliv_ok_def)
qed

theorem weak_no_torn_reads_witness:
  "\<exists>s. weak_reachable fence_acquire fence_release cell_ring s \<and> wdeliv s = [(0, [1])] \<and>
    [1] = take (length [1 :: i16]) (drop (0 * chn cell_ring) (whist s))"
proof -
  have run: "map_option (\<lambda>s. (whist s, wdeliv s)) (run_turns fence_acquire fence_release cell_ring
      (one_sample @ read_it) (weak_initial cell_ring)) = Some ([1], [(0, [1])])"
    by code_simp
  then obtain s where s: "run_turns fence_acquire fence_release cell_ring (one_sample @ read_it)
      (weak_initial cell_ring) = Some s" "whist s = [1]" "wdeliv s = [(0, [1])]"
    by (auto simp: map_option_eq_Some)
  have r: "weak_reachable fence_acquire fence_release cell_ring s"
    by (rule run_turns_reachable [OF s(1) weak_reachable.init])
  have "length (whist s) div chn cell_ring < 2 ^ 64" by (simp add: s(2) cell_ring_facts)
  from weak_no_torn_reads [OF cell_ring_facts(1) _ r this] s(3)
  have "[1] = take (length [1 :: i16]) (drop (0 * chn cell_ring) (whist s))" by simp
  with r s(3) show ?thesis by blast
qed

text \<open>
  C4: The memory stays typed (indices hold indices, slots samples), neither thread is ever stuck, and
  no operation waits: once begun, each step of its own thread brings it closer to its end, whatever
  the other thread does. The realtime callback never blocks on the encoder.
\<close>

theorem ring_wait_free:
  assumes "channel n c = Some r" and "unat n * unat c < 2 ^ 64"
    and "weak_reachable fence_acquire fence_release r s"
  shows "typed (mem s) \<and>
    (\<exists>t. weak_step fence_acquire fence_release r s t \<and> ppc t \<noteq> ppc s) \<and>
    (\<exists>t. weak_step fence_acquire fence_release r s t \<and> cpc t \<noteq> cpc s) \<and>
    (\<forall>t. weak_step fence_acquire fence_release r s t \<longrightarrow>
      (ppc t = ppc s \<or> ppc s = PRest \<or> Suc (prod_left (ppc t)) = prod_left (ppc s)) \<and>
      (cpc t = cpc s \<or> cpc s = CRest \<or> cons_left (cpc t) < cons_left (cpc s)))"
proof (intro conjI allI impI)
  note repr = channel_repr [OF assms(1,2)]
  show "typed (mem s)" by (rule typed_reachable [OF assms(3)])
  show "\<exists>t. code_step r s t \<and> ppc t \<noteq> ppc s" by (rule producer_steps [OF assms(3) repr])
  show "\<exists>t. code_step r s t \<and> cpc t \<noteq> cpc s" by (rule consumer_steps [OF assms(3) repr])
qed (use step_left in blast)+

theorem ring_wait_free_witness:
  "typed (mem (weak_initial cell_ring)) \<and>
   (\<exists>t. weak_step fence_acquire fence_release cell_ring (weak_initial cell_ring) t \<and> ppc t \<noteq> PRest)"
proof -
  have "ppc (weak_initial cell_ring) = PRest" by (simp add: weak_initial_def)
  then show ?thesis using ring_wait_free [OF cell_ring_facts(1) _ weak_reachable.init] by simp
qed

section \<open>The memory model, checked against the strong one and against missing fences\<close>

text \<open>
  Every run of the atomic accesses on sequentially consistent memory is a run on the weak
  memory, with the same samples written and the same buffers read; what is proved of the weak
  memory is no less than what is proved of the strong one.
\<close>

lemma sc_runs_are_weak_runs:
  assumes "channel n c = Some r" and "unat n * unat c < 2 ^ 64" and "reachable r s"
  shows "\<exists>t. weak_reachable fence_acquire fence_release r t \<and>
    whist t = hist s \<and> wpos t = pos s \<and> wdeliv t = delivered s \<and>
    latest (mem t) WriteIx = Index (write_ix (ring s)) \<and> latest (mem t) ReadIx = Index (read_ix (ring s)) \<and>
    (\<forall>a < length (buf r). latest (mem t) (Slot a) = Sample (buf (ring s) ! a))"
  using reachable_matches [OF assms(3) channel_repr [OF assms(1,2)]]
  by (auto simp: sc_matches_def same_ring_def)

text \<open>
  The model tells the fences apart from their absence: with only one of them there is a run in
  which \<open>read_frames\<close> succeeds and hands out a sample that is not the one at its position: the slot was overwritten
  while it was read, and the check of \<open>reserved\<close> did not see it.
\<close>

lemma fences_needed:
  "(\<exists>s. weak_reachable id fence_release cell_ring s \<and>
      (\<exists>(p, out) \<in> set (wdeliv s). out \<noteq> take (length out) (drop (p * chn cell_ring) (whist s)))) \<and>
   (\<exists>s. weak_reachable fence_acquire id cell_ring s \<and>
      (\<exists>(p, out) \<in> set (wdeliv s). out \<noteq> take (length out) (drop (p * chn cell_ring) (whist s))))"
proof -
  have "map_option (\<lambda>s. (whist s, wdeliv s)) (run_turns id fence_release cell_ring
      (one_sample @ overwrite @ read_new) (weak_initial cell_ring)) = Some ([1, 2], [(0, [2])])"
    "map_option (\<lambda>s. (whist s, wdeliv s)) (run_turns fence_acquire id cell_ring
      (one_sample @ overwrite @ read_new) (weak_initial cell_ring)) = Some ([1, 2], [(0, [2])])"
    by code_simp+
  then obtain s t where st: "run_turns id fence_release cell_ring (one_sample @ overwrite @ read_new)
      (weak_initial cell_ring) = Some s" "whist s = [1, 2]" "wdeliv s = [(0, [2])]"
      "run_turns fence_acquire id cell_ring (one_sample @ overwrite @ read_new)
      (weak_initial cell_ring) = Some t" "whist t = [1, 2]" "wdeliv t = [(0, [2])]"
    by (auto simp: map_option_eq_Some)
  have "weak_reachable id fence_release cell_ring s" "weak_reachable fence_acquire id cell_ring t"
    by (rule run_turns_reachable [OF st(1) weak_reachable.init] run_turns_reachable [OF st(4) weak_reachable.init])+
  then show ?thesis using st by (intro conjI exI [of _ s] exI [of _ t]) simp_all
qed

end
