(* ===== verification/Cast_Message.thy ===== *)
theory Cast_Message
  imports Cast_Prelude
begin

text \<open>
  The hand-written protobuf codec of \<open>src/cast_channel.rs\<close>: varints, length-delimited
  fields, \<open>encode_cast_message\<close> and \<open>decode_cast_message\<close>, with
  \<open>String::from_utf8_lossy\<close> of the standard library. Every \<open>bail!\<close> is a value of
  \<open>decode_error\<close>; so is the panic of an out-of-range slice, which is shown unreachable.
\<close>

section \<open>UTF-8\<close>

text \<open>
  The standard library's decoder (\<open>core::str::lossy\<close>): the number of bytes of the first
  character and whether it is well formed; when it is not, the bytes are replaced by one
  U+FFFD. A byte past the end reads as 0.
\<close>

definition utf8_char_width :: "u8 \<Rightarrow> nat" where
  "utf8_char_width b =
     (if b < 0x80 then 1 else if 0xC2 \<le> b \<and> b \<le> 0xDF then 2 else if 0xE0 \<le> b \<and> b \<le> 0xEF then 3
      else if 0xF0 \<le> b \<and> b \<le> 0xF4 then 4 else 0)"

definition safe_get :: "bytes \<Rightarrow> nat \<Rightarrow> u8" where
  "safe_get bs i = (if i < length bs then bs ! i else 0)"

definition continuation :: "u8 \<Rightarrow> bool" where
  "continuation b \<longleftrightarrow> b AND 192 = 128"

definition second_ok :: "u8 \<Rightarrow> u8 \<Rightarrow> bool" where
  "second_ok a b \<longleftrightarrow>
     a = 0xE0 \<and> 0xA0 \<le> b \<and> b \<le> 0xBF \<or> 0xE1 \<le> a \<and> a \<le> 0xEC \<and> 0x80 \<le> b \<and> b \<le> 0xBF \<or>
     a = 0xED \<and> 0x80 \<le> b \<and> b \<le> 0x9F \<or> 0xEE \<le> a \<and> a \<le> 0xEF \<and> 0x80 \<le> b \<and> b \<le> 0xBF \<or>
     a = 0xF0 \<and> 0x90 \<le> b \<and> b \<le> 0xBF \<or> 0xF1 \<le> a \<and> a \<le> 0xF3 \<and> 0x80 \<le> b \<and> b \<le> 0xBF \<or>
     a = 0xF4 \<and> 0x80 \<le> b \<and> b \<le> 0x8F"

definition utf8_char :: "bytes \<Rightarrow> bool \<times> nat" where
  "utf8_char bs =
     (let g = safe_get bs; w = utf8_char_width (g 0)
      in if w = 1 then (True, 1)
         else if w = 2 then (if continuation (g 1) then (True, 2) else (False, 1))
         else if w = 3 then
           (if \<not> second_ok (g 0) (g 1) then (False, 1)
            else if \<not> continuation (g 2) then (False, 2) else (True, 3))
         else if w = 4 then
           (if \<not> second_ok (g 0) (g 1) then (False, 1)
            else if \<not> continuation (g 2) then (False, 2)
            else if \<not> continuation (g 3) then (False, 3) else (True, 4))
         else (False, 1))"

definition replacement :: bytes where
  "replacement = [0xEF, 0xBF, 0xBD]"

lemma utf8_char_pos: "0 < snd (utf8_char bs)"
  by (simp add: utf8_char_def Let_def)

function lossy_bytes :: "bytes \<Rightarrow> bytes" where
  "lossy_bytes bs =
     (if bs = [] then []
      else let (ok, n) = utf8_char bs
           in (if ok then take n bs else replacement) @ lossy_bytes (drop n bs))"
  by pat_completeness auto
termination
proof (relation "measure length", simp)
  fix bs p ok n
  assume "bs \<noteq> []" "p = utf8_char bs" "(ok, n) = p"
  then have "0 < n" using utf8_char_pos [of bs] by (metis snd_conv)
  with \<open>bs \<noteq> []\<close> show "(drop n bs, bs) \<in> measure length" by simp
qed

definition from_utf8_lossy :: "bytes \<Rightarrow> string" where
  "from_utf8_lossy bs = of_bytes (lossy_bytes bs)"

text \<open>The invariant of \<open>String\<close>: its bytes decode without a replacement.\<close>

function valid_utf8 :: "bytes \<Rightarrow> bool" where
  "valid_utf8 bs =
     (if bs = [] then True
      else let (ok, n) = utf8_char bs in if ok then valid_utf8 (drop n bs) else False)"
  by pat_completeness auto
termination
proof (relation "measure length", simp)
  fix bs p ok n
  assume "bs \<noteq> []" "p = utf8_char bs" "(ok, n) = p"
  then have "0 < n" using utf8_char_pos [of bs] by (metis snd_conv)
  with \<open>bs \<noteq> []\<close> show "(drop n bs, bs) \<in> measure length" by simp
qed

declare lossy_bytes.simps [simp del] valid_utf8.simps [simp del]

lemma valid_utf8_Nil [simp]: "valid_utf8 []"
  by (subst valid_utf8.simps) simp

lemma lossy_bytes_Nil [simp]: "lossy_bytes [] = []"
  by (simp add: lossy_bytes.simps)

lemma lossy_valid: "valid_utf8 bs \<Longrightarrow> lossy_bytes bs = bs"
proof (induction bs rule: valid_utf8.induct)
  case (1 bs)
  show ?case
  proof (cases "bs = []")
    case False
    obtain n where n: "utf8_char bs = (True, n)"
      using 1(2) False
      by (cases "utf8_char bs") (auto simp: valid_utf8.simps [of bs] split: if_splits)
    then have "valid_utf8 (drop n bs)" using 1(2) False by (simp add: valid_utf8.simps [of bs])
    then have "lossy_bytes (drop n bs) = drop n bs" using 1(1) [OF False n [symmetric] refl] by simp
    then show ?thesis using False n by (simp add: lossy_bytes.simps [of bs])
  qed simp
qed

text \<open>A well-formed character is decided by its own bytes.\<close>

lemma continuation_zero [simp]: "\<not> continuation 0"
  by (simp add: continuation_def)

lemma second_ok_zero [simp]: "\<not> second_ok a 0"
  by (simp add: second_ok_def)

lemma utf8_char_width_zero [simp]: "utf8_char_width 0 = 1"
  by (simp add: utf8_char_width_def)

lemma utf8_char_prefix:
  assumes "utf8_char bs = (True, n)" and "bs \<noteq> []"
  shows "n \<le> length bs \<and> utf8_char (take n bs @ rest) = (True, n)"
proof -
  have z: "safe_get bs i = 0" if "length bs \<le> i" for i using that by (simp add: safe_get_def)
  have le: "n \<le> length bs"
  proof (rule ccontr)
    assume "\<not> n \<le> length bs"
    then have "length bs \<le> n - 1" by simp
    then have "safe_get bs (n - 1) = 0" by (rule z)
    moreover have "0 < length bs" using assms(2) by simp
    ultimately show False
      using assms(1) \<open>\<not> n \<le> length bs\<close> \<open>0 < length bs\<close>
      by (auto simp: Suc_le_eq utf8_char_def Let_def split: if_splits)
  qed
  have g: "safe_get (take n bs @ rest) i = safe_get bs i" if "i < n" for i
    using that le by (simp add: safe_get_def nth_append)
  have "0 < n" using utf8_char_pos [of bs] assms(1) by simp
  then show ?thesis
    using le assms(1) g [of 0] g [of 1] g [of 2] g [of 3]
    by (auto simp: utf8_char_def Let_def split: if_splits)
qed

lemma utf8_char_replacement: "utf8_char (replacement @ rest) = (True, 3)"
proof -
  have "utf8_char replacement = (True, 3)" by code_simp
  from utf8_char_prefix [OF this, of rest] show ?thesis by (simp add: replacement_def)
qed

lemma valid_utf8_step:
  assumes "utf8_char bs = (True, n)"
  shows "valid_utf8 (drop n bs) \<Longrightarrow> valid_utf8 bs"
  using assms by (simp add: valid_utf8.simps [of bs])

lemma valid_lossy: "valid_utf8 (lossy_bytes bs)"
proof (induction bs rule: lossy_bytes.induct)
  case (1 bs)
  show ?case
  proof (cases "bs = []")
    case False
    obtain ok n where n: "utf8_char bs = (ok, n)" by fastforce
    have ih: "valid_utf8 (lossy_bytes (drop n bs))" using 1 [OF False n [symmetric] refl] .
    show ?thesis
    proof (cases ok)
      case True
      then have c: "n \<le> length bs" "utf8_char (take n bs @ lossy_bytes (drop n bs)) = (True, n)"
        using utf8_char_prefix [of bs n "lossy_bytes (drop n bs)"] n False by simp_all
      have "valid_utf8 (drop n (take n bs @ lossy_bytes (drop n bs)))" using ih c(1) by simp
      then show ?thesis
        using valid_utf8_step [OF c(2)] True n False by (simp add: lossy_bytes.simps [of bs])
    next
      case False
      have "valid_utf8 (drop 3 (replacement @ lossy_bytes (drop n bs)))"
        using ih by (simp add: replacement_def)
      then show ?thesis
        using valid_utf8_step [OF utf8_char_replacement] False n \<open>bs \<noteq> []\<close>
        by (simp add: lossy_bytes.simps [of bs])
    qed
  qed simp
qed

definition string_ok :: "string \<Rightarrow> bool" where
  "string_ok s \<longleftrightarrow> valid_utf8 (as_bytes s)"

lemma from_utf8_lossy_ok: "string_ok (from_utf8_lossy bs)"
  by (simp add: string_ok_def from_utf8_lossy_def valid_lossy)

lemma from_utf8_lossy_as_bytes: "string_ok s \<Longrightarrow> from_utf8_lossy (as_bytes s) = s"
  by (simp add: string_ok_def from_utf8_lossy_def lossy_valid)

section \<open>Encoding\<close>

record cast_message =
  source :: string
  destination :: string
  namespace :: string
  payload :: string

function write_varint :: "u64 \<Rightarrow> bytes" where
  "write_varint v =
     (if 0x80 \<le> v then (ucast (v AND 0x7F) OR 0x80) # write_varint (drop_bit 7 v) else [ucast v])"
  by pat_completeness auto
termination
proof (relation "measure unat", simp)
  fix v :: u64
  assume "0x80 \<le> v"
  then have "0 < unat v" by (simp add: word_le_nat_alt)
  then show "(drop_bit 7 v, v) \<in> measure unat"
    by (simp add: drop_bit_eq_div unat_div)
qed

declare write_varint.simps [simp del]

text \<open>The buffer is appended to, so an operation is the bytes it appends.\<close>

definition write_string :: "u32 \<Rightarrow> string \<Rightarrow> bytes" where
  "write_string tag s =
     (let bs = as_bytes s
      in write_varint (push_bit 3 (ucast tag) OR 2) @ write_varint (of_nat (length bs)) @ bs)"

definition write_varint_field :: "u32 \<Rightarrow> u64 \<Rightarrow> bytes" where
  "write_varint_field tag v = write_varint (push_bit 3 (ucast tag)) @ write_varint v"

definition encode_cast_message :: "cast_message \<Rightarrow> bytes" where
  "encode_cast_message msg =
     write_varint_field 1 0 @ write_string 2 (source msg) @ write_string 3 (destination msg) @
     write_string 4 (namespace msg) @ write_varint_field 5 0 @ write_string 6 (payload msg)"

section \<open>Decoding\<close>

datatype decode_error =
    VarintOverrun | VarintTooLong | FieldOverrun | UnsupportedWire u8 u32 | Panic

text \<open>The loop of \<open>read_varint\<close>; the result carries the new \<open>*pos\<close>.\<close>

function read_varint_loop :: "bytes \<Rightarrow> nat \<Rightarrow> u64 \<Rightarrow> nat \<Rightarrow> decode_error + u64 \<times> nat" where
  "read_varint_loop data pos result shift =
     (if length data \<le> pos then Inl VarintOverrun
      else
        let b = data ! pos;
            pos' = pos + 1;
            result' = result OR push_bit shift (ucast (b AND 0x7F))
        in if b AND 0x80 = 0 then Inr (result', pos')
           else if 64 \<le> shift + 7 then Inl VarintTooLong
           else read_varint_loop data pos' result' (shift + 7))"
  by pat_completeness auto
termination
  by (relation "measure (\<lambda>(data, pos, result, shift). 64 - shift)") auto

declare read_varint_loop.simps [simp del]

definition read_varint :: "bytes \<Rightarrow> nat \<Rightarrow> decode_error + u64 \<times> nat" where
  "read_varint data pos = read_varint_loop data pos 0 0"

definition store_field :: "u32 \<Rightarrow> bytes \<Rightarrow> cast_message \<Rightarrow> cast_message" where
  "store_field tag bs msg =
     (if tag = 2 then msg\<lparr>source := from_utf8_lossy bs\<rparr>
      else if tag = 3 then msg\<lparr>destination := from_utf8_lossy bs\<rparr>
      else if tag = 4 then msg\<lparr>namespace := from_utf8_lossy bs\<rparr>
      else if tag = 6 then msg\<lparr>payload := from_utf8_lossy bs\<rparr>
      else msg)"

text \<open>One turn of the \<open>while\<close> loop: the fields so far and \<open>pos\<close> for the next turn.\<close>

definition decode_field :: "bytes \<Rightarrow> nat \<Rightarrow> cast_message \<Rightarrow> decode_error + nat \<times> cast_message" where
  "decode_field data pos msg =
     (case read_varint data pos of
        Inl e \<Rightarrow> Inl e
      | Inr (key, pos1) \<Rightarrow>
          let tag = ucast (drop_bit 3 key) :: u32;
              wire = ucast (key AND 0x7) :: u8
          in if wire = 0 then
               (case read_varint data pos1 of Inl e \<Rightarrow> Inl e | Inr (_, pos2) \<Rightarrow> Inr (pos2, msg))
             else if wire = 2 then
               (case read_varint data pos1 of
                  Inl e \<Rightarrow> Inl e
                | Inr (len, pos2) \<Rightarrow>
                    if of_nat (length data - pos2) < len then Inl FieldOverrun
                    else case get_range data pos2 (pos2 + unat len) of
                      None \<Rightarrow> Inl Panic
                    | Some bs \<Rightarrow> Inr (pos2 + unat len, store_field tag bs msg))
             else Inl (UnsupportedWire wire tag))"

lemma read_varint_loop_pos:
  "read_varint_loop data pos r sh = Inr (v, pos') \<Longrightarrow> pos < pos' \<and> pos' \<le> length data"
proof (induction data pos r sh rule: read_varint_loop.induct)
  case (1 data pos result shift)
  then show ?case
    by (subst (asm) (2) read_varint_loop.simps) (fastforce simp: Let_def split: if_splits)
qed

lemma read_varint_pos:
  "read_varint data pos = Inr (v, pos') \<Longrightarrow> pos < pos' \<and> pos' \<le> length data"
  unfolding read_varint_def by (rule read_varint_loop_pos)

lemma decode_field_pos:
  "decode_field data pos msg = Inr (pos', msg') \<Longrightarrow> pos < pos' \<and> pos' \<le> length data"
  by (auto simp: decode_field_def Let_def get_range_def
      split: sum.splits prod.splits if_splits dest!: read_varint_pos)

function decode_loop :: "bytes \<Rightarrow> nat \<Rightarrow> cast_message \<Rightarrow> decode_error + cast_message" where
  "decode_loop data pos msg =
     (if pos < length data then
        case decode_field data pos msg of
          Inl e \<Rightarrow> Inl e
        | Inr (pos', msg') \<Rightarrow> decode_loop data pos' msg'
      else Inr msg)"
  by pat_completeness auto
termination
  by (relation "measure (\<lambda>(data, pos, msg). length data - pos)") (auto dest: decode_field_pos)

declare decode_loop.simps [simp del]

definition decode_cast_message :: "bytes \<Rightarrow> decode_error + cast_message" where
  "decode_cast_message data =
     decode_loop data 0 \<lparr>source = [], destination = [], namespace = [], payload = []\<rparr>"

section \<open>Varints\<close>

lemma masks: "(0x7F :: u64) = mask 7" "(0x7F :: u8) = mask 7"
  by (simp_all add: mask_eq_exp_minus_1)

lemma bit_0x80: "bit (0x80 :: int) n \<longleftrightarrow> n = 7"
proof -
  have "(0x80 :: int) = push_bit 7 1" by simp
  then show ?thesis by (simp only: bit_push_bit_iff bit_1_iff) auto
qed

lemma varint_group:
  "(ucast (v AND 0x7F :: u64) OR 0x80) AND 0x80 \<noteq> (0 :: u8)"
  "ucast ((ucast (v AND 0x7F) OR 0x80) AND 0x7F :: u8) = v AND 0x7F"
proof -
  have "bit ((ucast (v AND mask 7) OR 0x80) AND 0x80 :: u8) 7" by (simp add: bit_simps bit_0x80)
  then show "(ucast (v AND 0x7F :: u64) OR 0x80) AND 0x80 \<noteq> (0 :: u8)"
    unfolding masks by (metis bit_0_eq bot_apply bot_bool_def)
  show "ucast ((ucast (v AND 0x7F) OR 0x80) AND 0x7F :: u8) = v AND 0x7F"
    unfolding masks by (rule bit_word_eqI) (auto simp: bit_simps bit_0x80)
qed

lemma varint_last:
  assumes "v < (0x80 :: u64)"
  shows "ucast v AND 0x80 = (0 :: u8)" and "ucast (ucast v AND 0x7F :: u8) = v"
proof -
  have "take_bit 7 v = v"
    using assms by (simp add: take_bit_eq_mod word_unat_eq_iff unat_mod word_less_nat_alt)
  then have v: "n < 7" if "bit v n" for n using that by (metis bit_take_bit_iff)
  have "\<not> bit v 7" using v [of 7] by auto
  then show "ucast v AND 0x80 = (0 :: u8)"
    unfolding masks by (intro bit_word_eqI) (auto simp: bit_simps bit_0x80)
  show "ucast (ucast v AND 0x7F :: u8) = v"
    unfolding masks by (intro bit_word_eqI) (auto simp: bit_simps dest: v)
qed

lemma varint_join: "push_bit s (v AND 0x7F) OR push_bit (s + 7) (drop_bit 7 v) = push_bit s (v :: u64)"
proof -
  have "push_bit 7 (drop_bit 7 v) OR (v AND mask 7) = v"
    by (rule bit_word_eqI) (auto simp: bit_simps)
  then have "push_bit s v = push_bit s (push_bit 7 (drop_bit 7 v) OR (v AND mask 7))" by simp
  also have "\<dots> = push_bit (s + 7) (drop_bit 7 v) OR push_bit s (v AND mask 7)"
    by (simp add: push_bit_or push_bit_push_bit add.commute)
  finally show ?thesis unfolding masks by (simp add: or.commute)
qed

lemma read_write_varint_loop:
  assumes "shift < 64" and "unat v < 2 ^ (64 - shift)"
  shows "read_varint_loop (pre @ write_varint v @ post) (length pre) r shift =
    Inr (r OR push_bit shift v, length pre + length (write_varint v))"
  using assms
proof (induction v arbitrary: pre r shift rule: write_varint.induct)
  case (1 v)
  show ?case
  proof (cases "0x80 \<le> v")
    case True
    let ?b = "ucast (v AND 0x7F) OR 0x80 :: u8"
    have w: "write_varint v = ?b # write_varint (drop_bit 7 v)"
      using True by (simp add: write_varint.simps [of v])
    have "2 ^ 7 < (2 :: nat) ^ (64 - shift)" using True 1(3) by (simp add: word_le_nat_alt)
    then have "7 < 64 - shift" by (rule power_less_imp_less_exp [rotated]) simp
    then have sh: "shift + 7 < 64" by simp
    have "2 ^ (64 - shift) = (128 :: nat) * 2 ^ (64 - (shift + 7))"
      using sh power_add [of "2 :: nat" 7 "64 - (shift + 7)"] by simp
    then have "unat (drop_bit 7 v) < 2 ^ (64 - (shift + 7))"
      using 1(3) by (simp add: drop_bit_eq_div unat_div less_mult_imp_div_less mult.commute)
    note ih = 1(1) [OF True sh this, of "pre @ [?b]" "r OR push_bit shift (v AND 0x7F)"]
    define data where "data = pre @ write_varint v @ post"
    have d: "data ! length pre = ?b" "length pre < length data" by (simp_all add: data_def w)
    have "read_varint_loop data (length pre) r shift =
        read_varint_loop data (length pre + 1) (r OR push_bit shift (ucast (?b AND 0x7F))) (shift + 7)"
      using d sh varint_group(1) [of v]
      by (subst read_varint_loop.simps) (simp add: Let_def del: push_bit_and)
    also have "\<dots> = Inr (r OR push_bit shift v, length pre + length (write_varint v))"
      using ih varint_join [of shift v] unfolding data_def w varint_group(2)
      by (simp add: or.assoc del: push_bit_and)
    finally show ?thesis by (simp add: data_def)
  next
    case False
    then have "write_varint v = [ucast v]" by (simp add: write_varint.simps [of v])
    then show ?thesis
      using False by (subst read_varint_loop.simps)
        (simp add: Let_def varint_last nth_append not_le)
  qed
qed

lemma read_write_varint:
  "read_varint (pre @ write_varint v @ post) (length pre) = Inr (v, length pre + length (write_varint v))"
  using read_write_varint_loop [of 0 v pre post 0] unat_u64_lt [of v] by (simp add: read_varint_def)

text \<open>The loop never reads more than ten bytes.\<close>

lemma read_varint_loop_bound:
  "read_varint_loop data pos r sh = Inr (v, pos') \<Longrightarrow> sh = 7 * k \<Longrightarrow> k < 10 \<Longrightarrow> pos' + k \<le> pos + 10"
proof (induction data pos r sh arbitrary: k rule: read_varint_loop.induct)
  case (1 data pos result shift)
  show ?case
  proof (cases "length data \<le> pos \<or> data ! pos AND 0x80 = 0 \<or> 64 \<le> shift + 7")
    case True
    with 1(2,4) show ?thesis
      by (subst (asm) read_varint_loop.simps) (auto simp: Let_def split: if_splits)
  next
    case False
    then have "read_varint_loop data (pos + 1) (result OR push_bit shift (ucast (data ! pos AND 0x7F)))
        (shift + 7) = Inr (v, pos')"
      using 1(2) by (subst (asm) read_varint_loop.simps) (simp add: Let_def)
    then have "pos' + Suc k \<le> pos + 1 + 10"
      by (rule 1(1) [rotated -3, where k = "Suc k"]) (use False 1(3) in auto)
    then show ?thesis by simp
  qed
qed

section \<open>Fields\<close>

lemma decode_varint_field:
  assumes "ucast (key AND 0x7) = (0 :: u8)"
  shows "decode_field (pre @ write_varint key @ write_varint v @ post) (length pre) msg =
    Inr (length pre + length (write_varint key) + length (write_varint v), msg)"
proof -
  let ?data = "pre @ write_varint key @ write_varint v @ post"
  have "read_varint ?data (length pre) = Inr (key, length pre + length (write_varint key))"
    by (rule read_write_varint)
  moreover have "read_varint ?data (length pre + length (write_varint key)) =
      Inr (v, length pre + length (write_varint key) + length (write_varint v))"
    using read_write_varint [of "pre @ write_varint key" v post] by simp
  ultimately show ?thesis using assms by (simp add: decode_field_def Let_def)
qed

lemma decode_bytes_field:
  assumes "ucast (key AND 0x7) = (2 :: u8)" and "length bs < 2 ^ 64" and "length post < 2 ^ 63"
    and "length bs < 2 ^ 63"
  shows "decode_field (pre @ write_varint key @ write_varint (of_nat (length bs)) @ bs @ post) (length pre) msg =
    Inr (length pre + length (write_varint key) + length (write_varint (of_nat (length bs))) + length bs,
      store_field (ucast (drop_bit 3 key)) bs msg)"
proof -
  let ?n = "of_nat (length bs) :: u64"
  let ?data = "pre @ write_varint key @ write_varint ?n @ bs @ post"
  let ?p = "length pre + length (write_varint key) + length (write_varint ?n)"
  have n: "unat ?n = length bs"
    using assms(2) by (simp only: unsigned_of_nat) (simp add: take_bit_nat_eq_self)
  have "read_varint ?data (length pre) = Inr (key, length pre + length (write_varint key))"
    by (rule read_write_varint)
  moreover have "read_varint ?data (length pre + length (write_varint key)) = Inr (?n, ?p)"
    using read_write_varint [of "pre @ write_varint key" ?n "bs @ post"] by simp
  moreover have "\<not> of_nat (length ?data - ?p) < ?n"
  proof -
    have "length ?data - ?p = length bs + length post" by simp
    moreover have "unat (of_nat (length bs + length post) :: u64) = length bs + length post"
      using assms(3,4) by (simp only: unsigned_of_nat) (simp add: take_bit_nat_eq_self)
    ultimately show ?thesis using n by (simp add: word_less_nat_alt)
  qed
  moreover have "get_range ?data ?p (?p + unat ?n) = Some bs"
    unfolding n by (simp add: get_range_def)
  ultimately show ?thesis
    using assms(1) n by (simp add: decode_field_def Let_def add.assoc)
qed

lemma decode_loop_turn:
  assumes "decode_field data pos msg = Inr (pos', msg')"
  shows "decode_loop data pos msg = decode_loop data pos' msg'"
  using assms decode_field_pos [OF assms] by (subst decode_loop.simps) simp

lemma decode_loop_end: "length data \<le> pos \<Longrightarrow> decode_loop data pos msg = Inr msg"
  by (subst decode_loop.simps) simp

lemma decode_loop_varint:
  assumes "ucast (key AND 0x7) = (0 :: u8)"
  shows "decode_loop (pre @ write_varint key @ write_varint v @ post) (length pre) msg =
    decode_loop ((pre @ write_varint key @ write_varint v) @ post)
      (length (pre @ write_varint key @ write_varint v)) msg"
  using decode_loop_turn [OF decode_varint_field [OF assms]] by (simp add: add.assoc)

lemma decode_loop_string:
  assumes "ucast ((push_bit 3 (ucast tag) OR 2 :: u64) AND 0x7) = (2 :: u8)"
    and "ucast (drop_bit 3 (push_bit 3 (ucast tag) OR 2 :: u64)) = tag"
    and "length s < 2 ^ 63" and "length post < 2 ^ 63"
  shows "decode_loop (pre @ write_string tag s @ post) (length pre) msg =
    decode_loop ((pre @ write_string tag s) @ post) (length (pre @ write_string tag s))
      (store_field tag (as_bytes s) msg)"
proof -
  have l: "length (as_bytes s) < 2 ^ 64" "length (as_bytes s) < 2 ^ 63" using assms(3) by simp_all
  show ?thesis
    using decode_loop_turn [OF decode_bytes_field [OF assms(1) l(1) assms(4) l(2)]] assms(2)
    by (simp add: write_string_def Let_def add.assoc)
qed

text \<open>The keys of the four string fields.\<close>

lemma string_keys:
  assumes "tag \<in> {2, 3, 4, 6}"
  shows "ucast ((push_bit 3 (ucast (tag :: u32)) OR 2 :: u64) AND 0x7) = (2 :: u8)"
    and "ucast (drop_bit 3 (push_bit 3 (ucast tag) OR 2 :: u64)) = tag"
proof -
  show "ucast ((push_bit 3 (ucast tag) OR 2 :: u64) AND 0x7) = (2 :: u8)"
    using assms by (elim insertE emptyE; simp)
  show "ucast (drop_bit 3 (push_bit 3 (ucast tag) OR 2 :: u64)) = tag"
    using assms by (elim insertE emptyE; simp)
qed

lemma length_write_varint: "length (write_varint v) \<le> 10"
proof -
  have "length (write_varint v) + 0 \<le> 0 + 10"
    by (rule read_varint_loop_bound [of "write_varint v" 0 0 0 v])
      (use read_write_varint [of "[]" v "[]"] in \<open>simp_all add: read_varint_def\<close>)
  then show ?thesis by simp
qed

definition message_ok :: "cast_message \<Rightarrow> bool" where
  "message_ok m \<longleftrightarrow> (\<forall>s \<in> {source m, destination m, namespace m, payload m}. string_ok s) \<and>
     length (source m) + length (destination m) + length (namespace m) + length (payload m) + 128 < 2 ^ 63"

lemma store_field_ok:
  "string_ok s \<Longrightarrow> store_field 2 (as_bytes s) m = m\<lparr>source := s\<rparr>"
  "string_ok s \<Longrightarrow> store_field 3 (as_bytes s) m = m\<lparr>destination := s\<rparr>"
  "string_ok s \<Longrightarrow> store_field 4 (as_bytes s) m = m\<lparr>namespace := s\<rparr>"
  "string_ok s \<Longrightarrow> store_field 6 (as_bytes s) m = m\<lparr>payload := s\<rparr>"
  by (simp_all add: store_field_def from_utf8_lossy_as_bytes)

lemma length_write_string: "length (write_string tag s) \<le> 20 + length s"
  using length_write_varint [of "push_bit 3 (ucast tag) OR 2"]
    length_write_varint [of "of_nat (length s)"]
  by (simp add: write_string_def Let_def)

lemma length_write_varint_field: "length (write_varint_field tag v) \<le> 20"
  using length_write_varint [of "push_bit 3 (ucast tag)"] length_write_varint [of v]
  by (simp add: write_varint_field_def)

lemma decode_encode:
  assumes "message_ok m"
  shows "decode_cast_message (encode_cast_message m) = Inr m"
proof -
  have ok: "string_ok (source m)" "string_ok (destination m)" "string_ok (namespace m)"
      "string_ok (payload m)"
    using assms by (auto simp: message_ok_def)
  have len: "length (source m) + length (destination m) + length (namespace m) + length (payload m) + 128 < 2 ^ 63"
    using assms by (simp add: message_ok_def)
  let ?v1 = "write_varint_field 1 0" and ?v5 = "write_varint_field 5 0"
  let ?s2 = "write_string 2 (source m)" and ?s3 = "write_string 3 (destination m)"
    and ?s4 = "write_string 4 (namespace m)" and ?s6 = "write_string 6 (payload m)"
  note sz = length_write_string [of 2 "source m"] length_write_string [of 3 "destination m"]
    length_write_string [of 4 "namespace m"] length_write_string [of 6 "payload m"]
    length_write_varint_field [of 5 0]
  have ls: "length (source m) < 2 ^ 63" "length (destination m) < 2 ^ 63"
      "length (namespace m) < 2 ^ 63" "length (payload m) < 2 ^ 63" using len by linarith+
  have post: "length (?s3 @ ?s4 @ ?v5 @ ?s6) < 2 ^ 63" "length (?s4 @ ?v5 @ ?s6) < 2 ^ 63"
      "length (?v5 @ ?s6) < 2 ^ 63" "length ([] :: bytes) < 2 ^ 63"
    using len sz by simp_all
  define m0 where "m0 = \<lparr>source = [], destination = [], namespace = [], payload = []\<rparr>"
  have "decode_loop ([] @ ?v1 @ (?s2 @ ?s3 @ ?s4 @ ?v5 @ ?s6)) (length ([] :: bytes)) m0 =
      decode_loop (?v1 @ ?s2 @ (?s3 @ ?s4 @ ?v5 @ ?s6)) (length ?v1) m0"
    using decode_loop_varint [of "push_bit 3 (ucast (1 :: u32))" "[]" 0 "?s2 @ ?s3 @ ?s4 @ ?v5 @ ?s6" m0]
    by (simp add: write_varint_field_def)
  also have "\<dots> = decode_loop ((?v1 @ ?s2) @ ?s3 @ (?s4 @ ?v5 @ ?s6)) (length (?v1 @ ?s2))
      (m0\<lparr>source := source m\<rparr>)"
    using decode_loop_string [OF string_keys [of 2] ls(1) post(1), of ?v1 m0] ok by (simp add: store_field_ok)
  also have "\<dots> = decode_loop ((?v1 @ ?s2 @ ?s3) @ ?s4 @ (?v5 @ ?s6)) (length (?v1 @ ?s2 @ ?s3))
      (m0\<lparr>source := source m, destination := destination m\<rparr>)"
    using decode_loop_string [OF string_keys [of 3] ls(2) post(2), of "?v1 @ ?s2" "m0\<lparr>source := source m\<rparr>"] ok
    by (simp add: store_field_ok)
  also have "\<dots> = decode_loop ((?v1 @ ?s2 @ ?s3 @ ?s4) @ ?v5 @ ?s6) (length (?v1 @ ?s2 @ ?s3 @ ?s4))
      (m0\<lparr>source := source m, destination := destination m, namespace := namespace m\<rparr>)"
    using decode_loop_string [OF string_keys [of 4] ls(3) post(3), of "?v1 @ ?s2 @ ?s3"
        "m0\<lparr>source := source m, destination := destination m\<rparr>"] ok
    by (simp add: store_field_ok)
  also have "\<dots> = decode_loop ((?v1 @ ?s2 @ ?s3 @ ?s4 @ ?v5) @ ?s6 @ []) (length (?v1 @ ?s2 @ ?s3 @ ?s4 @ ?v5))
      (m0\<lparr>source := source m, destination := destination m, namespace := namespace m\<rparr>)"
    using decode_loop_varint [of "push_bit 3 (ucast (5 :: u32))" "?v1 @ ?s2 @ ?s3 @ ?s4" 0 ?s6]
    by (simp add: write_varint_field_def)
  also have "\<dots> = Inr m"
    using decode_loop_string [OF string_keys [of 6] ls(4) post(4), of "?v1 @ ?s2 @ ?s3 @ ?s4 @ ?v5"] ok
    by (simp add: store_field_ok decode_loop_end m0_def)
  finally show ?thesis by (simp add: decode_cast_message_def encode_cast_message_def m0_def)
qed

section \<open>Arbitrary input\<close>

lemma read_varint_loop_no_panic: "read_varint_loop data pos r sh \<noteq> Inl Panic"
proof (induction data pos r sh rule: read_varint_loop.induct)
  case (1 data pos result shift)
  then show ?case
    by (subst read_varint_loop.simps) (simp add: Let_def)
qed

lemma read_varint_no_panic [simp]: "read_varint data pos \<noteq> Inl Panic"
  by (simp add: read_varint_def read_varint_loop_no_panic)

definition fields_ok :: "cast_message \<Rightarrow> bool" where
  "fields_ok m \<longleftrightarrow> string_ok (source m) \<and> string_ok (destination m) \<and> string_ok (namespace m) \<and>
     string_ok (payload m)"

lemma store_field_fields_ok: "fields_ok m \<Longrightarrow> fields_ok (store_field tag bs m)"
  by (simp add: fields_ok_def store_field_def from_utf8_lossy_ok)

lemma decode_field_no_panic:
  assumes "length data < 2 ^ 64"
  shows "decode_field data pos msg \<noteq> Inl Panic"
proof -
  have in_range: "of_nat (length data - p) < (len :: u64)"
    if "get_range data p (p + unat len) = None" "p \<le> length data" for p len
  proof -
    have "unat (of_nat (length data - p) :: u64) = length data - p"
      using assms by (simp only: unsigned_of_nat) (simp add: take_bit_nat_eq_self)
    with that show ?thesis by (simp add: word_less_nat_alt get_range_def split: if_splits)
  qed
  show ?thesis
    using read_varint_no_panic
    by (auto simp: decode_field_def Let_def simp del: of_nat_diff
        split: sum.splits prod.splits option.splits if_splits dest!: read_varint_pos dest: in_range)
qed

lemma decode_field_fields_ok:
  "decode_field data pos msg = Inr (pos', msg') \<Longrightarrow> fields_ok msg \<Longrightarrow> fields_ok msg'"
  by (auto simp: decode_field_def Let_def split: sum.splits prod.splits option.splits if_splits
      intro: store_field_fields_ok)

lemma decode_loop_total:
  assumes "length data < 2 ^ 64" and "fields_ok msg"
  shows "decode_loop data pos msg \<noteq> Inl Panic \<and> (\<forall>m. decode_loop data pos msg = Inr m \<longrightarrow> fields_ok m)"
  using assms
proof (induction data pos msg rule: decode_loop.induct)
  case (1 data pos msg)
  show ?case
  proof (cases "pos < length data")
    case True
    show ?thesis
    proof (cases "decode_field data pos msg")
      case (Inl e)
      then have "decode_loop data pos msg = Inl e" using True by (subst decode_loop.simps) simp
      then show ?thesis using decode_field_no_panic [OF 1(2), of pos msg] Inl by simp
    next
      case (Inr r)
      obtain pos' msg' where r: "r = (pos', msg')" by fastforce
      have "decode_loop data pos msg = decode_loop data pos' msg'"
        using decode_loop_turn Inr r by blast
      moreover have "fields_ok msg'" using decode_field_fields_ok Inr r 1(3) by blast
      ultimately show ?thesis using 1(1) [OF True Inr r [symmetric] 1(2)] by simp
    qed
  next
    case False
    then show ?thesis using 1(3) by (simp add: decode_loop_end)
  qed
qed

section \<open>Properties\<close>

lemma string_ok_Nil [simp]: "string_ok []"
  by (simp add: string_ok_def as_bytes_def)

definition demo_message :: cast_message where
  "demo_message = \<lparr>source = ''sender-0'', destination = ''receiver-0'',
     namespace = ''urn:x-cast:foo'', payload = ''PING''\<rparr>"

lemma demo_message_ok: "message_ok demo_message"
proof -
  have "fields_ok demo_message" unfolding fields_ok_def string_ok_def by code_simp
  then show ?thesis by (simp add: message_ok_def fields_ok_def demo_message_def)
qed

text \<open>
  C21: Messages survive the wire. Decoding an encoded message gives back the message, for all
  strings that are strings (valid UTF-8) and fit in memory together.
\<close>

theorem cast_message_roundtrip:
  assumes "message_ok m"
  shows "decode_cast_message (encode_cast_message m) = Inr m"
  by (rule decode_encode [OF assms])

theorem cast_message_roundtrip_witness:
  "decode_cast_message (encode_cast_message demo_message) = Inr demo_message"
  by (rule cast_message_roundtrip [OF demo_message_ok])

text \<open>
  C22: The decoder is total on what a peer can send: no byte string makes it panic, it ends in an
  error or in a message, and the four fields of a message are valid strings even when the bytes
  were not UTF-8.
\<close>

theorem decode_never_panics:
  assumes "length data < 2 ^ 64"
  shows "decode_cast_message data \<noteq> Inl Panic \<and>
    (\<forall>m. decode_cast_message data = Inr m \<longrightarrow> fields_ok m)"
  unfolding decode_cast_message_def by (rule decode_loop_total [OF assms]) (simp add: fields_ok_def)

theorem decode_never_panics_witness:
  "decode_cast_message [0x12, 2, 0xC3, 0x28] \<noteq> Inl Panic"
  using decode_never_panics [of "[0x12, 2, 0xC3, 0x28]"] by simp

text \<open>
  A length prefix that claims more bytes than the message has is refused, whatever the claim:
  no \<open>u64\<close> value makes the bound wrap, however the field's key is encoded and whatever valid
  varint fields stand before it.
\<close>

theorem oversized_field_refused:
  assumes "ucast (key AND 0x7) = (2 :: u8)" and "length rest < unat len"
  shows "decode_cast_message (write_varint_field 1 v @ write_varint key @ write_varint len @ rest) =
    Inl FieldOverrun"
proof -
  let ?pre = "write_varint_field 1 v" let ?data = "?pre @ write_varint key @ write_varint len @ rest"
  define m0 where "m0 = \<lparr>source = [], destination = [], namespace = [], payload = []\<rparr>"
  let ?p = "length ?pre + length (write_varint key) + length (write_varint len)"
  have "read_varint ?data (length ?pre) = Inr (key, length ?pre + length (write_varint key))"
    by (rule read_write_varint)
  moreover have "read_varint ?data (length ?pre + length (write_varint key)) = Inr (len, ?p)"
    using read_write_varint [of "?pre @ write_varint key" len rest] by simp
  moreover have "of_nat (length ?data - ?p) < len"
  proof -
    have "length rest < 2 ^ 64" using assms(2) unat_u64_lt [of len] by linarith
    then have "unat (of_nat (length rest) :: u64) = length rest"
      by (simp only: unsigned_of_nat) (simp add: take_bit_nat_eq_self)
    then show ?thesis using assms(2) by (simp add: word_less_nat_alt)
  qed
  ultimately have f: "decode_field ?data (length ?pre) m0 = Inl FieldOverrun"
    using assms(1) by (simp add: decode_field_def Let_def)
  have "length (write_varint key) \<noteq> 0" by (subst write_varint.simps) simp
  then have "length ?pre < length ?data" by simp
  then have "decode_loop ?data (length ?pre) m0 = Inl FieldOverrun"
    using f by (subst decode_loop.simps) simp
  then show ?thesis
    using decode_loop_varint [of "push_bit 3 (ucast (1 :: u32))" "[]" v "write_varint key @ write_varint len @ rest" m0]
    by (simp add: write_varint_field_def decode_cast_message_def m0_def)
qed

theorem oversized_field_refused_witness:
  "decode_cast_message (write_varint_field 1 0 @ write_varint 0x12 @ write_varint 0xFFFFFFFFFFFFFFFF @ [1, 2, 3]) =
     Inl FieldOverrun"
  by (rule oversized_field_refused) simp_all

text \<open>
  Varints. Every \<open>u64\<close> is read back from its encoding wherever it stands, the reader stops
  right behind it, the encoding has at most ten bytes, and from any bytes the reader consumes at
  least one and at most ten.
\<close>

theorem varint_roundtrip:
  "read_varint (pre @ write_varint v @ post) (length pre) = Inr (v, length (pre @ write_varint v)) \<and>
   length (write_varint v) \<le> 10 \<and>
   (case read_varint data pos of Inl e \<Rightarrow> True | Inr (_, pos') \<Rightarrow> pos < pos' \<and> pos' \<le> pos + 10)"
  using read_write_varint [of pre v post] length_write_varint [of v] read_varint_pos [of data pos]
    read_varint_loop_bound [of data pos 0 0 _ _ 0]
  by (auto simp: read_varint_def split: sum.splits)

end
