(* ===== verification/Serde_Json.thy ===== *)
theory Serde_Json
  imports Cast_Prelude
begin

text \<open>
  The interface of \<open>serde_json\<close> as the crate uses it, a parameter of every definition that
  touches JSON: \<open>from_str\<close>, \<open>to_string\<close> and the accessors of \<open>Value\<close>, and the
  constructors the \<open>json!\<close> macro expands to. Nothing is assumed of it here. \<open>demo_serde\<close>
  is an instance for the witnesses, over a tree of values and a table of texts.
\<close>

record 'v serde =
  from_str :: "string \<Rightarrow> 'v option"
  to_text :: "'v \<Rightarrow> string"
  get :: "'v \<Rightarrow> string \<Rightarrow> 'v option"
  pointer :: "'v \<Rightarrow> string \<Rightarrow> 'v option"
  as_str :: "'v \<Rightarrow> string option"
  as_u64 :: "'v \<Rightarrow> u64 option"
  as_array :: "'v \<Rightarrow> 'v list option"
  j_obj :: "(string \<times> 'v) list \<Rightarrow> 'v"
  j_arr :: "'v list \<Rightarrow> 'v"
  j_str :: "string \<Rightarrow> 'v"
  j_num :: "int \<Rightarrow> 'v"
  j_bool :: "bool \<Rightarrow> 'v"

text \<open>\<open>v.get(key).and_then(|t| t.as_str())\<close> and the same for \<open>as_u64\<close>.\<close>

definition get_str :: "'v serde \<Rightarrow> 'v \<Rightarrow> string \<Rightarrow> string option" where
  "get_str js v key = Option.bind (get js v key) (as_str js)"

definition get_u64 :: "'v serde \<Rightarrow> 'v \<Rightarrow> string \<Rightarrow> u64 option" where
  "get_u64 js v key = Option.bind (get js v key) (as_u64 js)"

definition payload_type_is :: "'v serde \<Rightarrow> string \<Rightarrow> string \<Rightarrow> bool" where
  "payload_type_is js payload expected =
     (case from_str js payload of
        None \<Rightarrow> False
      | Some v \<Rightarrow> get_str js v ''type'' = Some expected)"

section \<open>An instance\<close>

datatype json_tree =
    JStr string | JNum int | JBool bool | JArr "json_tree list" | JObj "(string \<times> json_tree) list"

fun tree_get :: "json_tree \<Rightarrow> string \<Rightarrow> json_tree option" where
  "tree_get (JObj kvs) k = map_of kvs k"
| "tree_get _ k = None"

fun tree_str :: "json_tree \<Rightarrow> string option" where
  "tree_str (JStr s) = Some s"
| "tree_str _ = None"

fun tree_u64 :: "json_tree \<Rightarrow> u64 option" where
  "tree_u64 (JNum n) = (if 0 \<le> n \<and> n < 2 ^ 64 then Some (of_int n) else None)"
| "tree_u64 _ = None"

fun tree_array :: "json_tree \<Rightarrow> json_tree list option" where
  "tree_array (JArr vs) = Some vs"
| "tree_array _ = None"

text \<open>\<open>pointer\<close> for the one path the crate asks for.\<close>

definition tree_pointer :: "json_tree \<Rightarrow> string \<Rightarrow> json_tree option" where
  "tree_pointer v path =
     (if path = ''/status/applications''
      then Option.bind (tree_get v ''status'') (\<lambda>w. tree_get w ''applications'') else None)"

definition demo_serde :: "(string \<times> json_tree) list \<Rightarrow> json_tree serde" where
  "demo_serde texts =
     \<lparr>from_str = map_of texts,
      to_text = (\<lambda>v. case map_of (map (\<lambda>(s, w). (w, s)) texts) v of None \<Rightarrow> ''null'' | Some s \<Rightarrow> s),
      get = tree_get, pointer = tree_pointer, as_str = tree_str, as_u64 = tree_u64,
      as_array = tree_array, j_obj = JObj, j_arr = JArr, j_str = JStr, j_num = JNum, j_bool = JBool\<rparr>"

end
