(* ===== verification/Cast_Channel.thy ===== *)
theory Cast_Channel
  imports Cast_Message Serde_Json
begin

text \<open>
  \<open>src/cast_channel.rs\<close>: the Cast v2 channel. One dispatcher thread owns the TLS stream; it
  reassembles length-prefixed frames, answers PING, forwards every other message, drains the
  outbound queue, sends a PING every 5 s and gives up after 10 s of silence.

  The TLS stream is the bytes accepted so far and the fate of the next write calls; what a read
  returns, the clock and what the other side of the channel does are the inputs of a turn.
\<close>

section \<open>Constants\<close>

definition NS_CONNECTION :: string where
  "NS_CONNECTION = ''urn:x-cast:com.google.cast.tp.connection''"

definition NS_HEARTBEAT :: string where
  "NS_HEARTBEAT = ''urn:x-cast:com.google.cast.tp.heartbeat''"

definition NS_RECEIVER :: string where
  "NS_RECEIVER = ''urn:x-cast:com.google.cast.receiver''"

definition NS_WEBRTC :: string where
  "NS_WEBRTC = ''urn:x-cast:com.google.cast.webrtc''"

definition PLATFORM_RECEIVER_ID :: string where
  "PLATFORM_RECEIVER_ID = ''receiver-0''"

definition CLOSE_REASON_CLOSED_BY_PEER :: u32 where
  "CLOSE_REASON_CLOSED_BY_PEER = 5"

definition HEARTBEAT_INTERVAL :: nanos where
  "HEARTBEAT_INTERVAL = secs 5"

definition MAX_BODY_SIZE :: nat where
  "MAX_BODY_SIZE = 65536"

definition LIVENESS_TIMEOUT :: nanos where
  "LIVENESS_TIMEOUT = secs 10"

section \<open>Framing\<close>

text \<open>
  \<open>Inl n\<close> is the error for a declared length of \<open>n\<close>; otherwise the body, if there is a
  complete frame, and what is left of \<open>acc\<close>.
\<close>

definition take_frame :: "bytes \<Rightarrow> nat + bytes option \<times> bytes" where
  "take_frame acc =
     (if length acc < 4 then Inr (None, acc)
      else
        let len = unat (from_be32 (acc ! 0) (acc ! 1) (acc ! 2) (acc ! 3))
        in if MAX_BODY_SIZE < len then Inl len
           else if length acc < 4 + len then Inr (None, acc)
           else Inr (Some (take len (drop 4 acc)), drop len (drop 4 acc)))"

definition frame_bytes :: "cast_message \<Rightarrow> bytes" where
  "frame_bytes msg = (let body = encode_cast_message msg in to_be32 (of_nat (length body)) @ body)"

section \<open>The stream\<close>

text \<open>
  \<open>fates\<close> scripts the next calls that write: \<open>None\<close> succeeds, \<open>Some n\<close> fails after
  \<open>n\<close> bytes; past its end every call succeeds.
\<close>

record tls =
  wire :: bytes
  fates :: "nat option list"

definition next_fate :: "tls \<Rightarrow> nat option \<times> tls" where
  "next_fate t = (case fates t of [] \<Rightarrow> (None, t) | f # fs \<Rightarrow> (f, t\<lparr>fates := fs\<rparr>))"

definition write_all :: "bytes \<Rightarrow> tls \<Rightarrow> bool \<times> tls" where
  "write_all bs t =
     (case next_fate t of
        (None, t') \<Rightarrow> (True, t'\<lparr>wire := wire t' @ bs\<rparr>)
      | (Some n, t') \<Rightarrow> (False, t'\<lparr>wire := wire t' @ take n bs\<rparr>))"

definition flush :: "tls \<Rightarrow> bool \<times> tls" where
  "flush t = (case next_fate t of (None, t') \<Rightarrow> (True, t') | (Some n, t') \<Rightarrow> (False, t'))"

definition write_message :: "cast_message \<Rightarrow> tls \<Rightarrow> bool \<times> tls" where
  "write_message msg t =
     (let body = encode_cast_message msg;
          len = to_be32 (of_nat (length body));
          (ok1, t1) = write_all len t
      in if \<not> ok1 then (False, t1)
         else let (ok2, t2) = write_all body t1
              in if \<not> ok2 then (False, t2) else flush t2)"

section \<open>The dispatcher\<close>

text \<open>
  \<open>queue\<close> is the outbound channel, \<open>forwarded\<close> what went into the incoming one. \<open>me\<close> is
  \<open>local_sender_id()\<close>, fixed for the process.
\<close>

record dispatcher =
  tls_stream :: tls
  acc :: bytes
  last_ping :: nanos
  last_rx :: nanos
  stop_flag :: bool
  queue :: "cast_message list"
  forwarded :: "cast_message list"

text \<open>\<open>Data []\<close> is \<open>Ok(0)\<close>.\<close>

datatype read_outcome = Data bytes | WouldBlock | TimedOut | UnexpectedEof | ReadError

record turn_input =
  dropped :: bool
  arrivals :: "cast_message list"
  read :: read_outcome
  rx_at :: nanos
  disconnected :: bool
  ping_at :: nanos
  pinged_at :: nanos
  tick_at :: nanos

definition pong :: "string \<Rightarrow> string \<Rightarrow> cast_message" where
  \<open>pong me to = \<lparr>source = me, destination = to, namespace = NS_HEARTBEAT,
     payload = ''{"type":"PONG"}''\<rparr>\<close>

definition ping :: "string \<Rightarrow> cast_message" where
  \<open>ping me = \<lparr>source = me, destination = PLATFORM_RECEIVER_ID, namespace = NS_HEARTBEAT,
     payload = ''{"type":"PING"}''\<rparr>\<close>

text \<open>A write whose error is ignored.\<close>

definition write_ignored :: "cast_message \<Rightarrow> dispatcher \<Rightarrow> dispatcher" where
  "write_ignored msg d = d\<lparr>tls_stream := snd (write_message msg (tls_stream d))\<rparr>"

definition handle_body :: "'v serde \<Rightarrow> string \<Rightarrow> bytes \<Rightarrow> dispatcher \<Rightarrow> dispatcher" where
  "handle_body js me body d =
     (case decode_cast_message body of
        Inl e \<Rightarrow> d
      | Inr msg \<Rightarrow>
          if namespace msg = NS_HEARTBEAT then
            if payload_type_is js (payload msg) ''PING'' then write_ignored (pong me (source msg)) d
            else d
          else d\<lparr>forwarded := forwarded d @ [msg]\<rparr>)"

lemma take_frame_shorter: "take_frame buf = Inr (Some body, rest) \<Longrightarrow> length rest < length buf"
  by (auto simp: take_frame_def Let_def split: if_splits)

text \<open>The inner loop; \<open>False\<close> is a framing error, which ends the session.\<close>

lemma handle_body_acc: "acc (handle_body js me body d) = acc d"
  by (simp add: handle_body_def write_ignored_def split: sum.split)

function frame_loop :: "'v serde \<Rightarrow> string \<Rightarrow> dispatcher \<Rightarrow> dispatcher \<times> bool" where
  "frame_loop js me d =
     (case take_frame (acc d) of
        Inl e \<Rightarrow> (d, False)
      | Inr (None, rest) \<Rightarrow> (d, True)
      | Inr (Some body, rest) \<Rightarrow> frame_loop js me (handle_body js me body (d\<lparr>acc := rest\<rparr>)))"
  by pat_completeness auto
termination
  by (relation "measure (\<lambda>(js, me, d). length (acc d))") (auto simp: handle_body_acc dest: take_frame_shorter)

declare frame_loop.simps [simp del]

text \<open>
  The loop on the outbound channel: messages are taken until it is empty, disconnected or a write
  fails; the latter two raise the stop flag.
\<close>

fun drain_outbound :: "bool \<Rightarrow> cast_message list \<Rightarrow> dispatcher \<Rightarrow> dispatcher" where
  "drain_outbound disc [] d = d\<lparr>queue := [], stop_flag := stop_flag d \<or> disc\<rparr>"
| "drain_outbound disc (msg # msgs) d =
     (let (ok, t) = write_message msg (tls_stream d)
      in if ok then drain_outbound disc msgs (d\<lparr>tls_stream := t\<rparr>)
         else d\<lparr>tls_stream := t, queue := msgs, stop_flag := True\<rparr>)"

text \<open>\<open>now\<close> is the clock of \<open>last_ping.elapsed()\<close>, \<open>sent\<close> that of \<open>Instant::now()\<close> after the write.\<close>

definition heartbeat :: "string \<Rightarrow> nanos \<Rightarrow> nanos \<Rightarrow> dispatcher \<Rightarrow> dispatcher" where
  "heartbeat me now sent d =
     (if HEARTBEAT_INTERVAL \<le> now - last_ping d then (write_ignored (ping me) d)\<lparr>last_ping := sent\<rparr> else d)"

definition receive_bytes :: "read_outcome \<Rightarrow> nanos \<Rightarrow> dispatcher \<Rightarrow> dispatcher option" where
  "receive_bytes r now d =
     (case r of
        Data bs \<Rightarrow> if bs = [] then None else Some (d\<lparr>acc := acc d @ bs, last_rx := now\<rparr>)
      | WouldBlock \<Rightarrow> Some d
      | TimedOut \<Rightarrow> Some d
      | UnexpectedEof \<Rightarrow> None
      | ReadError \<Rightarrow> None)"

text \<open>
  One turn of \<open>'session\<close>, its condition included; \<open>False\<close> when the loop ends with it.
  \<open>arrivals\<close> are the messages the owner enqueued since the last drain, \<open>dropped\<close> tells that it
  raised the stop flag before this turn.
\<close>

definition enqueue :: "turn_input \<Rightarrow> dispatcher \<Rightarrow> dispatcher" where
  "enqueue i d = d\<lparr>queue := queue d @ arrivals i, stop_flag := stop_flag d \<or> dropped i\<rparr>"

definition turn :: "'v serde \<Rightarrow> string \<Rightarrow> turn_input \<Rightarrow> dispatcher \<Rightarrow> dispatcher \<times> bool" where
  "turn js me i d0 =
     (let d = enqueue i d0
      in if stop_flag d then (d, False)
         else case receive_bytes (read i) (rx_at i) d of
           None \<Rightarrow> (d, False)
         | Some d1 \<Rightarrow>
             let (d2, framed) = frame_loop js me d1
             in if \<not> framed then (d2, False)
                else let d4 = heartbeat me (ping_at i) (pinged_at i)
                       (drain_outbound (disconnected i) (queue d2) d2)
                     in (d4, \<not> LIVENESS_TIMEOUT \<le> tick_at i - last_rx d4))"

fun session :: "'v serde \<Rightarrow> string \<Rightarrow> turn_input list \<Rightarrow> dispatcher \<Rightarrow> dispatcher \<times> bool" where
  "session js me [] d = (d, True)"
| "session js me (i # is) d =
     (let (d', on) = turn js me i d in if on then session js me is d' else (d', False))"

text \<open>The drain after the loop, with the messages that arrived since the last one.\<close>

fun shutdown_drain :: "cast_message list \<Rightarrow> dispatcher \<Rightarrow> dispatcher" where
  "shutdown_drain [] d = d\<lparr>queue := []\<rparr>"
| "shutdown_drain (msg # msgs) d =
     (let (ok, t) = write_message msg (tls_stream d)
      in if ok then shutdown_drain msgs (d\<lparr>tls_stream := t\<rparr>) else d\<lparr>tls_stream := t, queue := msgs\<rparr>)"

definition dispatcher_start :: "tls \<Rightarrow> nanos \<Rightarrow> dispatcher" where
  "dispatcher_start t now = \<lparr>tls_stream = t, acc = [], last_ping = now, last_rx = now,
     stop_flag = False, queue = [], forwarded = []\<rparr>"

definition dispatcher_run ::
  "'v serde \<Rightarrow> string \<Rightarrow> turn_input list \<Rightarrow> cast_message list \<Rightarrow> dispatcher \<Rightarrow> dispatcher option" where
  "dispatcher_run js me is late d =
     (case session js me is d of
        (d', True) \<Rightarrow> None
      | (d', False) \<Rightarrow> Some (shutdown_drain (queue d' @ late) d'))"

section \<open>The owner's side\<close>

text \<open>\<open>digits\<close> is \<open>{}\<close> of an unsigned integer in \<open>format!\<close>.\<close>

fun digits :: "nat \<Rightarrow> string" where
  "digits n = (if n < 10 then [char_of (48 + n)] else digits (n div 10) @ [char_of (48 + n mod 10)])"

declare digits.simps [simp del]

text \<open>The \<open>OnceLock\<close>: the first draw of the random number is kept.\<close>

definition local_sender_id :: "nat \<Rightarrow> string option \<Rightarrow> string \<times> string option" where
  "local_sender_id draw cell =
     (case cell of
        Some s \<Rightarrow> (s, cell)
      | None \<Rightarrow> let s = ''sender-'' @ digits draw in (s, Some s))"

definition build_connect_payload :: "'v serde \<Rightarrow> bool \<Rightarrow> string \<Rightarrow> 'v" where
  "build_connect_payload js windows version =
     (let os = (if windows then ''Windows'' else ''Linux'');
          platform = (if windows then 3 else 6);
          user_agent = ''chromecast-sink/'' @ version @ '' ('' @ os @ ''; Rust)''
      in j_obj js
          [(''type'', j_str js ''CONNECT''),
           (''userAgent'', j_str js user_agent),
           (''connType'', j_num js 0),
           (''origin'', j_obj js []),
           (''senderInfo'', j_obj js
             [(''sdkType'', j_num js 2),
              (''version'', j_str js version),
              (''browserVersion'', j_str js version),
              (''platform'', j_num js platform),
              (''connectionType'', j_num js 1),
              (''systemVersion'', j_str js os)])])"

text \<open>
  The owner's end: what it has sent and is not yet taken by the dispatcher, and whether the
  dispatcher (hence the receiving end of \<open>outbound\<close>) is still there.
\<close>

record channel_end =
  outbound :: "cast_message list"
  alive :: bool
  stop_set :: bool
  joined :: bool

definition send :: "cast_message \<Rightarrow> channel_end \<Rightarrow> (string + unit) \<times> channel_end" where
  "send msg c =
     (if alive c then (Inr (), c\<lparr>outbound := outbound c @ [msg]\<rparr>) else (Inl ''dispatcher gone'', c))"

definition send_json ::
  "'v serde \<Rightarrow> string \<Rightarrow> string \<Rightarrow> string \<Rightarrow> 'v \<Rightarrow> channel_end \<Rightarrow> (string + unit) \<times> channel_end" where
  "send_json js me dst ns v c =
     send \<lparr>source = me, destination = dst, namespace = ns, payload = to_text js v\<rparr> c"

definition connect_transport ::
  "'v serde \<Rightarrow> bool \<Rightarrow> string \<Rightarrow> string \<Rightarrow> string \<Rightarrow> channel_end \<Rightarrow> (string + unit) \<times> channel_end" where
  "connect_transport js windows version me dst c =
     send_json js me dst NS_CONNECTION (build_connect_payload js windows version) c"

definition close_payload :: "'v serde \<Rightarrow> 'v" where
  "close_payload js = j_obj js
     [(''type'', j_str js ''CLOSE''), (''reasonCode'', j_num js (uint CLOSE_REASON_CLOSED_BY_PEER))]"

definition close_transport ::
  "'v serde \<Rightarrow> string \<Rightarrow> string \<Rightarrow> channel_end \<Rightarrow> (string + unit) \<times> channel_end" where
  "close_transport js me dst c = send_json js me dst NS_CONNECTION (close_payload js) c"

definition drop_channel :: "channel_end \<Rightarrow> channel_end" where
  "drop_channel c = c\<lparr>stop_set := True, alive := False, joined := True\<rparr>"

section \<open>Connecting\<close>

datatype connect_error =
    ResolveFailed | TcpFailed io_kind | StepFailed tls_step | WriteFailed
and io_kind = AddrNotAvailable | DialError nat
and tls_step = SetReadTimeout | SetWriteTimeout | ParseServerName | ClientInit | Handshake | SetPollTimeout

text \<open>
  \<open>addrs\<close> is what the resolver returned, \<open>dial\<close> the outcome of \<open>connect_timeout\<close>;
  \<open>find_map\<close> stops at the first address that connects and the last error is reported.
\<close>

fun dial_first :: "('a \<Rightarrow> nat option) \<Rightarrow> 'a list \<Rightarrow> nat option \<Rightarrow> 'a option \<times> nat option" where
  "dial_first dial [] last_err = (None, last_err)"
| "dial_first dial (a # as) last_err =
     (case dial a of None \<Rightarrow> (Some a, last_err) | Some e \<Rightarrow> dial_first dial as (Some e))"

text \<open>The fallible calls between the TCP connection and the first message, in order; each has its \<open>?\<close>.\<close>

definition tls_steps :: "tls_step list" where
  "tls_steps = [SetReadTimeout, SetWriteTimeout, ParseServerName, ClientInit, Handshake, SetPollTimeout]"

definition connect ::
  "'v serde \<Rightarrow> bool \<Rightarrow> string \<Rightarrow> string \<Rightarrow> 'a list option \<Rightarrow> ('a \<Rightarrow> nat option) \<Rightarrow> (tls_step \<Rightarrow> bool)
     \<Rightarrow> nat option list \<Rightarrow> nanos \<Rightarrow> connect_error + 'a \<times> channel_end \<times> dispatcher" where
  "connect js windows version me addrs dial succeeds fs now =
     (case addrs of
        None \<Rightarrow> Inl ResolveFailed
      | Some as \<Rightarrow>
          case dial_first dial as None of
            (None, last_err) \<Rightarrow>
              Inl (TcpFailed (case last_err of None \<Rightarrow> AddrNotAvailable | Some e \<Rightarrow> DialError e))
          | (Some a, _) \<Rightarrow>
              (case find (\<lambda>step. \<not> succeeds step) tls_steps of
                 Some step \<Rightarrow> Inl (StepFailed step)
               | None \<Rightarrow>
                let msg = \<lparr>source = me, destination = PLATFORM_RECEIVER_ID, namespace = NS_CONNECTION,
                           payload = to_text js (build_connect_payload js windows version)\<rparr>;
                    (ok, t) = write_message msg \<lparr>wire = [], fates = fs\<rparr>
                in if \<not> ok then Inl WriteFailed
                   else Inr (a, \<lparr>outbound = [], alive = True, stop_set = False, joined = False\<rparr>,
                             dispatcher_start t now)))"

end
