(* ===== verification/Dispatcher.thy ===== *)
theory Dispatcher
  imports Cast_Channel
begin

text \<open>
  What the dispatcher of \<open>src/cast_channel.rs\<close> guarantees: reassembly that does not depend on how
  the socket cuts the stream, bounded memory, delivery in both directions, and a bounded silence.

  The locale \<open>incremental\<close> is the contract between the framing and the read loop: a framer that
  answers on a prefix answers the same when more bytes follow. \<open>take_frame\<close> provides it.
\<close>

section \<open>Incremental framing\<close>

text \<open>Reading chunk after chunk, each time taking all complete frames.\<close>

fun feed ::
  "('b list \<Rightarrow> 'f list \<times> 'b list \<times> 'e option) \<Rightarrow> 'b list list \<Rightarrow> 'b list
     \<Rightarrow> 'f list \<times> 'b list \<times> 'e option" where
  "feed drain [] buf = ([], buf, None)"
| "feed drain (c # cs) buf =
     (case drain (buf @ c) of
        (fs, rest, Some e) \<Rightarrow> (fs, rest, Some e)
      | (fs, rest, None) \<Rightarrow> let (fs', r) = feed drain cs rest in (fs @ fs', r))"

locale incremental =
  fixes take_one :: "'b list \<Rightarrow> 'e + 'f option \<times> 'b list"
    and drain :: "'b list \<Rightarrow> 'f list \<times> 'b list \<times> 'e option"
  assumes drain_err: "take_one buf = Inl e \<Longrightarrow> drain buf = ([], buf, Some e)"
    and drain_none: "take_one buf = Inr (None, rest) \<Longrightarrow> drain buf = ([], buf, None)"
    and drain_some: "take_one buf = Inr (Some f, rest) \<Longrightarrow>
      drain buf = (f # fst (drain rest), snd (drain rest))"
    and progress: "take_one buf = Inr (Some f, rest) \<Longrightarrow> length rest < length buf"
    and more_some: "take_one buf = Inr (Some f, rest) \<Longrightarrow> take_one (buf @ xs) = Inr (Some f, rest @ xs)"
    and more_err: "take_one buf = Inl e \<Longrightarrow> take_one (buf @ xs) = Inl e"
begin

lemma drain_rest:
  assumes "drain buf = (fs, rest, None)"
  shows "\<exists>r. take_one rest = Inr (None, r)"
  using assms
proof (induction "length buf" arbitrary: buf fs rule: less_induct)
  case less
  show ?case
  proof (cases "take_one buf")
    case (Inl e)
    then show ?thesis using less(2) by (simp add: drain_err)
  next
    case (Inr p)
    then obtain o1 r where p: "take_one buf = Inr (o1, r)" by (cases p) auto
    show ?thesis
    proof (cases o1)
      case None
      then show ?thesis using p less(2) drain_none by fastforce
    next
      case (Some f)
      then have t: "take_one buf = Inr (Some f, r)" using p by simp
      then have "drain r = (tl fs, rest, None)"
        using less(2) drain_some [OF t] by (metis list.sel(3) prod.collapse prod.inject)
      then show ?thesis using less(1) [OF progress [OF t]] by blast
    qed
  qed
qed

lemma drain_append:
  assumes "drain buf = (fs, rest, None)"
  shows "drain (buf @ xs) = (fs @ fst (drain (rest @ xs)), snd (drain (rest @ xs)))"
  using assms
proof (induction "length buf" arbitrary: buf fs rule: less_induct)
  case less
  show ?case
  proof (cases "take_one buf")
    case (Inl e)
    then show ?thesis using less(2) by (simp add: drain_err)
  next
    case (Inr p)
    then obtain o1 r where p: "take_one buf = Inr (o1, r)" by (cases p) auto
    show ?thesis
    proof (cases o1)
      case None
      then show ?thesis using p less(2) drain_none by fastforce
    next
      case (Some f)
      then have t: "take_one buf = Inr (Some f, r)" using p by simp
      obtain fs' where fs: "fs = f # fs'" "drain r = (fs', rest, None)"
        using less(2) drain_some [OF t] by (cases "drain r") auto
      show ?thesis
        using less(1) [OF progress [OF t] fs(2)] drain_some [OF more_some [OF t]] fs(1) by simp
    qed
  qed
qed

lemma drain_append_err:
  assumes "drain buf = (fs, rest, Some e)"
  shows "drain (buf @ xs) = (fs, rest @ xs, Some e)"
  using assms
proof (induction "length buf" arbitrary: buf fs rule: less_induct)
  case less
  show ?case
  proof (cases "take_one buf")
    case (Inl e')
    then show ?thesis using less(2) drain_err [OF more_err [OF Inl]] by (simp add: drain_err)
  next
    case (Inr p)
    then obtain o1 r where p: "take_one buf = Inr (o1, r)" by (cases p) auto
    show ?thesis
    proof (cases o1)
      case None
      then show ?thesis using p less(2) drain_none by fastforce
    next
      case (Some f)
      then have t: "take_one buf = Inr (Some f, r)" using p by simp
      obtain fs' where fs: "fs = f # fs'" "drain r = (fs', rest, Some e)"
        using less(2) drain_some [OF t] by (cases "drain r") auto
      show ?thesis
        using less(1) [OF progress [OF t] fs(2)] drain_some [OF more_some [OF t]] fs(1) by simp
    qed
  qed
qed

text \<open>The frames and the error do not depend on how the stream is cut into chunks.\<close>

theorem feed_drain:
  assumes "take_one buf = Inr (None, r)" and "feed drain cs buf = (fs, rest, e)"
  shows "\<exists>rest'. drain (buf @ concat cs) = (fs, rest', e) \<and> (e = None \<longrightarrow> rest' = rest)"
  using assms
proof (induction cs arbitrary: buf r fs)
  case Nil
  then show ?case using drain_none by auto
next
  case (Cons c cs)
  obtain fs1 rest1 e1 where d: "drain (buf @ c) = (fs1, rest1, e1)" by (cases "drain (buf @ c)") auto
  show ?case
  proof (cases e1)
    case None
    obtain fs2 where f: "feed drain cs rest1 = (fs2, rest, e)" "fs = fs1 @ fs2"
      using Cons(3) d None by (auto split: prod.splits)
    obtain r1 where "take_one rest1 = Inr (None, r1)" using drain_rest d None by blast
    from Cons(1) [OF this f(1)] obtain rest' where
      r: "drain (rest1 @ concat cs) = (fs2, rest', e)" "e = None \<longrightarrow> rest' = rest" by blast
    show ?thesis
      using drain_append [OF d [unfolded None], of "concat cs"] r f(2) by simp
  next
    case (Some e')
    then have "fs = fs1" "rest = rest1" "e = Some e'" using Cons(3) d by auto
    then show ?thesis using drain_append_err [OF d [unfolded Some], of "concat cs"] by simp
  qed
qed

end

text \<open>All complete frames of a buffer, as the inner loop of the dispatcher takes them.\<close>

function drain_frames :: "bytes \<Rightarrow> bytes list \<times> bytes \<times> nat option" where
  "drain_frames buf =
     (case take_frame buf of
        Inl n \<Rightarrow> ([], buf, Some n)
      | Inr (None, rest) \<Rightarrow> ([], buf, None)
      | Inr (Some body, rest) \<Rightarrow> (let (fs, r) = drain_frames rest in (body # fs, r)))"
  by pat_completeness auto
termination
  by (relation "measure length") (auto dest: take_frame_shorter)

declare drain_frames.simps [simp del]

lemma take_frame_more:
  "take_frame buf = Inr (Some body, rest) \<Longrightarrow> take_frame (buf @ xs) = Inr (Some body, rest @ xs)"
  by (auto simp: take_frame_def Let_def nth_append split: if_splits)

lemma take_frame_more_err: "take_frame buf = Inl n \<Longrightarrow> take_frame (buf @ xs) = Inl n"
  by (auto simp: take_frame_def Let_def nth_append split: if_splits)

interpretation cast_frames: incremental take_frame drain_frames
proof
  fix buf xs :: bytes and f rest e
  show "take_frame buf = Inl e \<Longrightarrow> drain_frames buf = ([], buf, Some e)"
    by (subst drain_frames.simps) simp
  show "take_frame buf = Inr (None, rest) \<Longrightarrow> drain_frames buf = ([], buf, None)"
    by (subst drain_frames.simps) simp
  show "take_frame buf = Inr (Some f, rest) \<Longrightarrow>
      drain_frames buf = (f # fst (drain_frames rest), snd (drain_frames rest))"
    by (subst drain_frames.simps) (simp add: case_prod_beta)
qed (fact take_frame_shorter take_frame_more take_frame_more_err)+

section \<open>Frames on the wire\<close>

definition body_ok :: "bytes \<Rightarrow> bool" where
  "body_ok body \<longleftrightarrow> length body \<le> MAX_BODY_SIZE"

definition frame :: "bytes \<Rightarrow> bytes" where
  "frame body = to_be32 (of_nat (length body)) @ body"

lemma frame_bytes_frame: "frame_bytes msg = frame (encode_cast_message msg)"
  by (simp add: frame_bytes_def frame_def Let_def)

lemma take_frame_frame:
  assumes "body_ok body"
  shows "take_frame (frame body @ tail) = Inr (Some body, tail)"
proof -
  have "unat (of_nat (length body) :: u32) = length body"
    using assms by (simp only: unsigned_of_nat) (simp add: take_bit_nat_eq_self body_ok_def MAX_BODY_SIZE_def)
  moreover have "length body \<le> 65536" using assms by (simp add: body_ok_def MAX_BODY_SIZE_def)
  ultimately show ?thesis
    by (simp add: take_frame_def frame_def to_be32_def Let_def byte_simps MAX_BODY_SIZE_def)
qed

lemma drain_frames_encoded:
  assumes "\<forall>b \<in> set bodies. body_ok b" and "take_frame tail = Inr (None, r)"
  shows "drain_frames (concat (map frame bodies) @ tail) = (bodies, tail, None)"
  using assms(1)
proof (induction bodies)
  case Nil
  then show ?case using cast_frames.drain_none [OF assms(2)] by simp
next
  case (Cons b bs)
  then show ?case using cast_frames.drain_some [OF take_frame_frame [of b "concat (map frame bs) @ tail"]] by simp
qed

lemma take_frame_Nil: "take_frame [] = Inr (None, [])"
  by (simp add: take_frame_def)

text \<open>A buffer without a complete frame is short.\<close>

lemma take_frame_None: "take_frame buf = Inr (None, r) \<Longrightarrow> r = buf \<and> length buf < 4 + MAX_BODY_SIZE"
  by (auto simp: take_frame_def Let_def MAX_BODY_SIZE_def split: if_splits)

section \<open>The inner loop is a fold over the frames\<close>

lemma frame_loop_fold:
  "frame_loop js me d = (let (fs, rest, e) = drain_frames (acc d)
     in ((fold (handle_body js me) fs d)\<lparr>acc := rest\<rparr>, e = None))"
proof (induction js me d rule: frame_loop.induct)
  case (1 js me d)
  have acc_swap: "(handle_body js me b d')\<lparr>acc := r\<rparr> = handle_body js me b (d'\<lparr>acc := r\<rparr>)" for b d' r
    by (simp add: handle_body_def write_ignored_def split: sum.split)
  have fold_swap: "(fold (handle_body js me) fs d')\<lparr>acc := r\<rparr> = fold (handle_body js me) fs (d'\<lparr>acc := r\<rparr>)" for fs d' r
    by (induction fs arbitrary: d') (simp_all add: acc_swap)
  show ?case
  proof (cases "take_frame (acc d)")
    case (Inl e)
    then show ?thesis by (simp add: frame_loop.simps [of js me d] cast_frames.drain_err)
  next
    case (Inr p)
    then obtain o1 rest where p: "take_frame (acc d) = Inr (o1, rest)" by (cases p) auto
    show ?thesis
    proof (cases o1)
      case None
      then show ?thesis using p by (simp add: frame_loop.simps [of js me d] cast_frames.drain_none)
    next
      case (Some body)
      then have t: "take_frame (acc d) = Inr (Some body, rest)" using p by simp
      obtain fs r e where dr: "drain_frames rest = (fs, r, e)" by (cases "drain_frames rest") auto
      have "frame_loop js me d = frame_loop js me (handle_body js me body (d\<lparr>acc := rest\<rparr>))"
        by (subst frame_loop.simps) (simp add: t)
      also have "\<dots> = ((fold (handle_body js me) fs (handle_body js me body (d\<lparr>acc := rest\<rparr>)))\<lparr>acc := r\<rparr>, e = None)"
        using 1 [OF p refl Some] by (simp add: handle_body_acc dr)
      finally show ?thesis
        by (simp add: cast_frames.drain_some [OF t] dr fold_swap acc_swap)
    qed
  qed
qed

text \<open>What the loop forwards and answers.\<close>

definition decoded :: "bytes list \<Rightarrow> cast_message list" where
  "decoded bodies = concat (map (\<lambda>b. case decode_cast_message b of Inl e \<Rightarrow> [] | Inr m \<Rightarrow> [m]) bodies)"

definition inbox :: "bytes list \<Rightarrow> cast_message list" where
  "inbox bodies = filter (\<lambda>m. namespace m \<noteq> NS_HEARTBEAT) (decoded bodies)"

definition pongs :: "'v serde \<Rightarrow> string \<Rightarrow> bytes list \<Rightarrow> cast_message list" where
  "pongs js me bodies = map (\<lambda>m. pong me (source m))
     (filter (\<lambda>m. namespace m = NS_HEARTBEAT \<and> payload_type_is js (payload m) ''PING'') (decoded bodies))"

lemmas bodies_simps = decoded_def inbox_def pongs_def

lemma fold_handle_forwarded:
  "forwarded (fold (handle_body js me) fs d) = forwarded d @ inbox fs"
  by (induction fs arbitrary: d)
    (auto simp: handle_body_def write_ignored_def bodies_simps split: sum.split)

lemma fold_handle_frame:
  "last_rx (fold (handle_body js me) fs d) = last_rx d \<and> last_ping (fold (handle_body js me) fs d) = last_ping d \<and>
   stop_flag (fold (handle_body js me) fs d) = stop_flag d \<and> queue (fold (handle_body js me) fs d) = queue d"
  by (induction fs arbitrary: d) (simp_all add: handle_body_def write_ignored_def split: sum.split)

text \<open>Writing without faults.\<close>

lemma write_message_ok:
  "fates t = [] \<Longrightarrow> write_message msg t = (True, t\<lparr>wire := wire t @ frame_bytes msg\<rparr>)"
  by (simp add: write_message_def write_all_def flush_def next_fate_def Let_def frame_bytes_def)

lemma fold_handle_wire:
  "fates (tls_stream d) = [] \<Longrightarrow>
   tls_stream (fold (handle_body js me) fs d) =
     (tls_stream d)\<lparr>wire := wire (tls_stream d) @ concat (map frame_bytes (pongs js me fs))\<rparr>"
  by (induction fs arbitrary: d)
    (auto simp: handle_body_def write_ignored_def bodies_simps write_message_ok split: sum.split)

lemma drain_outbound_ok:
  "fates (tls_stream d) = [] \<Longrightarrow> drain_outbound disc q d =
     d\<lparr>tls_stream := (tls_stream d)\<lparr>wire := wire (tls_stream d) @ concat (map frame_bytes q)\<rparr>,
       queue := [], stop_flag := stop_flag d \<or> disc\<rparr>"
  by (induction q arbitrary: d) (simp_all add: write_message_ok)

lemma shutdown_drain_ok:
  "fates (tls_stream d) = [] \<Longrightarrow> shutdown_drain q d =
     d\<lparr>tls_stream := (tls_stream d)\<lparr>wire := wire (tls_stream d) @ concat (map frame_bytes q)\<rparr>,
       queue := []\<rparr>"
  by (induction q arbitrary: d) (simp_all add: write_message_ok)

lemma drain_outbound_frame:
  "acc (drain_outbound disc q d) = acc d \<and> last_rx (drain_outbound disc q d) = last_rx d \<and>
   last_ping (drain_outbound disc q d) = last_ping d \<and> forwarded (drain_outbound disc q d) = forwarded d"
  by (induction q arbitrary: d) (simp_all add: case_prod_beta)

lemma heartbeat_frame:
  "acc (heartbeat me now snt d) = acc d \<and> last_rx (heartbeat me now snt d) = last_rx d \<and>
   forwarded (heartbeat me now snt d) = forwarded d \<and> queue (heartbeat me now snt d) = queue d"
  by (simp add: heartbeat_def write_ignored_def)

section \<open>Turns and sessions\<close>

definition rd_bytes :: "turn_input \<Rightarrow> bytes" where
  "rd_bytes i = (case read i of Data bs \<Rightarrow> bs | _ \<Rightarrow> [])"

text \<open>When data was last read.\<close>

definition rx_time :: "turn_input \<Rightarrow> nanos \<Rightarrow> nanos" where
  "rx_time i t = (if rd_bytes i = [] then t else rx_at i)"

text \<open>When a PING was last due, from the clock of the turns alone.\<close>

definition ping_time :: "turn_input \<Rightarrow> nanos \<Rightarrow> nanos" where
  "ping_time i t = (if t + secs 5 \<le> ping_at i then pinged_at i else t)"

lemma receive_bytes_Some:
  "receive_bytes (read i) (rx_at i) d = Some d1 \<Longrightarrow>
     d1 = d\<lparr>acc := acc d @ rd_bytes i, last_rx := rx_time i (last_rx d)\<rparr>"
  by (auto simp: receive_bytes_def rd_bytes_def rx_time_def split: read_outcome.splits if_splits)

lemma turn_continues:
  assumes "turn js me i d = (d', True)"
  shows "\<exists>fs. drain_frames (acc d @ rd_bytes i) = (fs, acc d', None) \<and>
    forwarded d' = forwarded d @ inbox fs \<and> last_rx d' = rx_time i (last_rx d) \<and>
    tick_at i < last_rx d' + LIVENESS_TIMEOUT"
proof -
  obtain d1 where d1: "receive_bytes (read i) (rx_at i) (enqueue i d) = Some d1"
    using assms by (auto simp: turn_def Let_def split: if_splits option.splits)
  obtain d2 where d2: "frame_loop js me d1 = (d2, True)"
    using assms d1 by (auto simp: turn_def Let_def split: if_splits prod.splits)
  define d3 where "d3 = drain_outbound (disconnected i) (queue d2) d2"
  have d': "d' = heartbeat me (ping_at i) (pinged_at i) d3" and alive: "\<not> LIVENESS_TIMEOUT \<le> tick_at i - last_rx d'"
    using assms d1 d2 by (auto simp: turn_def Let_def d3_def split: if_splits)
  note a = receive_bytes_Some [OF d1]
  have acc1: "acc d1 = acc d @ rd_bytes i" using a by (simp add: enqueue_def)
  obtain fs rest where dr: "drain_frames (acc d @ rd_bytes i) = (fs, rest, None)"
      and d2': "d2 = (fold (handle_body js me) fs d1)\<lparr>acc := rest\<rparr>"
    using d2 acc1 by (auto simp: frame_loop_fold Let_def split: prod.splits)
  have "tick_at i < last_rx d' + LIVENESS_TIMEOUT" using alive by linarith
  then show ?thesis
    using dr fold_handle_frame [of js me fs d1] a
    by (simp add: d' d3_def drain_outbound_frame heartbeat_frame d2' fold_handle_forwarded enqueue_def)
qed

lemma decoded_append: "decoded (xs @ ys) = decoded xs @ decoded ys"
  by (simp add: decoded_def)

lemma inbox_append: "inbox (xs @ ys) = inbox xs @ inbox ys"
  by (simp add: inbox_def decoded_append)

lemma session_feed:
  assumes "session js me is d = (d', True)"
  shows "\<exists>fs. feed drain_frames (map rd_bytes is) (acc d) = (fs, acc d', None) \<and>
    forwarded d' = forwarded d @ inbox fs \<and> last_rx d' = fold rx_time is (last_rx d)"
  using assms
proof (induction js me "is" d rule: session.induct)
  case (1 js me d)
  then show ?case by (simp add: inbox_def decoded_def)
next
  case (2 js me i "is" d)
  obtain d1 where t: "turn js me i d = (d1, True)"
    using 2(2) by (auto split: prod.splits if_splits)
  then have s: "session js me is d1 = (d', True)" using 2(2) by simp
  obtain fs where fs: "drain_frames (acc d @ rd_bytes i) = (fs, acc d1, None)"
      "forwarded d1 = forwarded d @ inbox fs" "last_rx d1 = rx_time i (last_rx d)"
    using turn_continues [OF t] by blast
  obtain gs where "feed drain_frames (map rd_bytes is) (acc d1) = (gs, acc d', None)"
      "forwarded d' = forwarded d1 @ inbox gs" "last_rx d' = fold rx_time is (last_rx d1)"
    using 2(1) [OF t [symmetric] refl _ s] by auto
  then show ?case using fs by (simp add: inbox_append)
qed

lemma turn_last_ping:
  assumes "turn js me i d = (d', True)"
  shows "last_ping d' = ping_time i (last_ping d)"
proof -
  obtain d1 where d1: "receive_bytes (read i) (rx_at i) (enqueue i d) = Some d1"
    using assms by (auto simp: turn_def Let_def split: if_splits option.splits)
  obtain d2 where d2: "frame_loop js me d1 = (d2, True)"
    using assms d1 by (auto simp: turn_def Let_def split: if_splits prod.splits)
  have "last_ping d2 = last_ping d"
    using d2 receive_bytes_Some [OF d1] fold_handle_frame [of js me _ d1]
    by (auto simp: frame_loop_fold Let_def enqueue_def split: prod.splits)
  moreover have "d' = heartbeat me (ping_at i) (pinged_at i) (drain_outbound (disconnected i) (queue d2) d2)"
    using assms d1 d2 by (auto simp: turn_def Let_def split: if_splits)
  moreover have "HEARTBEAT_INTERVAL \<le> ping_at i - x \<longleftrightarrow> x + secs 5 \<le> ping_at i" for x
    by (auto simp: HEARTBEAT_INTERVAL_def secs_def)
  ultimately show ?thesis using drain_outbound_frame [of "disconnected i" "queue d2" d2]
    by (simp add: heartbeat_def write_ignored_def ping_time_def)
qed

lemma session_last_ping:
  assumes "session js me is d = (d', True)"
  shows "last_ping d' = fold ping_time is (last_ping d)"
  using assms
proof (induction js me "is" d rule: session.induct)
  case (2 js me i "is" d)
  obtain d1 where t: "turn js me i d = (d1, True)"
    using 2(2) by (auto split: prod.splits if_splits)
  then have s: "session js me is d1 = (d', True)" using 2(2) by simp
  show ?case using 2(1) [OF t [symmetric] refl _ s] turn_last_ping [OF t] by simp
qed simp

lemma session_drain:
  assumes "session js me is d = (d', True)" and "take_frame (acc d) = Inr (None, r)"
  shows "\<exists>fs. drain_frames (acc d @ concat (map rd_bytes is)) = (fs, acc d', None) \<and>
    forwarded d' = forwarded d @ inbox fs"
  using session_feed [OF assms(1)] cast_frames.feed_drain [OF assms(2)] by blast

lemma session_append:
  "session js me (xs @ ys) d =
     (case session js me xs d of (d', True) \<Rightarrow> session js me ys d' | (d', False) \<Rightarrow> (d', False))"
  by (induction xs arbitrary: d) (simp_all add: Let_def split: prod.split bool.split)

text \<open>What a turn leaves in the buffer.\<close>

lemma drain_frames_rest_le: "drain_frames buf = (fs, rest, e) \<Longrightarrow> length rest \<le> length buf"
proof (induction buf arbitrary: fs rule: drain_frames.induct)
  case (1 buf)
  then show ?case
    by (subst (asm) (2) drain_frames.simps)
      (fastforce split: sum.splits prod.splits option.splits dest: take_frame_shorter)
qed

lemma turn_acc_short: "turn js me i d = (d', True) \<Longrightarrow> length (acc d') < 4 + MAX_BODY_SIZE"
  using turn_continues [of js me i d d'] cast_frames.drain_rest take_frame_None by metis

lemma turn_acc_stopped:
  assumes "turn js me i d = (d', False)"
  shows "length (acc d') \<le> length (acc d) + length (rd_bytes i)"
proof -
  have "acc (fst (turn js me i d)) = acc d \<or>
      (\<exists>fs er. drain_frames (acc d @ rd_bytes i) = (fs, acc (fst (turn js me i d)), er))"
    by (auto simp: turn_def Let_def enqueue_def frame_loop_fold heartbeat_frame drain_outbound_frame
        split: option.splits prod.splits dest!: receive_bytes_Some)
  then show ?thesis using assms drain_frames_rest_le by fastforce
qed

text \<open>Outbound, without write faults.\<close>

definition app_only :: "cast_message list \<Rightarrow> cast_message list" where
  "app_only = filter (\<lambda>m. namespace m \<noteq> NS_HEARTBEAT)"

definition wrote :: "dispatcher \<Rightarrow> cast_message list \<Rightarrow> tls" where
  "wrote d ws = (tls_stream d)\<lparr>wire := wire (tls_stream d) @ concat (map frame_bytes ws)\<rparr>"

lemma app_only_Nil [simp]: "app_only [] = []"
  by (simp add: app_only_def)

lemma app_only_append [simp]: "app_only (xs @ ys) = app_only xs @ app_only ys"
  by (simp add: app_only_def)

lemma app_only_pongs [simp]: "app_only (pongs js me fs) = []" "app_only [ping me] = []"
  by (auto simp: app_only_def pongs_def pong_def ping_def)

text \<open>
  The messages of a turn: nothing, or the PONGs, and after them, unless the framing broke, the
  queued messages and the PING that is due.
\<close>

definition turn_writes :: "'v serde \<Rightarrow> string \<Rightarrow> turn_input \<Rightarrow> dispatcher \<Rightarrow> cast_message list" where
  "turn_writes js me i d =
     (if stop_flag (enqueue i d) \<or> receive_bytes (read i) (rx_at i) (enqueue i d) = None then []
      else let (fs, rest, e) = drain_frames (acc d @ rd_bytes i)
           in pongs js me fs @ (if e \<noteq> None then [] else
             queue d @ arrivals i @
             (if HEARTBEAT_INTERVAL \<le> ping_at i - last_ping d then [ping me] else [])))"

lemma turn_wire:
  assumes "fates (tls_stream d) = []" and "turn js me i d = (d', on)"
  shows "tls_stream d' = wrote d (turn_writes js me i d) \<and>
    app_only (turn_writes js me i d) @ app_only (queue d') = app_only (queue d @ arrivals i) \<and>
    (on \<longrightarrow> queue d' = [])"
proof (cases "stop_flag (enqueue i d) \<or> receive_bytes (read i) (rx_at i) (enqueue i d) = None")
  case True
  then have "d' = enqueue i d \<and> \<not> on"
    using assms(2) by (auto simp: turn_def Let_def split: if_splits)
  then show ?thesis using True by (auto simp: turn_writes_def enqueue_def wrote_def app_only_def)
next
  case False
  then obtain d1 where d1: "receive_bytes (read i) (rx_at i) (enqueue i d) = Some d1" by blast
  note a = receive_bytes_Some [OF d1]
  obtain fs rest e where dr: "drain_frames (acc d @ rd_bytes i) = (fs, rest, e)"
    by (cases "drain_frames (acc d @ rd_bytes i)") auto
  define d2 where "d2 = (fold (handle_body js me) fs d1)\<lparr>acc := rest\<rparr>"
  have fl: "frame_loop js me d1 = (d2, e = None)"
    using a dr by (simp add: frame_loop_fold d2_def enqueue_def)
  have f1: "fates (tls_stream d1) = []" using a assms(1) by (simp add: enqueue_def)
  have t2: "tls_stream d2 = wrote d (pongs js me fs)" "queue d2 = queue d @ arrivals i"
      "last_ping d2 = last_ping d"
    using fold_handle_wire [OF f1, of js me fs] fold_handle_frame [of js me fs d1] a
    by (simp_all add: d2_def wrote_def enqueue_def)
  show ?thesis
  proof (cases e)
    case None
    have f2: "fates (tls_stream d2) = []" using t2 assms(1) by (simp add: wrote_def)
    have "d' = heartbeat me (ping_at i) (pinged_at i) (drain_outbound (disconnected i) (queue d2) d2)"
      using assms(2) False d1 fl None by (auto simp: turn_def Let_def)
    then show ?thesis
      using False d1 dr None t2 f2 assms(1)
      by (simp add: turn_writes_def drain_outbound_ok heartbeat_def write_ignored_def write_message_ok wrote_def)
  next
    case (Some n)
    then have "d' = d2 \<and> \<not> on" using assms(2) False d1 fl by (auto simp: turn_def Let_def)
    then show ?thesis using False d1 dr Some t2 by (simp add: turn_writes_def)
  qed
qed

lemma wrote_wrote:
  "tls_stream d1 = wrote d ws \<Longrightarrow> wrote d1 vs = wrote d (ws @ vs)"
  by (simp add: wrote_def)

lemma session_wire:
  assumes "fates (tls_stream d) = []" and "session js me is d = (d', True)" and "is \<noteq> [] \<or> queue d = []"
  shows "\<exists>ws. tls_stream d' = wrote d ws \<and> app_only ws = app_only (queue d @ concat (map arrivals is)) \<and>
    queue d' = []"
  using assms
proof (induction js me "is" d rule: session.induct)
  case (1 js me d)
  then show ?case by (auto simp: wrote_def app_only_def intro: exI [of _ "[]"])
next
  case (2 js me i "is" d)
  obtain d1 where t: "turn js me i d = (d1, True)"
    using 2(3) by (auto split: prod.splits if_splits)
  then have s: "session js me is d1 = (d', True)" using 2(3) by simp
  let ?w = "turn_writes js me i d"
  have w: "tls_stream d1 = wrote d ?w" "app_only ?w = app_only (queue d @ arrivals i)" "queue d1 = []"
    using turn_wire [OF 2(2) t] by (auto simp: app_only_def)
  have "fates (tls_stream d1) = []" using w(1) 2(2) by (simp add: wrote_def)
  from 2(1) [OF t [symmetric] refl _ this s] w(3) obtain ws where
    "tls_stream d' = wrote d1 ws" "app_only ws = app_only (queue d1 @ concat (map arrivals is))" "queue d' = []"
    by auto
  then show ?case using w wrote_wrote [OF w(1)] by (intro exI [of _ "?w @ ws"]) simp
qed

section \<open>Reading back\<close>

definition sendable :: "cast_message \<Rightarrow> bool" where
  "sendable m \<longleftrightarrow> message_ok m \<and> body_ok (encode_cast_message m)"

lemma decoded_encoded:
  "\<forall>m \<in> set ms. sendable m \<Longrightarrow> decoded (map encode_cast_message ms) = ms"
  by (induction ms) (simp_all add: decoded_def decode_encode sendable_def)

lemma drain_sent:
  assumes "\<forall>m \<in> set ms. sendable m" and "take_frame tail = Inr (None, r)"
  shows "drain_frames (concat (map frame_bytes ms) @ tail) = (map encode_cast_message ms, tail, None)"
proof -
  have "map frame_bytes ms = map frame (map encode_cast_message ms)" by (simp add: frame_bytes_frame)
  then show ?thesis
    using drain_frames_encoded [OF _ assms(2), of "map encode_cast_message ms"] assms(1)
    by (simp only: set_map sendable_def) simp
qed

lemma length_encode:
  "length (encode_cast_message m) \<le>
     length (source m) + length (destination m) + length (namespace m) + length (payload m) + 128"
  "length (payload m) \<le> length (encode_cast_message m)"
  using length_write_string [of 2 "source m"] length_write_string [of 3 "destination m"]
    length_write_string [of 4 "namespace m"] length_write_string [of 6 "payload m"]
    length_write_varint_field [of 1 0] length_write_varint_field [of 5 0]
  by (simp_all add: encode_cast_message_def) (simp add: write_string_def Let_def)

section \<open>Properties\<close>

definition demo_input :: "bytes \<Rightarrow> cast_message list \<Rightarrow> turn_input" where
  "demo_input bs ms = \<lparr>dropped = False, arrivals = ms, read = (if bs = [] then WouldBlock else Data bs),
     rx_at = 0, disconnected = False, ping_at = 0, pinged_at = 0, tick_at = 0\<rparr>"

definition demo_tls :: tls where
  "demo_tls = \<lparr>wire = [], fates = []\<rparr>"

lemma demo_sendable: "sendable demo_message"
  using demo_message_ok length_encode [of demo_message]
  by (simp add: sendable_def body_ok_def MAX_BODY_SIZE_def demo_message_def)

text \<open>
  C16: Inbound delivery. Whatever chunks the socket delivers, when the bytes read so far are the
  frames of some messages and a part of a further frame, the running dispatcher has forwarded
  exactly those messages that are not heartbeats, in order, and buffers exactly the part.
\<close>

theorem inbound_delivery:
  assumes "session js me is (dispatcher_start t now) = (d, True)"
    and "concat (map rd_bytes is) = concat (map frame_bytes ms) @ tail"
    and "\<forall>m \<in> set ms. sendable m" and "take_frame tail = Inr (None, r)"
  shows "forwarded d = filter (\<lambda>m. namespace m \<noteq> NS_HEARTBEAT) ms \<and> acc d = tail"
  using session_drain [OF assms(1)] drain_sent [OF assms(3,4)] assms(2) take_frame_Nil
  by (auto simp: dispatcher_start_def inbox_def decoded_encoded [OF assms(3)])

theorem inbound_delivery_witness:
  "\<exists>d. session (demo_serde []) ''me'' [demo_input (take 3 (frame_bytes demo_message)) [],
      demo_input (drop 3 (frame_bytes demo_message)) []] (dispatcher_start demo_tls 0) = (d, True) \<and>
    forwarded d = [demo_message] \<and> acc d = []"
proof -
  let ?b = "frame_bytes demo_message"
  let ?is = "[demo_input (take 3 ?b) [], demo_input (drop 3 ?b) []]"
  have len: "4 \<le> length ?b" by (simp add: frame_bytes_def Let_def)
  then have ne: "?b \<noteq> []" "\<not> length ?b \<le> 3" by auto
  have "drain_frames (take 3 ?b) = ([], take 3 ?b, None)"
    using len by (intro cast_frames.drain_none [where rest = "take 3 ?b"]) (simp add: take_frame_def)
  moreover have "drain_frames ?b = ([encode_cast_message demo_message], [], None)"
    using drain_sent [OF _ take_frame_Nil, of "[demo_message]"] demo_sendable by simp
  moreover have "namespace demo_message \<noteq> NS_HEARTBEAT" "decode_cast_message (encode_cast_message demo_message) = Inr demo_message"
    using decode_encode [OF demo_message_ok] by (simp_all add: demo_message_def NS_HEARTBEAT_def)
  ultimately obtain d where
    s: "session (demo_serde []) ''me'' ?is (dispatcher_start demo_tls 0) = (d, True)"
    using ne by (simp add: turn_def demo_input_def dispatcher_start_def enqueue_def receive_bytes_def
        frame_loop_fold heartbeat_def HEARTBEAT_INTERVAL_def LIVENESS_TIMEOUT_def secs_def handle_body_def)
  have "concat (map rd_bytes ?is) = concat (map frame_bytes [demo_message]) @ []"
    using ne by (simp add: rd_bytes_def demo_input_def)
  from inbound_delivery [OF s this _ take_frame_Nil] s show ?thesis
    using demo_sendable by (simp add: demo_message_def NS_HEARTBEAT_def)
qed

text \<open>
  C19: Memory is bounded whatever the peer sends: a running dispatcher buffers less than one
  maximal frame, and with reads of at most 8192 bytes it never holds more than that and one read,
  not even when it stops on a framing error.
\<close>

theorem accumulator_bounded:
  assumes "session js me is (dispatcher_start t now) = (d, on)"
    and "\<forall>i \<in> set is. length (rd_bytes i) \<le> 8192"
  shows "(on \<longrightarrow> length (acc d) < 4 + 65536) \<and> length (acc d) < 4 + 65536 + 8192"
proof -
  have "(on \<longrightarrow> length (acc d) < 4 + MAX_BODY_SIZE) \<and> length (acc d) < 4 + MAX_BODY_SIZE + 8192"
    if "session js me is e = (d, on)" "length (acc e) < 4 + MAX_BODY_SIZE" for e
    using that assms(2)
  proof (induction js me "is" e rule: session.induct)
    case (2 js me i "is" e)
    obtain d1 on1 where t: "turn js me i e = (d1, on1)" by fastforce
    show ?case
    proof (cases on1)
      case True
      then have s: "session js me is d1 = (d, on)" and "length (acc d1) < 4 + MAX_BODY_SIZE"
        using 2(2) t turn_acc_short [of js me i e d1] by simp_all
      then show ?thesis using 2(1) [OF t [symmetric] refl True s] 2(4) by simp
    next
      case False
      then show ?thesis using 2 t turn_acc_stopped [of js me i e d1] by auto
    qed
  qed simp
  from this [OF assms(1)] show ?thesis by (simp add: dispatcher_start_def MAX_BODY_SIZE_def)
qed

theorem accumulator_bounded_witness:
  "length (acc (fst (session (demo_serde []) ''me'' [demo_input [0, 0, 0, 9, 1, 2] []]
    (dispatcher_start demo_tls 0)))) < 4 + 65536 + 8192"
proof -
  obtain d on where s: "session (demo_serde []) ''me'' [demo_input [0, 0, 0, 9, 1, 2] []]
      (dispatcher_start demo_tls 0) = (d, on)" by fastforce
  then show ?thesis using accumulator_bounded [OF s] by (simp add: rd_bytes_def demo_input_def)
qed

text \<open>
  C17: Outbound delivery. When no write fails, the dispatcher that has ended has put on the wire
  whole frames only, and among them the messages of its owner, those that arrived during the
  shutdown included, each exactly once and in order; only heartbeats come between them. The
  peer's framer and decoder give those messages back.
\<close>

theorem outbound_delivery:
  assumes "fates t = []" and "session js me is (dispatcher_start t now) = (d1, True)"
    and "turn js me i d1 = (d2, False)"
  shows "\<exists>d ws. dispatcher_run js me (is @ [i]) late (dispatcher_start t now) = Some d \<and>
    wire (tls_stream d) = wire t @ concat (map frame_bytes ws) \<and>
    filter (\<lambda>m. namespace m \<noteq> NS_HEARTBEAT) ws =
      filter (\<lambda>m. namespace m \<noteq> NS_HEARTBEAT) (concat (map arrivals (is @ [i])) @ late) \<and>
    ((\<forall>m \<in> set ws. sendable m) \<longrightarrow>
      decoded (fst (drain_frames (concat (map frame_bytes ws)))) = ws)"
proof -
  let ?d = "dispatcher_start t now"
  have f0: "fates (tls_stream ?d) = []" and q0: "queue ?d = []" using assms(1) by (simp_all add: dispatcher_start_def)
  obtain ws where ws: "tls_stream d1 = wrote ?d ws" "app_only ws = app_only (concat (map arrivals is))"
      "queue d1 = []"
    using session_wire [OF f0 assms(2)] q0 by auto
  let ?v = "turn_writes js me i d1"
  have f1: "fates (tls_stream d1) = []" using ws(1) f0 by (simp add: wrote_def)
  have v: "tls_stream d2 = wrote d1 ?v" "app_only ?v @ app_only (queue d2) = app_only (arrivals i)"
    using turn_wire [OF f1 assms(3)] ws(3) by simp_all
  have f2: "fates (tls_stream d2) = []" using v(1) f1 by (simp add: wrote_def)
  let ?ws = "ws @ ?v @ queue d2 @ late"
  define d where "d = shutdown_drain (queue d2 @ late) d2"
  have "session js me (is @ [i]) ?d = (d2, False)"
    using assms(2,3) by (simp add: session_append)
  then have r: "dispatcher_run js me (is @ [i]) late ?d = Some d"
    by (simp add: dispatcher_run_def d_def)
  have w: "wire (tls_stream d) = wire t @ concat (map frame_bytes ?ws)"
    unfolding d_def shutdown_drain_ok [OF f2]
    using v(1) ws(1) by (simp add: wrote_def dispatcher_start_def)
  have "app_only ?ws = app_only (concat (map arrivals is)) @ (app_only ?v @ app_only (queue d2)) @ app_only late"
    using ws(2) by simp
  also have "\<dots> = app_only (concat (map arrivals (is @ [i])) @ late)" unfolding v(2) by simp
  finally have a: "app_only ?ws = app_only (concat (map arrivals (is @ [i])) @ late)" .
  have "\<forall>m \<in> set ?ws. sendable m \<Longrightarrow> decoded (fst (drain_frames (concat (map frame_bytes ?ws)))) = ?ws"
    using drain_sent [OF _ take_frame_Nil, of ?ws] decoded_encoded [of ?ws] by simp
  then show ?thesis using r w a unfolding app_only_def by blast
qed

theorem outbound_delivery_witness:
  "\<exists>d ws. dispatcher_run (demo_serde []) ''me'' [demo_input [] [demo_message],
      (demo_input [] [])\<lparr>dropped := True\<rparr>] [demo_message] (dispatcher_start demo_tls 0) = Some d \<and>
    filter (\<lambda>m. namespace m \<noteq> NS_HEARTBEAT) ws = [demo_message, demo_message] \<and>
    wire (tls_stream d) = concat (map frame_bytes ws)"
proof -
  have e: "drain_frames [] = ([], [], None)" by (rule cast_frames.drain_none [OF take_frame_Nil])
  obtain d1 where s: "session (demo_serde []) ''me'' [demo_input [] [demo_message]]
      (dispatcher_start demo_tls 0) = (d1, True)"
    by (simp add: turn_def demo_input_def dispatcher_start_def enqueue_def receive_bytes_def e
        frame_loop_fold heartbeat_def HEARTBEAT_INTERVAL_def LIVENESS_TIMEOUT_def secs_def
        write_message_ok demo_tls_def)
  let ?i = "(demo_input [] [])\<lparr>dropped := True\<rparr>"
  have t: "turn (demo_serde []) ''me'' ?i d1 = (enqueue ?i d1, False)"
    by (simp add: turn_def demo_input_def enqueue_def)
  show ?thesis
    using outbound_delivery [OF _ s t, of "[demo_message]"]
    by (auto simp: demo_tls_def demo_input_def demo_message_def NS_HEARTBEAT_def)
qed

text \<open>
  The exact effect of a turn that goes on, when no write fails: the complete frames are
  taken, the messages that are not heartbeats are forwarded, and the wire gets a PONG to the
  sender of every PING in order, then the whole outbound queue, then a PING when 5 s have passed
  since the last one. Heartbeats are never forwarded.
\<close>

theorem turn_effect:
  assumes "fates (tls_stream d) = []" and "turn js me i d = (d', True)"
    and "drain_frames (acc d @ rd_bytes i) = (fs, rest, e)"
  shows "e = None \<and> acc d' = rest \<and> queue d' = [] \<and>
    forwarded d' = forwarded d @ filter (\<lambda>m. namespace m \<noteq> NS_HEARTBEAT) (decoded fs) \<and>
    wire (tls_stream d') = wire (tls_stream d) @ concat (map frame_bytes
      (map (\<lambda>m. pong me (source m)) (filter (\<lambda>m. namespace m = NS_HEARTBEAT \<and>
         payload_type_is js (payload m) ''PING'') (decoded fs)) @
       queue d @ arrivals i @
       (if HEARTBEAT_INTERVAL \<le> ping_at i - last_ping d then [ping me] else [])))"
proof -
  have c: "e = None" "acc d' = rest" "forwarded d' = forwarded d @ inbox fs"
    using turn_continues [OF assms(2)] assms(3) by auto
  have "\<not> stop_flag (enqueue i d)" "receive_bytes (read i) (rx_at i) (enqueue i d) \<noteq> None"
    using assms(2) by (auto simp: turn_def Let_def split: if_splits option.splits)
  then have "turn_writes js me i d = pongs js me fs @ queue d @ arrivals i @
      (if HEARTBEAT_INTERVAL \<le> ping_at i - last_ping d then [ping me] else [])"
    using assms(3) c(1) by (auto simp: turn_writes_def)
  then show ?thesis
    using turn_wire [OF assms(1,2)] c by (simp add: wrote_def pongs_def inbox_def)
qed

definition demo_ping :: cast_message where
  "demo_ping = ping ''receiver-0''"

definition demo_json :: "json_tree serde" where
  \<open>demo_json = demo_serde [(''{"type":"PING"}'', JObj [(''type'', JStr ''PING'')])]\<close>

lemma demo_ping_sendable: "sendable demo_ping"
proof -
  have "fields_ok demo_ping" unfolding fields_ok_def string_ok_def by code_simp
  then have "message_ok demo_ping"
    by (simp add: message_ok_def fields_ok_def demo_ping_def ping_def PLATFORM_RECEIVER_ID_def NS_HEARTBEAT_def)
  then show ?thesis
    using length_encode(1) [of demo_ping]
    by (simp add: sendable_def body_ok_def MAX_BODY_SIZE_def demo_ping_def ping_def
        PLATFORM_RECEIVER_ID_def NS_HEARTBEAT_def)
qed

lemma demo_ping_type: "payload_type_is demo_json (payload demo_ping) ''PING''"
  by (simp add: payload_type_is_def demo_json_def demo_serde_def get_str_def demo_ping_def ping_def)

lemma demo_ping_drained:
  "drain_frames (frame_bytes demo_ping) = ([encode_cast_message demo_ping], [], None)"
  "decode_cast_message (encode_cast_message demo_ping) = Inr demo_ping"
  using drain_sent [OF _ take_frame_Nil, of "[demo_ping]"] demo_ping_sendable
  by (simp_all add: decode_encode sendable_def)

lemma demo_ping_bytes: "frame_bytes demo_ping \<noteq> []"
  by (simp add: frame_bytes_def Let_def to_be32_def)

theorem turn_effect_witness:
  "\<exists>d. turn demo_json ''me'' (demo_input (frame_bytes demo_ping) []) (dispatcher_start demo_tls 0) = (d, True) \<and>
    wire (tls_stream d) = frame_bytes (pong ''me'' ''receiver-0'') \<and> forwarded d = []"
proof -
  have hb: "namespace demo_ping = NS_HEARTBEAT" "source demo_ping = ''receiver-0''"
    by (simp_all add: demo_ping_def ping_def)
  obtain d where t: "turn demo_json ''me'' (demo_input (frame_bytes demo_ping) []) (dispatcher_start demo_tls 0) = (d, True)"
    using demo_ping_bytes demo_ping_type
    by (simp add: turn_def demo_input_def dispatcher_start_def enqueue_def receive_bytes_def
        demo_ping_drained frame_loop_fold heartbeat_def HEARTBEAT_INTERVAL_def LIVENESS_TIMEOUT_def
        secs_def handle_body_def write_ignored_def hb)
  have dr: "drain_frames (acc (dispatcher_start demo_tls 0) @ rd_bytes (demo_input (frame_bytes demo_ping) [])) =
      ([encode_cast_message demo_ping], [], None)"
    using demo_ping_bytes by (simp add: dispatcher_start_def rd_bytes_def demo_input_def demo_ping_drained)
  show ?thesis
    using turn_effect [OF _ t dr] t
    by (simp add: dispatcher_start_def demo_tls_def decoded_def demo_ping_drained hb demo_ping_type
        demo_input_def HEARTBEAT_INTERVAL_def secs_def)
qed

text \<open>
  C18: Heartbeat and liveness. In a turn that nothing else ends (the owner has not asked to stop, the
  read neither fails nor reports the end of the stream, the framing is intact) the session goes on
  exactly when less than 10 s have passed since bytes last arrived, or since the start. When no write
  fails, the turn writes the PONGs it owes, the owner's messages, and then one PING exactly when at
  least 5 s have passed since the last PING (or the start), by the clock of the turns alone.
\<close>

theorem silence_bounded:
  assumes "session js me is (dispatcher_start t now) = (d, True)" and "turn js me i d = (d', on)"
    and "\<not> stop_flag d" and "\<not> dropped i" and "read i \<notin> {Data [], UnexpectedEof, ReadError}"
    and "drain_frames (acc d @ rd_bytes i) = (fs, rest, None)"
  shows "(on \<longleftrightarrow> tick_at i < fold rx_time (is @ [i]) now + secs 10) \<and>
    (fates t = [] \<longrightarrow> wire (tls_stream d') = wire (tls_stream d) @
      concat (map frame_bytes (pongs js me fs @ arrivals i @
        (if fold ping_time is now + secs 5 \<le> ping_at i then [ping me] else []))))"
proof (intro conjI impI)
  have flag: "\<not> stop_flag (enqueue i d)" using assms(3,4) by (simp add: enqueue_def)
  obtain d1 where d1: "receive_bytes (read i) (rx_at i) (enqueue i d) = Some d1"
    using assms(5) by (cases "read i") (simp_all add: receive_bytes_def)
  note a = receive_bytes_Some [OF d1]
  define d2 where "d2 = (fold (handle_body js me) fs d1)\<lparr>acc := rest\<rparr>"
  have fl: "frame_loop js me d1 = (d2, True)"
    using a assms(6) by (simp add: frame_loop_fold d2_def enqueue_def)
  define d4 where "d4 = heartbeat me (ping_at i) (pinged_at i) (drain_outbound (disconnected i) (queue d2) d2)"
  have "last_rx d4 = rx_time i (last_rx d)"
    using a fold_handle_frame [of js me fs d1] drain_outbound_frame [of "disconnected i" "queue d2" d2]
    by (simp add: d4_def heartbeat_frame d2_def enqueue_def)
  moreover have "last_rx d = fold rx_time is now"
    using session_feed [OF assms(1)] by (auto simp: dispatcher_start_def)
  moreover have "on = (\<not> LIVENESS_TIMEOUT \<le> tick_at i - last_rx d4)"
    using assms(2) flag d1 fl by (auto simp: turn_def Let_def d4_def)
  ultimately show "on \<longleftrightarrow> tick_at i < fold rx_time (is @ [i]) now + secs 10"
    by (auto simp: LIVENESS_TIMEOUT_def secs_def)
  assume "fates t = []"
  then obtain ws where ws: "tls_stream d = wrote (dispatcher_start t now) ws" "queue d = []"
    using session_wire [OF _ assms(1)] by (auto simp: dispatcher_start_def)
  then have "fates (tls_stream d) = []" using \<open>fates t = []\<close> by (simp add: wrote_def dispatcher_start_def)
  from turn_wire [OF this assms(2)] have "tls_stream d' = wrote d (turn_writes js me i d)" by simp
  moreover have "last_ping d = fold ping_time is now"
    using session_last_ping [OF assms(1)] by (simp add: dispatcher_start_def)
  then have "HEARTBEAT_INTERVAL \<le> ping_at i - last_ping d \<longleftrightarrow> fold ping_time is now + secs 5 \<le> ping_at i"
    by (auto simp: HEARTBEAT_INTERVAL_def secs_def)
  ultimately show "wire (tls_stream d') = wire (tls_stream d) @
      concat (map frame_bytes (pongs js me fs @ arrivals i @
        (if fold ping_time is now + secs 5 \<le> ping_at i then [ping me] else [])))"
    using flag d1 assms(6) ws(2) by (simp add: wrote_def turn_writes_def)
qed

text \<open>Six seconds of silence: a PING; ten: the end.\<close>

definition at_time :: "nanos \<Rightarrow> turn_input" where
  "at_time n = (demo_input [] [])\<lparr>ping_at := n, pinged_at := n, tick_at := n\<rparr>"

theorem silence_bounded_witness:
  "(\<exists>d'. session demo_json ''me'' [demo_input [] [], at_time (secs 6)]
      (dispatcher_start demo_tls 0) = (d', True) \<and> wire (tls_stream d') = frame_bytes (ping ''me'')) \<and>
   snd (session demo_json ''me'' [demo_input [] [], at_time (secs 10)]
      (dispatcher_start demo_tls 0)) = False"
proof -
  define d where "d = dispatcher_start demo_tls 0\<lparr>queue := []\<rparr>"
  have d: "session demo_json ''me'' [demo_input [] []] (dispatcher_start demo_tls 0) = (d, True)"
    by (simp add: d_def turn_def demo_input_def enqueue_def dispatcher_start_def receive_bytes_def frame_loop_fold
        cast_frames.drain_none take_frame_Nil heartbeat_def HEARTBEAT_INTERVAL_def LIVENESS_TIMEOUT_def secs_def)
  have parts: "\<not> stop_flag d" "acc d = []" "wire (tls_stream d) = []" "drain_frames [] = ([], [], None)"
    by (simp_all add: d_def dispatcher_start_def demo_tls_def cast_frames.drain_none [OF take_frame_Nil])
  have *: "turn demo_json ''me'' (at_time n) d = (d', on) \<Longrightarrow>
      (on \<longleftrightarrow> n < secs 10) \<and> wire (tls_stream d') = (if secs 5 \<le> n then frame_bytes (ping ''me'') else [])" for n d' on
    using silence_bounded [OF d, of "at_time n" d' on "[]" "[]"] parts
    by (auto simp: at_time_def demo_input_def rd_bytes_def rx_time_def ping_time_def pongs_def decoded_def demo_tls_def
        secs_def split: if_splits)
  obtain d1 on1 where 1: "turn demo_json ''me'' (at_time (secs 6)) d = (d1, on1)" by fastforce
  obtain d2 on2 where 2: "turn demo_json ''me'' (at_time (secs 10)) d = (d2, on2)" by fastforce
  show ?thesis using d * [OF 1] * [OF 2] 1 2 by (auto simp: secs_def split: prod.splits if_splits)
qed

text \<open>
  C20: A failed PONG write leaves broken framing behind. When the length of a PONG is written
  and its body is not, the dispatcher goes on and writes the next queued message in full; the
  first frame the peer then takes from the stream is the head of that message's frame, which is
  no message the dispatcher wrote.
\<close>

theorem failed_pong_breaks_framing:
  assumes "fates (tls_stream d) = [None, Some 0]" and "stop_flag d = False" and "queue d = []"
    and "read i = Data bs" and "bs \<noteq> []" and "\<not> dropped i" and "\<not> disconnected i" and "arrivals i = [m]"
    and "drain_frames (acc d @ bs) = ([b], rest, None)" and "decode_cast_message b = Inr p"
    and "namespace p = NS_HEARTBEAT" and "payload_type_is js (payload p) ''PING''"
    and "ping_at i < last_ping d + HEARTBEAT_INTERVAL" and "tick_at i < rx_at i + LIVENESS_TIMEOUT"
    and "sendable (pong me (source p))" and "sendable m"
    and "length (encode_cast_message (pong me (source p))) \<le> length (frame_bytes m)"
  shows "\<exists>d' new. turn js me i d = (d', True) \<and> stop_flag d' = False \<and>
    wire (tls_stream d') = wire (tls_stream d) @ new \<and>
    (\<exists>body rest'. take_frame new = Inr (Some body, rest') \<and>
      (\<forall>w. body \<noteq> encode_cast_message w))"
proof -
  let ?q = "encode_cast_message (pong me (source p))"
  let ?new = "to_be32 (of_nat (length ?q)) @ frame_bytes m"
  have first: "\<exists>xs. encode_cast_message w = 8 # xs" for w
    by (simp add: encode_cast_message_def write_varint_field_def write_varint.simps [of 8])
  have pos: "0 < length ?q" using first by (metis length_greater_0_conv list.distinct(1))
  have small: "length (encode_cast_message m) < 2 ^ 24"
    using assms(16) by (simp add: sendable_def body_ok_def MAX_BODY_SIZE_def)
  have "drop_bit 24 (of_nat (length (encode_cast_message m)) :: u32) = 0"
  proof -
    have "unat (of_nat (length (encode_cast_message m)) :: u32) = length (encode_cast_message m)"
      using small by (simp only: unsigned_of_nat) (simp add: take_bit_nat_eq_self)
    then show ?thesis using small by (simp add: word_unat_eq_iff drop_bit_eq_div unat_div)
  qed
  then obtain xs where m: "frame_bytes m = 0 # xs" by (simp add: frame_bytes_def Let_def to_be32_def)
  have "take_frame ?new = take_frame (frame (take (length ?q) (frame_bytes m)) @ drop (length ?q) (frame_bytes m))"
    using assms(17) by (simp add: frame_def)
  also have "\<dots> = Inr (Some (take (length ?q) (frame_bytes m)), drop (length ?q) (frame_bytes m))"
    using assms(15,17) by (intro take_frame_frame) (simp add: sendable_def body_ok_def)
  finally have body: "take_frame ?new = Inr (Some (take (length ?q) (frame_bytes m)), drop (length ?q) (frame_bytes m))" .
  have "take (length ?q) (frame_bytes m) \<noteq> encode_cast_message w" for w
    using first [of w] pos m by (cases "length ?q") auto
  moreover have "\<not> HEARTBEAT_INTERVAL \<le> ping_at i - last_ping d" "\<not> LIVENESS_TIMEOUT \<le> tick_at i - rx_at i"
    using assms(13,14) by (simp_all add: HEARTBEAT_INTERVAL_def LIVENESS_TIMEOUT_def secs_def)
  then obtain d' where "turn js me i d = (d', True)" "stop_flag d' = False"
      "wire (tls_stream d') = wire (tls_stream d) @ ?new"
    using assms(1-12) by (simp add: turn_def enqueue_def receive_bytes_def frame_loop_fold handle_body_def
        write_ignored_def write_message_def write_all_def flush_def next_fate_def Let_def heartbeat_def
        frame_bytes_def)
  ultimately show ?thesis using body by blast
qed

definition demo_long :: cast_message where
  "demo_long = demo_message\<lparr>payload := replicate 200 (CHR ''x'')\<rparr>"

lemma demo_long_sendable: "sendable demo_long"
proof -
  have "fields_ok demo_long" unfolding fields_ok_def string_ok_def by code_simp
  then have "message_ok demo_long"
    by (simp add: message_ok_def fields_ok_def demo_long_def demo_message_def)
  then show ?thesis
    using length_encode(1) [of demo_long]
    by (simp add: sendable_def body_ok_def MAX_BODY_SIZE_def demo_long_def demo_message_def)
qed

lemma demo_pong_sendable: "sendable (pong ''me'' ''receiver-0'')"
proof -
  have "fields_ok (pong ''me'' ''receiver-0'')" unfolding fields_ok_def string_ok_def by code_simp
  then have "message_ok (pong ''me'' ''receiver-0'')"
    by (simp add: message_ok_def fields_ok_def pong_def NS_HEARTBEAT_def)
  then show ?thesis
    using length_encode(1) [of "pong ''me'' ''receiver-0''"]
    by (simp add: sendable_def body_ok_def MAX_BODY_SIZE_def pong_def NS_HEARTBEAT_def)
qed

theorem failed_pong_breaks_framing_witness:
  "\<exists>d'. turn demo_json ''me'' (demo_input (frame_bytes demo_ping) [demo_long])
     (dispatcher_start \<lparr>wire = [], fates = [None, Some 0]\<rparr> 0) = (d', True)"
proof -
  let ?d = "dispatcher_start \<lparr>wire = [], fates = [None, Some 0]\<rparr> 0"
  let ?i = "demo_input (frame_bytes demo_ping) [demo_long]"
  have "length (encode_cast_message (pong ''me'' ''receiver-0'')) \<le> 194"
    using length_encode(1) [of "pong ''me'' ''receiver-0''"] by (simp add: pong_def NS_HEARTBEAT_def)
  moreover have "200 \<le> length (frame_bytes demo_long)"
    using length_encode(2) [of demo_long] by (simp add: demo_long_def frame_bytes_def Let_def)
  ultimately have le: "length (encode_cast_message (pong ''me'' (source demo_ping))) \<le> length (frame_bytes demo_long)"
    by (simp add: demo_ping_def ping_def)
  have p: "namespace demo_ping = NS_HEARTBEAT" "source demo_ping = ''receiver-0''"
    by (simp_all add: demo_ping_def ping_def)
  have "\<exists>d' new. turn demo_json ''me'' ?i ?d = (d', True) \<and> stop_flag d' = False \<and>
    wire (tls_stream d') = wire (tls_stream ?d) @ new \<and>
    (\<exists>body rest'. take_frame new = Inr (Some body, rest') \<and> (\<forall>w. body \<noteq> encode_cast_message w))"
    by (rule failed_pong_breaks_framing [where bs = "frame_bytes demo_ping" and m = demo_long and p = demo_ping])
      (use demo_ping_bytes demo_ping_drained demo_ping_type demo_long_sendable demo_pong_sendable le p
       in \<open>simp_all add: dispatcher_start_def demo_input_def HEARTBEAT_INTERVAL_def LIVENESS_TIMEOUT_def secs_def\<close>)
  then show ?thesis by blast
qed

end
