(* ===== verification/Audio_Format.thy ===== *)
theory Audio_Format
  imports Cast_Prelude
begin

text \<open>\<open>src/audio_format.rs\<close>: the one PCM format of the program, 48 kHz stereo.\<close>

definition SAMPLE_RATE :: u32 where
  "SAMPLE_RATE = 48000"

definition CHANNELS :: u8 where
  "CHANNELS = 2"

end
