(* ===== verification/Mirroring.thy ===== *)
theory Mirroring
  imports Audio_Format Cast_Channel
begin

text \<open>
  \<open>src/mirroring.rs\<close>: launching the mirroring app and the OFFER/ANSWER exchange over the Cast
  channel. The incoming channel is a script: for each turn of the waiting loop the time at which
  the loop tests the deadline and what \<open>recv_timeout\<close> then returns. The random generator,
  \<open>hex::encode\<close> and \<open>serde_json\<close> are parameters; error contexts are left out.
\<close>

section \<open>Constants and data\<close>

definition APP_MIRRORING_AUDIO_VIDEO :: string where
  "APP_MIRRORING_AUDIO_VIDEO = ''0F5096E8''"

definition APP_MIRRORING_AUDIO_ONLY :: string where
  "APP_MIRRORING_AUDIO_ONLY = ''85CDB22F''"

definition OPUS_CODEC :: string where
  "OPUS_CODEC = ''opus''"

definition OPUS_BITRATE :: int where
  "OPUS_BITRATE = 128000"

definition RTP_PAYLOAD_TYPE :: u8 where
  "RTP_PAYLOAD_TYPE = 127"

definition TARGET_DELAY_MS :: u32 where
  "TARGET_DELAY_MS = 0"

datatype stream_mode = AudioOnly | AudioVideo

fun app_id :: "stream_mode \<Rightarrow> string" where
  "app_id AudioOnly = APP_MIRRORING_AUDIO_ONLY"
| "app_id AudioVideo = APP_MIRRORING_AUDIO_VIDEO"

record stream_offer =
  offer_ssrc :: u32
  offer_key :: bytes
  offer_iv_mask :: bytes

text \<open>\<open>Default::default\<close>, given what the generator draws.\<close>

definition default_offer :: "bytes \<Rightarrow> bytes \<Rightarrow> u32 \<Rightarrow> stream_offer" where
  "default_offer key iv draw =
     \<lparr>offer_ssrc = draw AND 0x7FFFFFFF OR 1, offer_key = key, offer_iv_mask = iv\<rparr>"

record stream_answer =
  answer_port :: u16
  send_indexes :: "u64 list"

record mirroring_session =
  transport_id :: string
  session_id :: string

datatype mirror_error =
    DispatcherGone string | ConnectionLost | ReplyTimedOut | NoTransportId | NoSessionId
  | LaunchRejected | OfferRejected | NoAnswer | NoUdpPort | PortOutOfRange u64

text \<open>\<open>fetch_add\<close> on the request counter.\<close>

definition new_request_id :: "u64 \<Rightarrow> u64 \<times> u64" where
  "new_request_id counter = (counter, counter + 1)"

section \<open>Waiting for a reply\<close>

datatype recv_event = Msg cast_message | RecvTimeout | RecvDisconnected

definition recv_limit :: "nanos \<Rightarrow> nanos \<Rightarrow> nanos" where
  "recv_limit deadline now = min (deadline - now) (millis 500)"

text \<open>
  \<open>None\<close>: the script ends before the loop does. Otherwise the result and the unread script; when
  the deadline has passed nothing is read.
\<close>

fun wait_for_json_message ::
  "'v serde \<Rightarrow> string \<Rightarrow> nanos \<Rightarrow> ('v \<Rightarrow> (mirror_error + 'a) option) \<Rightarrow> (nanos \<times> recv_event) list
     \<Rightarrow> ((mirror_error + 'a) \<times> (nanos \<times> recv_event) list) option" where
  "wait_for_json_message js ns deadline pred [] = None"
| "wait_for_json_message js ns deadline pred ((now, ev) # evs) =
     (if now < deadline then
        case ev of
          RecvTimeout \<Rightarrow> wait_for_json_message js ns deadline pred evs
        | RecvDisconnected \<Rightarrow> Some (Inl ConnectionLost, evs)
        | Msg msg \<Rightarrow>
            if namespace msg \<noteq> ns then wait_for_json_message js ns deadline pred evs
            else case from_str js (payload msg) of
              None \<Rightarrow> wait_for_json_message js ns deadline pred evs
            | Some v \<Rightarrow>
                (case pred v of
                   Some result \<Rightarrow> Some (result, evs)
                 | None \<Rightarrow> wait_for_json_message js ns deadline pred evs)
      else Some (Inl ReplyTimedOut, (now, ev) # evs))"

section \<open>LAUNCH\<close>

definition launch_payload :: "'v serde \<Rightarrow> u64 \<Rightarrow> string \<Rightarrow> 'v" where
  "launch_payload js request_id app =
     j_obj js
       [(''type'', j_str js ''LAUNCH''),
        (''requestId'', j_num js (uint request_id)),
        (''appId'', j_str js app),
        (''language'', j_str js ''en-US''),
        (''supportedAppTypes'', j_arr js [j_str js ''WEB''])]"

text \<open>The closure of \<open>launch_mirroring\<close>, and the one inside it on the application found.\<close>

definition session_of_app :: "'v serde \<Rightarrow> 'v \<Rightarrow> mirror_error + mirroring_session" where
  "session_of_app js app =
     (case get_str js app ''transportId'' of
        None \<Rightarrow> Inl NoTransportId
      | Some t \<Rightarrow>
          (case get_str js app ''sessionId'' of
             None \<Rightarrow> Inl NoSessionId
           | Some s \<Rightarrow> Inr \<lparr>transport_id = t, session_id = s\<rparr>))"

definition launch_reply ::
  "'v serde \<Rightarrow> u64 \<Rightarrow> string \<Rightarrow> 'v \<Rightarrow> (mirror_error + mirroring_session) option" where
  "launch_reply js request_id app v =
     (if get_u64 js v ''requestId'' \<noteq> Some request_id then None
      else if get_str js v ''type'' = Some ''RECEIVER_STATUS'' then
        (case Option.bind (pointer js v ''/status/applications'') (as_array js) of
           None \<Rightarrow> None
         | Some apps \<Rightarrow>
             map_option (session_of_app js) (find (\<lambda>a. get_str js a ''appId'' = Some app) apps))
      else if get_str js v ''type'' = Some ''LAUNCH_ERROR'' then Some (Inl LaunchRejected)
      else None)"

text \<open>
  The state threaded through the operations is the owner's end of the channel and the request
  counter; the last component is the unread script.
\<close>

type_synonym 'a exchange =
  "((mirror_error + 'a) \<times> (nanos \<times> recv_event) list) option \<times> channel_end \<times> u64"

definition launch_mirroring ::
  "'v serde \<Rightarrow> string \<Rightarrow> stream_mode \<Rightarrow> nanos \<Rightarrow> nanos \<Rightarrow> (nanos \<times> recv_event) list \<Rightarrow> channel_end \<Rightarrow> u64
     \<Rightarrow> mirroring_session exchange" where
  "launch_mirroring js me mode timeout now script c counter =
     (let app = app_id mode;
          (request_id, counter') = new_request_id counter
      in case send_json js me PLATFORM_RECEIVER_ID NS_RECEIVER (launch_payload js request_id app) c of
           (Inl e, c') \<Rightarrow> (Some (Inl (DispatcherGone e), script), c', counter')
         | (Inr _, c') \<Rightarrow>
             (wait_for_json_message js NS_RECEIVER (now + timeout) (launch_reply js request_id app) script,
              c', counter'))"

section \<open>Dropping the session\<close>

definition stop_payload :: "'v serde \<Rightarrow> u64 \<Rightarrow> string \<Rightarrow> 'v" where
  "stop_payload js request_id sid =
     j_obj js [(''type'', j_str js ''STOP''), (''requestId'', j_num js (uint request_id)),
               (''sessionId'', j_str js sid)]"

definition send_stop ::
  "'v serde \<Rightarrow> string \<Rightarrow> string \<Rightarrow> channel_end \<Rightarrow> u64 \<Rightarrow> (string + unit) \<times> channel_end \<times> u64" where
  "send_stop js me sid c counter =
     (let (request_id, counter') = new_request_id counter;
          (r, c') = send_json js me PLATFORM_RECEIVER_ID NS_RECEIVER (stop_payload js request_id sid) c
      in (r, c', counter'))"

definition drop_session ::
  "'v serde \<Rightarrow> string \<Rightarrow> mirroring_session \<Rightarrow> channel_end \<Rightarrow> u64 \<Rightarrow> channel_end \<times> u64" where
  "drop_session js me s c counter =
     (let (_, c1, counter') = send_stop js me (session_id s) c counter;
          c2 = snd (close_transport js me (transport_id s) c1)
      in (snd (close_transport js me PLATFORM_RECEIVER_ID c2), counter'))"

section \<open>OFFER and ANSWER\<close>

definition build_offer_payload :: "'v serde \<Rightarrow> (bytes \<Rightarrow> string) \<Rightarrow> int \<Rightarrow> stream_offer \<Rightarrow> 'v" where
  "build_offer_payload js hex seq_num offer =
     j_obj js
       [(''type'', j_str js ''OFFER''),
        (''seqNum'', j_num js seq_num),
        (''offer'', j_obj js
          [(''castMode'', j_str js ''mirroring''),
           (''supportedStreams'', j_arr js [j_obj js
             [(''index'', j_num js 0),
              (''type'', j_str js ''audio_source''),
              (''codecName'', j_str js OPUS_CODEC),
              (''codecParameter'', j_str js []),
              (''rtpProfile'', j_str js ''cast''),
              (''rtpPayloadType'', j_num js (uint RTP_PAYLOAD_TYPE)),
              (''ssrc'', j_num js (uint (offer_ssrc offer))),
              (''targetDelay'', j_num js (uint TARGET_DELAY_MS)),
              (''aesKey'', j_str js (hex (offer_key offer))),
              (''aesIvMask'', j_str js (hex (offer_iv_mask offer))),
              (''timeBase'', j_str js (''1/'' @ digits (unat SAMPLE_RATE))),
              (''receiverRtcpEventLog'', j_bool js False),
              (''bitRate'', j_num js OPUS_BITRATE),
              (''channels'', j_num js (uint CHANNELS))]])])]"

definition parse_answer :: "'v serde \<Rightarrow> 'v \<Rightarrow> mirror_error + stream_answer" where
  "parse_answer js v =
     (if get_str js v ''result'' \<noteq> Some ''ok'' then Inl OfferRejected
      else case get js v ''answer'' of
        None \<Rightarrow> Inl NoAnswer
      | Some ans \<Rightarrow>
          (case get_u64 js ans ''udpPort'' of
             None \<Rightarrow> Inl NoUdpPort
           | Some raw \<Rightarrow>
               if 1 \<le> raw \<and> raw \<le> 65535 then
                 Inr \<lparr>answer_port = ucast raw,
                      send_indexes =
                        (case Option.bind (get js ans ''sendIndexes'') (as_array js) of
                           None \<Rightarrow> []
                         | Some a \<Rightarrow> List.map_filter (as_u64 js) a)\<rparr>
               else Inl (PortOutOfRange raw)))"

definition answer_reply :: "'v serde \<Rightarrow> 'v \<Rightarrow> (mirror_error + stream_answer) option" where
  "answer_reply js v =
     (if get_str js v ''type'' \<noteq> Some ''ANSWER'' then None else Some (parse_answer js v))"

text \<open>\<open>new_request_id() as i64\<close> reads the same 64 bits as a signed number.\<close>

definition send_offer ::
  "'v serde \<Rightarrow> (bytes \<Rightarrow> string) \<Rightarrow> string \<Rightarrow> string \<Rightarrow> stream_offer \<Rightarrow> nanos \<Rightarrow> nanos
     \<Rightarrow> (nanos \<times> recv_event) list \<Rightarrow> channel_end \<Rightarrow> u64 \<Rightarrow> stream_answer exchange" where
  "send_offer js hex me transport offer timeout now script c counter =
     (let (request_id, counter') = new_request_id counter;
          seq_num = sint request_id
      in case send_json js me transport NS_WEBRTC (build_offer_payload js hex seq_num offer) c of
           (Inl e, c') \<Rightarrow> (Some (Inl (DispatcherGone e), script), c', counter')
         | (Inr _, c') \<Rightarrow>
             (wait_for_json_message js NS_WEBRTC (now + timeout) (answer_reply js) script, c', counter'))"

section \<open>The waiting loop\<close>

text \<open>Events that leave the loop waiting.\<close>

definition skipped :: "'v serde \<Rightarrow> string \<Rightarrow> ('v \<Rightarrow> 'r option) \<Rightarrow> recv_event \<Rightarrow> bool" where
  "skipped js ns pred ev =
     (case ev of
        RecvTimeout \<Rightarrow> True
      | RecvDisconnected \<Rightarrow> False
      | Msg m \<Rightarrow> namespace m \<noteq> ns \<or>
          (case from_str js (payload m) of None \<Rightarrow> True | Some v \<Rightarrow> pred v = None))"

lemma wait_skip1:
  "t < deadline \<Longrightarrow> skipped js ns pred ev \<Longrightarrow>
     wait_for_json_message js ns deadline pred ((t, ev) # evs) = wait_for_json_message js ns deadline pred evs"
  by (cases ev) (auto simp: skipped_def split: option.splits)

lemma wait_skip:
  assumes "\<forall>(t, ev) \<in> set pre. t < deadline \<and> skipped js ns pred ev"
  shows "wait_for_json_message js ns deadline pred (pre @ evs) =
    wait_for_json_message js ns deadline pred evs"
  using assms by (induction pre) (auto simp: wait_skip1 simp del: wait_for_json_message.simps)

lemma wait_result:
  assumes "wait_for_json_message js ns deadline pred script = Some (r, rest)"
  shows "\<exists>pre t ev evs. script = pre @ (t, ev) # evs \<and>
    (\<forall>(t, ev) \<in> set pre. t < deadline \<and> skipped js ns pred ev) \<and>
    (if t < deadline then rest = evs \<and>
       (ev = RecvDisconnected \<and> r = Inl ConnectionLost \<or>
        (\<exists>m v. ev = Msg m \<and> namespace m = ns \<and> from_str js (payload m) = Some v \<and> pred v = Some r))
     else r = Inl ReplyTimedOut \<and> rest = (t, ev) # evs)"
  using assms
proof (induction script)
  case (Cons e script)
  obtain t ev where e: "e = (t, ev)" by fastforce
  show ?case
  proof (cases "t < deadline \<and> skipped js ns pred ev")
    case True
    then have "wait_for_json_message js ns deadline pred script = Some (r, rest)"
      using Cons(2) wait_skip [of "[e]" deadline js ns pred script] e by simp
    from Cons(1) [OF this] obtain pre u ev' evs where
      h: "script = pre @ (u, ev') # evs" "\<forall>(t, ev) \<in> set pre. t < deadline \<and> skipped js ns pred ev"
        "if u < deadline then rest = evs \<and>
           (ev' = RecvDisconnected \<and> r = Inl ConnectionLost \<or>
            (\<exists>m v. ev' = Msg m \<and> namespace m = ns \<and> from_str js (payload m) = Some v \<and> pred v = Some r))
         else r = Inl ReplyTimedOut \<and> rest = (u, ev') # evs" by blast
    show ?thesis
      using h e True by (intro exI [of _ "e # pre"] exI [of _ u] exI [of _ ev'] exI [of _ evs]) auto
  next
    case False
    then show ?thesis
      using Cons(2) e by (intro exI [of _ "[]"] exI [of _ t] exI [of _ ev] exI [of _ script])
        (auto simp: skipped_def split: recv_event.splits option.splits if_splits)
  qed
qed simp

lemma wait_total:
  "list_ex (\<lambda>(t, ev). deadline \<le> t \<or> ev = RecvDisconnected) script \<Longrightarrow>
     wait_for_json_message js ns deadline pred script \<noteq> None"
  by (induction script) (auto split: recv_event.splits option.splits)

lemma launch_reply_session:
  assumes "launch_reply js request_id app v = Some (Inr s)"
  shows "\<exists>apps a. get_u64 js v ''requestId'' = Some request_id \<and>
    get_str js v ''type'' = Some ''RECEIVER_STATUS'' \<and>
    Option.bind (pointer js v ''/status/applications'') (as_array js) = Some apps \<and> a \<in> set apps \<and>
    get_str js a ''appId'' = Some app \<and> get_str js a ''transportId'' = Some (transport_id s) \<and>
    get_str js a ''sessionId'' = Some (session_id s)"
proof -
  obtain apps where apps: "get_u64 js v ''requestId'' = Some request_id"
      "get_str js v ''type'' = Some ''RECEIVER_STATUS''"
      "Option.bind (pointer js v ''/status/applications'') (as_array js) = Some apps"
      "map_option (session_of_app js) (find (\<lambda>a. get_str js a ''appId'' = Some app) apps) = Some (Inr s)"
    using assms by (auto simp: launch_reply_def split: if_splits option.splits)
  then obtain a where "find (\<lambda>a. get_str js a ''appId'' = Some app) apps = Some a" and
      s: "session_of_app js a = Inr s" by auto
  then have "a \<in> set apps" "get_str js a ''appId'' = Some app" by (auto simp: find_Some_iff)
  with apps s show ?thesis by (auto simp: session_of_app_def split: option.splits)
qed

section \<open>Sending\<close>

lemma send_json_cases:
  "send_json js me dst ns v c =
     (if alive c then (Inr (), c\<lparr>outbound := outbound c @
        [\<lparr>source = me, destination = dst, namespace = ns, payload = to_text js v\<rparr>]\<rparr>)
      else (Inl ''dispatcher gone'', c))"
  by (simp add: send_json_def send_def)

lemma drop_session_outbound:
  "outbound (fst (drop_session js me s c counter)) = outbound c @
     (if alive c then
        [\<lparr>source = me, destination = PLATFORM_RECEIVER_ID, namespace = NS_RECEIVER,
           payload = to_text js (stop_payload js counter (session_id s))\<rparr>,
         \<lparr>source = me, destination = transport_id s, namespace = NS_CONNECTION,
           payload = to_text js (close_payload js)\<rparr>,
         \<lparr>source = me, destination = PLATFORM_RECEIVER_ID, namespace = NS_CONNECTION,
           payload = to_text js (close_payload js)\<rparr>]
      else [])"
  by (simp add: drop_session_def send_stop_def new_request_id_def send_json_cases close_transport_def)

section \<open>Properties\<close>

definition demo_status :: json_tree where
  "demo_status = JObj [(''type'', JStr ''RECEIVER_STATUS''), (''requestId'', JNum 7),
     (''status'', JObj [(''applications'', JArr
        [JObj [(''appId'', JStr ''CC1AD845'')],
         JObj [(''appId'', JStr ''85CDB22F''), (''transportId'', JStr ''t-1''), (''sessionId'', JStr ''s-1'')]])])]"

definition demo_answer :: json_tree where
  "demo_answer = JObj [(''type'', JStr ''ANSWER''), (''result'', JStr ''ok''),
     (''answer'', JObj [(''udpPort'', JNum 44321), (''sendIndexes'', JArr [JNum 0, JStr ''x''])])]"

definition demo_texts :: "json_tree serde" where
  "demo_texts = demo_serde [(''STATUS'', demo_status), (''ANSWER'', demo_answer)]"

definition demo_script :: "(nanos \<times> recv_event) list" where
  "demo_script =
     [(0, RecvTimeout),
      (1, Msg \<lparr>source = ''receiver-0'', destination = ''me'', namespace = NS_RECEIVER, payload = ''??''\<rparr>),
      (2, Msg \<lparr>source = ''receiver-0'', destination = ''me'', namespace = NS_RECEIVER, payload = ''STATUS''\<rparr>)]"

definition demo_end :: channel_end where
  "demo_end = \<lparr>outbound = [], alive = True, stop_set = False, joined = False\<rparr>"

text \<open>
  C28: A launched session is the one this process asked for. When \<open>launch_mirroring\<close> returns a
  session, it sent one LAUNCH under a fresh request id, and before the deadline a message on the
  receiver namespace arrived that is a RECEIVER_STATUS with this very request id and lists an
  application with the mode's app id and exactly the returned transport and session id; every
  message before it was none of its reply.
\<close>

theorem launch_matches_request:
  assumes "launch_mirroring js me mode timeout now script c counter = (Some (Inr s, rest), c', counter')"
  shows "outbound c' = outbound c @ [\<lparr>source = me, destination = PLATFORM_RECEIVER_ID,
      namespace = NS_RECEIVER, payload = to_text js (launch_payload js counter (app_id mode))\<rparr>] \<and>
    counter' = counter + 1 \<and>
    (\<exists>pre t m v apps app. script = pre @ (t, Msg m) # rest \<and> t < now + timeout \<and>
      namespace m = NS_RECEIVER \<and> from_str js (payload m) = Some v \<and>
      get_u64 js v ''requestId'' = Some counter \<and> get_str js v ''type'' = Some ''RECEIVER_STATUS'' \<and>
      Option.bind (pointer js v ''/status/applications'') (as_array js) = Some apps \<and> app \<in> set apps \<and>
      get_str js app ''appId'' = Some (app_id mode) \<and>
      get_str js app ''transportId'' = Some (transport_id s) \<and>
      get_str js app ''sessionId'' = Some (session_id s) \<and>
      (\<forall>(u, ev) \<in> set pre. u < now + timeout \<and>
        skipped js NS_RECEIVER (launch_reply js counter (app_id mode)) ev))"
proof -
  have up: "alive c" "c' = c\<lparr>outbound := outbound c @ [\<lparr>source = me, destination = PLATFORM_RECEIVER_ID,
      namespace = NS_RECEIVER, payload = to_text js (launch_payload js counter (app_id mode))\<rparr>]\<rparr>"
      "counter' = counter + 1"
    and w: "wait_for_json_message js NS_RECEIVER (now + timeout) (launch_reply js counter (app_id mode)) script
      = Some (Inr s, rest)"
    using assms by (auto simp: launch_mirroring_def new_request_id_def send_json_cases Let_def split: if_splits)
  obtain pre t ev evs where h: "script = pre @ (t, ev) # evs"
      "\<forall>(t, ev) \<in> set pre. t < now + timeout \<and> skipped js NS_RECEIVER (launch_reply js counter (app_id mode)) ev"
      "if t < now + timeout then rest = evs \<and>
       (ev = RecvDisconnected \<and> Inr s = Inl ConnectionLost \<or>
        (\<exists>m v. ev = Msg m \<and> namespace m = NS_RECEIVER \<and> from_str js (payload m) = Some v \<and>
          launch_reply js counter (app_id mode) v = Some (Inr s)))
       else Inr s = Inl ReplyTimedOut \<and> rest = (t, ev) # evs"
    using wait_result [OF w] by blast
  then obtain m v where m: "t < now + timeout" "rest = evs" "ev = Msg m" "namespace m = NS_RECEIVER"
      "from_str js (payload m) = Some v" and r: "launch_reply js counter (app_id mode) v = Some (Inr s)"
    by (auto split: if_splits)
  obtain apps a where app: "get_u64 js v ''requestId'' = Some counter"
      "get_str js v ''type'' = Some ''RECEIVER_STATUS''"
      "Option.bind (pointer js v ''/status/applications'') (as_array js) = Some apps" "a \<in> set apps"
      "get_str js a ''appId'' = Some (app_id mode)" "get_str js a ''transportId'' = Some (transport_id s)"
      "get_str js a ''sessionId'' = Some (session_id s)"
    using launch_reply_session [OF r] by blast
  have out: "outbound c' = outbound c @ [\<lparr>source = me, destination = PLATFORM_RECEIVER_ID,
      namespace = NS_RECEIVER, payload = to_text js (launch_payload js counter (app_id mode))\<rparr>]"
    unfolding up(2) by simp
  have eq: "script = pre @ (t, Msg m) # rest" using h(1) m(2,3) by simp
  show ?thesis
    by (rule conjI [OF out conjI [OF up(3)]], rule exI [of _ pre], rule exI [of _ t], rule exI [of _ m],
        rule exI [of _ v], rule exI [of _ apps], rule exI [of _ a], intro conjI)
      (fact eq m(1,4,5) app h(2))+
qed

theorem launch_matches_request_witness:
  "\<exists>c'. launch_mirroring demo_texts ''me'' AudioOnly (secs 1) 0 demo_script demo_end 7 =
     (Some (Inr \<lparr>transport_id = ''t-1'', session_id = ''s-1''\<rparr>, []), c', 8) \<and> length (outbound c') = 1"
proof -
  have w: "wait_for_json_message demo_texts NS_RECEIVER (0 + secs 1)
      (launch_reply demo_texts 7 (app_id AudioOnly)) demo_script =
      Some (Inr \<lparr>transport_id = ''t-1'', session_id = ''s-1''\<rparr>, [])"
    by (simp add: demo_script_def demo_texts_def demo_serde_def launch_reply_def get_str_def get_u64_def
        demo_status_def tree_pointer_def session_of_app_def APP_MIRRORING_AUDIO_ONLY_def secs_def)
  define c' where "c' = snd (send_json demo_texts ''me'' PLATFORM_RECEIVER_ID NS_RECEIVER
      (launch_payload demo_texts 7 (app_id AudioOnly)) demo_end)"
  have l: "launch_mirroring demo_texts ''me'' AudioOnly (secs 1) 0 demo_script demo_end 7 =
     (Some (Inr \<lparr>transport_id = ''t-1'', session_id = ''s-1''\<rparr>, []), c', 8)"
    unfolding launch_mirroring_def new_request_id_def Let_def prod.case w c'_def
    by (simp add: send_json_cases demo_end_def)
  have "outbound c' = outbound demo_end @ [\<lparr>source = ''me'', destination = PLATFORM_RECEIVER_ID,
      namespace = NS_RECEIVER, payload = to_text demo_texts (launch_payload demo_texts 7 (app_id AudioOnly))\<rparr>]"
    by (rule launch_matches_request [OF l, THEN conjunct1])
  then have "length (outbound c') = 1" by (simp add: demo_end_def)
  then show ?thesis using l by blast
qed

text \<open>
  C29: Waiting ends, and on the first decisive event. Messages of other namespaces, texts that
  are not JSON, undecided messages and receive timeouts are skipped; then a reply decides, a
  dispatcher that is gone is an error at once, and from the deadline on nothing more is read.
\<close>

theorem wait_decides:
  assumes "\<forall>(t, ev) \<in> set pre. t < deadline \<and> skipped js ns pred ev"
  shows "wait_for_json_message js ns deadline pred (pre @ (t, ev) # evs) =
    (if deadline \<le> t then Some (Inl ReplyTimedOut, (t, ev) # evs)
     else case ev of
       RecvDisconnected \<Rightarrow> Some (Inl ConnectionLost, evs)
     | RecvTimeout \<Rightarrow> wait_for_json_message js ns deadline pred evs
     | Msg m \<Rightarrow>
         if skipped js ns pred ev then wait_for_json_message js ns deadline pred evs
         else Some (the (pred (the (from_str js (payload m)))), evs)) \<and>
   (\<forall>script. (\<exists>(u, e) \<in> set script. deadline \<le> u \<or> e = RecvDisconnected) \<longrightarrow>
      wait_for_json_message js ns deadline pred script \<noteq> None)"
  unfolding wait_skip [OF assms] using wait_total [of deadline _ js ns pred, unfolded list_ex_iff]
  by (auto simp: skipped_def split: recv_event.splits option.splits)

theorem wait_decides_witness:
  "wait_for_json_message demo_texts NS_WEBRTC 5 (answer_reply demo_texts)
     ([(0, RecvTimeout), (1, RecvTimeout)] @ (2, RecvDisconnected) # []) = Some (Inl ConnectionLost, [])"
  using wait_decides [of "[(0, RecvTimeout), (1, RecvTimeout)]" 5 demo_texts NS_WEBRTC
      "answer_reply demo_texts" 2 RecvDisconnected "[]"]
  by (simp add: skipped_def)

text \<open>
  An answer is accepted exactly when its result is ok and its UDP port is a number between 1
  and 65535, and then the port is that number, not a truncation of it; what stands in
  \<open>sendIndexes\<close> never fails the answer.
\<close>

theorem parse_answer_accepts:
  "(\<exists>a. parse_answer js v = Inr a \<and> unat (answer_port a) = n) \<longleftrightarrow>
     get_str js v ''result'' = Some ''ok'' \<and> 1 \<le> n \<and> n \<le> 65535 \<and>
     (\<exists>ans raw. get js v ''answer'' = Some ans \<and> get_u64 js ans ''udpPort'' = Some raw \<and> unat raw = n)"
proof -
  have port: "unat (ucast (raw :: u64) :: u16) = unat raw" if "raw \<le> 65535" for raw
    using that by (simp add: unsigned_ucast_eq take_bit_nat_eq_self word_le_nat_alt)
  show ?thesis
    by (auto simp: parse_answer_def port word_le_nat_alt split: option.splits if_splits)
qed

text \<open>
  Dropping a session unloads the app. On a live channel it enqueues, in this order, STOP for
  the session, CLOSE to its transport and CLOSE to the platform receiver; a dead channel makes
  none of the three fail. The STOP has a request id of its own.
\<close>

theorem drop_session_unloads:
  "outbound (fst (drop_session js me s c counter)) = outbound c @
     (if alive c then
        map (\<lambda>(dst, ns, v). \<lparr>source = me, destination = dst, namespace = ns, payload = to_text js v\<rparr>)
          [(PLATFORM_RECEIVER_ID, NS_RECEIVER, stop_payload js counter (session_id s)),
           (transport_id s, NS_CONNECTION, close_payload js),
           (PLATFORM_RECEIVER_ID, NS_CONNECTION, close_payload js)]
      else []) \<and>
   snd (drop_session js me s c counter) = counter + 1"
  using drop_session_outbound [of js me s c counter]
  by (auto simp: drop_session_def send_stop_def new_request_id_def case_prod_beta)

end
