(* ===== verification/Discovery.thy ===== *)
theory Discovery
  imports Cast_Prelude "HOL-Library.Sublist" "HOL-Library.AList" "HOL-Library.Char_ord"
    "HOL-Library.List_Lexorder" "HOL-Library.Multiset"
begin

text \<open>
  \<open>src/discovery.rs\<close>: browsing mDNS for Cast devices. The daemon's event channel is a script:
  the time at the top of a turn, the event received, and the time after it. The hash map from
  friendly names is an association list; its order does not matter because the result is sorted
  by the key. Strings are compared byte by byte, as Rust does.
\<close>

section \<open>Strings of the standard library\<close>

definition ascii_lower :: "char \<Rightarrow> char" where
  "ascii_lower c = (let n = (of_char c :: nat) in if 65 \<le> n \<and> n \<le> 90 then char_of (n + 32) else c)"

definition to_ascii_lowercase :: "string \<Rightarrow> string" where
  "to_ascii_lowercase s = map ascii_lower s"

definition eq_ignore_ascii_case :: "string \<Rightarrow> string \<Rightarrow> bool" where
  "eq_ignore_ascii_case a b \<longleftrightarrow> to_ascii_lowercase a = to_ascii_lowercase b"

definition str_contains :: "string \<Rightarrow> string \<Rightarrow> bool" where
  "str_contains s pat \<longleftrightarrow> list_ex (\<lambda>n. take (length pat) (drop n s) = pat) [0..<Suc (length s)]"

lemma str_contains_sublist: "str_contains s pat \<longleftrightarrow> sublist pat s"
proof
  assume "str_contains s pat"
  then obtain n where "take (length pat) (drop n s) = pat" by (auto simp: str_contains_def list_ex_iff)
  then have "s = take n s @ pat @ drop (length pat) (drop n s)"
    by (metis append_take_drop_id)
  then show "sublist pat s" unfolding sublist_def by blast
next
  assume "sublist pat s"
  then obtain ps ss where s: "s = ps @ pat @ ss" by (auto simp: sublist_def)
  then have "length ps \<in> set [0..<Suc (length s)]" "take (length pat) (drop (length ps) s) = pat" by simp_all
  then show "str_contains s pat" unfolding str_contains_def list_ex_iff by blast
qed

text \<open>\<open>str::parse::<u32>\<close>: digits, at most one leading plus sign, no overflow.\<close>

fun parse_digits :: "nat \<Rightarrow> string \<Rightarrow> nat option" where
  "parse_digits n [] = Some n"
| "parse_digits n (c # cs) =
     (let d = (of_char c :: nat)
      in if 48 \<le> d \<and> d \<le> 57 \<and> n * 10 + (d - 48) < 2 ^ 32 then parse_digits (n * 10 + (d - 48)) cs
         else None)"

definition parse_u32 :: "string \<Rightarrow> u32 option" where
  "parse_u32 s =
     (let ds = (if s \<noteq> [] \<and> hd s = CHR ''+'' then tl s else s)
      in if ds = [] then None else map_option of_nat (parse_digits 0 ds))"

section \<open>Devices\<close>

definition CA_VIDEO_OUT :: u32 where
  "CA_VIDEO_OUT = 1"

definition QUIET :: nanos where
  "QUIET = millis 2500"

record device =
  friendly_name :: string
  model :: "string option"
  host :: string
  port :: u16
  is_audio_only :: bool

definition is_audio_only_model :: "string \<Rightarrow> bool" where
  "is_audio_only_model md \<longleftrightarrow>
     list_ex (str_contains (to_ascii_lowercase md))
       [''google home'', ''nest mini'', ''nest audio'', ''home mini'', ''home max'']"

definition is_audio_only_device :: "u32 option \<Rightarrow> string option \<Rightarrow> bool" where
  "is_audio_only_device ca md =
     (case ca of
        Some bits \<Rightarrow> and bits CA_VIDEO_OUT = 0
      | None \<Rightarrow> (case md of None \<Rightarrow> False | Some s \<Rightarrow> is_audio_only_model s))"

text \<open>The TXT map, from the properties in the order the daemon lists them; the last value wins.\<close>

definition txt_map :: "(string \<times> string) list \<Rightarrow> string \<Rightarrow> string option" where
  "txt_map props = map_of (rev props)"

definition from_txt :: "string \<Rightarrow> u16 \<Rightarrow> (string \<Rightarrow> string option) \<Rightarrow> device option" where
  "from_txt h p txt =
     (case txt ''fn'' of
        None \<Rightarrow> None
      | Some friendly \<Rightarrow>
          let md = txt ''md''; ca = Option.bind (txt ''ca'') parse_u32
          in Some \<lparr>friendly_name = friendly, model = md, host = h, port = p,
                   is_audio_only = is_audio_only_device ca md\<rparr>)"

section \<open>Browsing\<close>

text \<open>\<open>address\<close>: the first IPv4 address, as text, if the service has one.\<close>

record service_info =
  properties :: "(string \<times> string) list"
  address :: "string option"
  service_port :: u16

datatype service_event = ServiceResolved service_info | OtherEvent | RecvError bool

definition resolved_device :: "service_event \<Rightarrow> device option" where
  "resolved_device ev =
     (case ev of
        ServiceResolved info \<Rightarrow>
          Option.bind (address info) (\<lambda>ip. from_txt ip (service_port info) (txt_map (properties info)))
      | _ \<Rightarrow> None)"

type_synonym devices = "(string \<times> device) list"

text \<open>
  One event: the devices, \<open>last_new_at\<close>, whether the loop breaks, and whether the rest of the turn
  (the quiet check) is skipped, which \<open>continue\<close> does for a service without an IPv4 address.
\<close>

datatype flow = Break | Continue | Fall

definition handle_event ::
  "string option \<Rightarrow> nanos \<Rightarrow> service_event \<Rightarrow> devices \<Rightarrow> nanos \<Rightarrow> devices \<times> nanos \<times> flow" where
  "handle_event wanted now ev devs last_new =
     (case ev of
        ServiceResolved info \<Rightarrow>
          (case address info of
             None \<Rightarrow> (devs, last_new, Continue)
           | Some ip \<Rightarrow>
               (case from_txt ip (service_port info) (txt_map (properties info)) of
                  None \<Rightarrow> (devs, last_new, Fall)
                | Some dev \<Rightarrow>
                    let matched =
                          (case wanted of None \<Rightarrow> False
                           | Some n \<Rightarrow> eq_ignore_ascii_case n (friendly_name dev));
                        is_new = map_of devs (friendly_name dev) = None
                    in (AList.update (friendly_name dev) dev devs,
                        if is_new then now else last_new,
                        if matched then Break else Fall)))
      | OtherEvent \<Rightarrow> (devs, last_new, Fall)
      | RecvError disconnected \<Rightarrow> (devs, last_new, if disconnected then Break else Fall))"

text \<open>\<open>None\<close>: the script ends before the loop does; otherwise the map and the unread script.\<close>

fun browse ::
  "string option \<Rightarrow> nanos \<Rightarrow> devices \<Rightarrow> nanos \<Rightarrow> (nanos \<times> service_event \<times> nanos) list
     \<Rightarrow> (devices \<times> (nanos \<times> service_event \<times> nanos) list) option" where
  "browse wanted deadline devs last_new [] = None"
| "browse wanted deadline devs last_new ((now, ev, after) # evs) =
     (if now < deadline then
        case handle_event wanted after ev devs last_new of
          (devs', last_new', Break) \<Rightarrow> Some (devs', evs)
        | (devs', last_new', Continue) \<Rightarrow> browse wanted deadline devs' last_new' evs
        | (devs', last_new', Fall) \<Rightarrow>
            if wanted = None \<and> QUIET \<le> after - last_new' then Some (devs', evs)
            else browse wanted deadline devs' last_new' evs
      else Some (devs, (now, ev, after) # evs))"

datatype discover_error = DaemonFailed | NotFound string

definition discover ::
  "bool \<Rightarrow> string option \<Rightarrow> nanos \<Rightarrow> nanos \<Rightarrow> (nanos \<times> service_event \<times> nanos) list
     \<Rightarrow> (discover_error + device list) option" where
  "discover daemon_ok wanted timeout start script =
     (if \<not> daemon_ok then Some (Inl DaemonFailed)
      else case browse wanted (start + timeout) [] start script of
        None \<Rightarrow> None
      | Some (devs, _) \<Rightarrow>
          let out = sort_key friendly_name (map snd devs)
          in case wanted of
               None \<Rightarrow> Some (Inr out)
             | Some name \<Rightarrow>
                 let kept = filter (\<lambda>d. eq_ignore_ascii_case (friendly_name d) name) out
                 in if kept = [] then Some (Inl (NotFound name)) else Some (Inr kept))"

section \<open>What a browse collects\<close>

definition add_device :: "service_event \<Rightarrow> devices \<Rightarrow> devices" where
  "add_device ev devs =
     (case resolved_device ev of None \<Rightarrow> devs | Some d \<Rightarrow> AList.update (friendly_name d) d devs)"

definition collected :: "(nanos \<times> service_event \<times> nanos) list \<Rightarrow> devices \<Rightarrow> devices" where
  "collected evs devs = fold (\<lambda>(_, ev, _). add_device ev) evs devs"

lemma handle_event_devices: "fst (handle_event wanted now ev devs last_new) = add_device ev devs"
  by (auto simp: handle_event_def add_device_def resolved_device_def Let_def
      split: service_event.split option.split)

lemma handle_event_break:
  "snd (snd (handle_event wanted now ev devs last_new)) = Break \<Longrightarrow>
     ev = RecvError True \<or>
     (\<exists>n d. wanted = Some n \<and> resolved_device ev = Some d \<and> eq_ignore_ascii_case n (friendly_name d))"
  by (auto simp: handle_event_def resolved_device_def Let_def
      split: service_event.splits option.splits if_splits)

text \<open>
  The loop reads a prefix of the script and keeps the devices resolved in it; how it ended is the
  reason.
\<close>

definition browse_end ::
  "string option \<Rightarrow> nanos \<Rightarrow> (nanos \<times> service_event \<times> nanos) list
     \<Rightarrow> (nanos \<times> service_event \<times> nanos) list \<Rightarrow> bool" where
  "browse_end wanted deadline pre rest \<longleftrightarrow>
     (\<exists>e es. rest = e # es \<and> deadline \<le> fst e) \<or>
     (pre \<noteq> [] \<and> (fst (snd (last pre)) = RecvError True \<or> wanted = None \<or>
       (\<exists>n d. wanted = Some n \<and> resolved_device (fst (snd (last pre))) = Some d \<and>
          eq_ignore_ascii_case n (friendly_name d))))"

lemma browse_end_Cons: "browse_end wanted deadline pre rest \<Longrightarrow> browse_end wanted deadline (x # pre) rest"
  by (auto simp: browse_end_def)

lemma browse_result:
  "browse wanted deadline devs last_new script = Some (devs', rest) \<Longrightarrow>
     \<exists>pre. script = pre @ rest \<and> devs' = collected pre devs \<and> browse_end wanted deadline pre rest"
proof (induction wanted deadline devs last_new script rule: browse.induct)
  case (2 wanted deadline devs last_new now ev after evs)
  obtain devs1 new1 fl where h: "handle_event wanted after ev devs last_new = (devs1, new1, fl)"
    by (cases "handle_event wanted after ev devs last_new") auto
  have d1: "devs1 = add_device ev devs" using handle_event_devices [of wanted after ev devs last_new] h by simp
  have stop: "\<exists>pre. (now, ev, after) # evs = pre @ rest \<and> devs' = collected pre devs \<and>
      browse_end wanted deadline pre rest"
    if "rest = evs" "devs' = devs1" "fl = Break \<or> wanted = None"
    using that d1 handle_event_break [of wanted after ev devs last_new] h
    by (intro exI [of _ "[(now, ev, after)]"]) (auto simp: collected_def browse_end_def)
  have go: "\<exists>pre. (now, ev, after) # evs = pre @ rest \<and> devs' = collected pre devs \<and>
      browse_end wanted deadline pre rest"
    if "\<exists>pre. evs = pre @ rest \<and> devs' = collected pre devs1 \<and> browse_end wanted deadline pre rest"
  proof -
    from that obtain pre where
      "evs = pre @ rest" "devs' = collected pre devs1" "browse_end wanted deadline pre rest"
      by blast
    then show ?thesis
      using d1 browse_end_Cons by (intro exI [of _ "(now, ev, after) # pre"]) (auto simp: collected_def)
  qed
  show ?case
  proof (cases "now < deadline")
    case False
    then show ?thesis using 2(3)
      by (intro exI [of _ "[]"]) (auto simp: collected_def browse_end_def)
  next
    case True
    show ?thesis
    proof (cases fl)
      case Break
      then show ?thesis using 2(3) True h stop by simp
    next
      case Continue
      then have "browse wanted deadline devs1 new1 evs = Some (devs', rest)" using 2(3) True h by simp
      from 2(1) [OF True h [symmetric] refl Continue this] show ?thesis by (rule go)
    next
      case Fall
      show ?thesis
      proof (cases "wanted = None \<and> QUIET \<le> after - new1")
        case t: True
        then show ?thesis using 2(3) True h Fall stop by simp
      next
        case f: False
        then have "browse wanted deadline devs1 new1 evs = Some (devs', rest)" using 2(3) True h Fall by auto
        from 2(2) [OF True h [symmetric] refl Fall f this] show ?thesis by (rule go)
      qed
    qed
  qed
qed simp

lemma browse_total:
  "list_ex (\<lambda>(now, ev, _). deadline \<le> now \<or> ev = RecvError True) script \<Longrightarrow>
     browse wanted deadline devs last_new script \<noteq> None"
proof (induction wanted deadline devs last_new script rule: browse.induct)
  case (2 wanted deadline devs last_new now ev after evs)
  show ?case
  proof (cases "deadline \<le> now \<or> ev = RecvError True")
    case True
    then show ?thesis by (auto simp: handle_event_def)
  next
    case False
    then have ex: "list_ex (\<lambda>(now, ev, _). deadline \<le> now \<or> ev = RecvError True) evs" using 2(3) by simp
    obtain devs1 new1 fl where h: "handle_event wanted after ev devs last_new = (devs1, new1, fl)"
      by (cases "handle_event wanted after ev devs last_new") auto
    show ?thesis
      using 2(1) [OF _ h [symmetric] refl _ ex] 2(2) [OF _ h [symmetric] refl _ _ ex] h False
      by (cases fl) auto
  qed
qed simp

text \<open>The last device resolved under a name is the one kept.\<close>

definition latest :: "(nanos \<times> service_event \<times> nanos) list \<Rightarrow> string \<Rightarrow> device option" where
  "latest evs name = find (\<lambda>d. friendly_name d = name)
     (rev (List.map_filter (\<lambda>(_, ev, _). resolved_device ev) evs))"

lemma collected_snoc:
  "collected (evs @ [(t, ev, u)]) devs = add_device ev (collected evs devs)"
  by (simp add: collected_def)

lemma latest_snoc:
  "latest (evs @ [(t, ev, u)]) name =
     (case resolved_device ev of
        Some d \<Rightarrow> if friendly_name d = name then Some d else latest evs name
      | None \<Rightarrow> latest evs name)"
  by (simp add: latest_def List.map_filter_def split: option.split)

lemma map_of_collected: "map_of (collected evs []) = latest evs"
proof (induction evs rule: rev_induct)
  case Nil
  show ?case by (simp add: collected_def latest_def map_filter_simps fun_eq_iff)
next
  case (snoc e evs)
  obtain t ev u where e: "e = (t, ev, u)" by (cases e) auto
  show ?case
    by (rule ext) (simp add: e collected_snoc latest_snoc add_device_def update_conv' snoc split: option.split)
qed

lemma distinct_collected: "distinct (map fst (collected evs []))"
proof (induction evs rule: rev_induct)
  case (snoc e evs)
  obtain t ev u where e: "e = (t, ev, u)" by (cases e) auto
  show ?case using snoc by (simp add: e collected_snoc add_device_def distinct_update split: option.split)
qed (simp add: collected_def)

lemma collected_keys: "(k, d) \<in> set (collected evs []) \<Longrightarrow> friendly_name d = k"
proof -
  assume "(k, d) \<in> set (collected evs [])"
  then have "latest evs k = Some d" using map_of_collected distinct_collected by (metis map_of_eq_Some_iff)
  then show ?thesis by (auto simp: latest_def find_Some_iff)
qed

lemma set_collected: "d \<in> set (map snd (collected evs [])) \<longleftrightarrow> latest evs (friendly_name d) = Some d"
proof -
  have "d \<in> set (map snd (collected evs [])) \<longleftrightarrow> (friendly_name d, d) \<in> set (collected evs [])"
    using collected_keys by force
  also have "\<dots> \<longleftrightarrow> map_of (collected evs []) (friendly_name d) = Some d"
    by (rule map_of_eq_Some_iff [OF distinct_collected, symmetric])
  finally show ?thesis by (simp only: map_of_collected)
qed

lemma distinct_names: "distinct (map friendly_name (map snd (collected evs [])))"
proof -
  have "map friendly_name (map snd (collected evs [])) = map fst (collected evs [])"
    using collected_keys by fastforce
  then show ?thesis by (simp only: distinct_collected)
qed

text \<open>
  What ends a targeted search: the deadline at the head of a turn, the death of the daemon, a device
  of the wanted name.
\<close>

definition decisive :: "string \<Rightarrow> nanos \<Rightarrow> nanos \<times> service_event \<times> nanos \<Rightarrow> bool" where
  "decisive name deadline = (\<lambda>(t, ev, _). deadline \<le> t \<or> ev = RecvError True \<or>
     (case resolved_device ev of None \<Rightarrow> False | Some d \<Rightarrow> eq_ignore_ascii_case name (friendly_name d)))"

lemma handle_event_goes_on:
  "\<not> decisive name deadline (t, ev, u) \<Longrightarrow> snd (snd (handle_event (Some name) now ev devs last_new)) \<noteq> Break"
  using handle_event_break [of "Some name" now ev devs last_new] by (auto simp: decisive_def split: option.splits)

lemma handle_event_decides:
  "decisive name deadline (t, ev, u) \<Longrightarrow> t < deadline \<Longrightarrow>
     snd (snd (handle_event (Some name) now ev devs last_new)) = Break"
  by (auto simp: decisive_def handle_event_def resolved_device_def Let_def bind_eq_Some_conv
      split: service_event.splits option.splits)

lemma browse_decides:
  assumes "list_all (\<lambda>e. \<not> decisive name deadline e) pre" and "decisive name deadline (t, ev, u)"
  shows "\<exists>unread. browse (Some name) deadline devs last_new (pre @ (t, ev, u) # rest) =
    Some (collected (if t < deadline then pre @ [(t, ev, u)] else pre) devs, unread)"
  using assms(1)
proof (induction pre arbitrary: devs last_new)
  case Nil
  obtain devs1 new1 fl where h: "handle_event (Some name) u ev devs last_new = (devs1, new1, fl)"
    by (cases "handle_event (Some name) u ev devs last_new") auto
  then have "devs1 = add_device ev devs" using handle_event_devices [of "Some name" u ev devs last_new] by simp
  moreover have "t < deadline \<Longrightarrow> fl = Break"
    using handle_event_decides [OF assms(2), of u devs last_new] h by simp
  ultimately show ?case using h by (auto simp: collected_def)
next
  case (Cons e pre)
  obtain t1 ev1 u1 where e: "e = (t1, ev1, u1)" by (cases e)
  obtain devs1 new1 fl where h: "handle_event (Some name) u1 ev1 devs last_new = (devs1, new1, fl)"
    by (cases "handle_event (Some name) u1 ev1 devs last_new") auto
  have "devs1 = add_device ev1 devs" using handle_event_devices [of "Some name" u1 ev1 devs last_new] h by simp
  then have c: "collected xs devs1 = collected (e # xs) devs" for xs by (simp add: e collected_def)
  have "fl \<noteq> Break" using handle_event_goes_on [of name deadline t1 ev1 u1 u1 devs last_new] Cons.prems h e by simp
  moreover have "t1 < deadline" using Cons.prems e by (simp add: decisive_def)
  ultimately have "browse (Some name) deadline devs last_new ((e # pre) @ (t, ev, u) # rest) =
      browse (Some name) deadline devs1 new1 (pre @ (t, ev, u) # rest)"
    using h e by (cases fl) simp_all
  with Cons.IH [of devs1 new1] Cons.prems c show ?case by (cases "t < deadline") simp_all
qed

lemma undecided_names:
  assumes "list_all (\<lambda>e. \<not> decisive name deadline e) pre" and "latest pre n = Some d"
  shows "\<not> eq_ignore_ascii_case (friendly_name d) name"
proof -
  have "d \<in> set (List.map_filter (\<lambda>(_, ev, _). resolved_device ev) pre)"
    using assms(2) unfolding latest_def find_Some_iff by (metis nth_mem set_rev)
  then obtain t ev u where "(t, ev, u) \<in> set pre" "resolved_device ev = Some d"
    by (auto simp: List.map_filter_def)
  then have "\<not> eq_ignore_ascii_case name (friendly_name d)"
    using assms(1) by (force simp: list_all_iff decisive_def)
  then show ?thesis by (auto simp: eq_ignore_ascii_case_def)
qed

lemma only_element: "distinct xs \<Longrightarrow> set xs = {x} \<Longrightarrow> xs = [x]"
  by (cases xs; cases "tl xs") auto

section \<open>Properties\<close>

lemma lower_idem [simp]: "to_ascii_lowercase (to_ascii_lowercase s) = to_ascii_lowercase s"
  by (auto simp: to_ascii_lowercase_def ascii_lower_def Let_def)

definition demo_info :: "string \<Rightarrow> string \<Rightarrow> service_info" where
  "demo_info name ip = \<lparr>properties = [(''fn'', name), (''ca'', ''198660'')], address = Some ip, service_port = 8009\<rparr>"

definition demo_events :: "(nanos \<times> service_event \<times> nanos) list" where
  "demo_events = [(0, ServiceResolved (demo_info ''TV'' ''10.0.0.2''), 0),
     (1, ServiceResolved (demo_info ''Attic'' ''10.0.0.3''), 1), (2, OtherEvent, QUIET + 5)]"

text \<open>
  C26: Discovery reports exactly what was resolved. When it returns a list, that list is sorted by
  friendly name without duplicates, and it holds, for every name resolved in the part of the
  events that was read, the device resolved last under that name, restricted to the wanted name
  (up to ASCII case) if one is given, in which case it is not empty.
\<close>

theorem discover_reports:
  assumes "discover daemon_ok wanted timeout start script = Some (Inr ds)"
  shows "sorted (map friendly_name ds) \<and> distinct (map friendly_name ds) \<and>
    (wanted \<noteq> None \<longrightarrow> ds \<noteq> []) \<and>
    (\<exists>pre rest. script = pre @ rest \<and>
      (\<forall>d. d \<in> set ds \<longleftrightarrow> latest pre (friendly_name d) = Some d \<and>
        (case wanted of None \<Rightarrow> True | Some n \<Rightarrow> eq_ignore_ascii_case (friendly_name d) n)))"
proof -
  obtain devs rest where b: "browse wanted (start + timeout) [] start script = Some (devs, rest)"
    using assms by (auto simp: discover_def split: if_splits option.splits)
  obtain pre where pre: "script = pre @ rest" "devs = collected pre []" using browse_result [OF b] by blast
  let ?P = "\<lambda>d. case wanted of None \<Rightarrow> True | Some n \<Rightarrow> eq_ignore_ascii_case (friendly_name d) n"
  have ds: "ds = filter ?P (sort_key friendly_name (map snd devs))" "wanted \<noteq> None \<longrightarrow> ds \<noteq> []"
    using assms b by (auto simp: discover_def Let_def split: if_splits option.splits)
  have "distinct (map friendly_name (sort_key friendly_name (map snd devs)))"
  proof -
    have "mset (map friendly_name (sort_key friendly_name (map snd devs))) =
        mset (map friendly_name (map snd devs))" by (simp only: mset_map mset_sort)
    then show ?thesis using distinct_names [of pre] pre(2) by (metis mset_eq_imp_distinct_iff)
  qed
  then have "distinct (map friendly_name ds)" using ds(1) by (simp add: distinct_map_filter)
  moreover have "sorted (map friendly_name ds)"
    using ds(1) sorted_filter [of friendly_name "sort_key friendly_name (map snd devs)" ?P] by simp
  moreover have "d \<in> set ds \<longleftrightarrow> latest pre (friendly_name d) = Some d \<and> ?P d" for d
    using ds(1) set_collected [of d pre] pre(2) by auto
  ultimately show ?thesis using ds(2) pre(1) by blast
qed

theorem discover_reports_witness:
  "\<exists>a b. discover True None (secs 10) 0 demo_events = Some (Inr [a, b]) \<and>
     friendly_name a = ''Attic'' \<and> friendly_name b = ''TV'' \<and> sorted [friendly_name a, friendly_name b]"
proof -
  obtain ds where d: "discover True None (secs 10) 0 demo_events = Some (Inr ds)"
      "map friendly_name ds = [''Attic'', ''TV'']"
    by (simp add: discover_def demo_events_def handle_event_def demo_info_def from_txt_def txt_map_def
        QUIET_def secs_def millis_def Let_def)
  then obtain a b where "ds = [a, b]" by auto
  then show ?thesis using discover_reports [OF d(1)] d by auto
qed

text \<open>
  C27: A targeted search returns on the first thing that decides it, and on nothing else. When the
  first decisive turn of the script comes, \<open>discover\<close> has its result, whatever other devices were
  resolved before and however long the network was quiet: the one device of that name, if the turn
  resolved it before the deadline; not found, if it was the deadline or the end of the daemon.
\<close>

theorem targeted_search_decides:
  assumes "list_all (\<lambda>e. \<not> decisive name (start + timeout) e) pre"
    and "decisive name (start + timeout) (t, ev, u)"
  shows "discover True (Some name) timeout start (pre @ (t, ev, u) # rest) =
    Some (case resolved_device ev of
        Some d \<Rightarrow> if t < start + timeout then Inr [d] else Inl (NotFound name)
      | None \<Rightarrow> Inl (NotFound name))"
proof -
  let ?read = "if t < start + timeout then pre @ [(t, ev, u)] else pre"
  let ?out = "sort_key friendly_name (map snd (collected ?read []))"
  let ?kept = "filter (\<lambda>d. eq_ignore_ascii_case (friendly_name d) name) ?out"
  obtain unread where "browse (Some name) (start + timeout) [] start (pre @ (t, ev, u) # rest) =
      Some (collected ?read [], unread)" using browse_decides [OF assms] by blast
  then have result: "discover True (Some name) timeout start (pre @ (t, ev, u) # rest) =
      Some (if ?kept = [] then Inl (NotFound name) else Inr ?kept)" by (simp add: discover_def Let_def)
  have kept: "d \<in> set ?kept \<longleftrightarrow> latest ?read (friendly_name d) = Some d \<and> eq_ignore_ascii_case (friendly_name d) name"
    for d using set_collected [of d ?read] by auto
  note old = undecided_names [OF assms(1)]
  show ?thesis
  proof (cases "t < start + timeout \<and> resolved_device ev \<noteq> None")
    case True
    then obtain d where d: "t < start + timeout" "resolved_device ev = Some d" by blast
    then have "eq_ignore_ascii_case (friendly_name d) name"
      using assms(2) by (auto simp: decisive_def resolved_device_def eq_ignore_ascii_case_def split: option.splits)
    then have "set ?kept = {d}" using kept d old by (auto simp: latest_snoc split: if_splits)
    moreover have "distinct ?kept"
      using distinct_names [of ?read] by (simp only: distinct_map [of friendly_name] distinct_filter distinct_sort)
    ultimately have "?kept = [d]" by (rule only_element [rotated])
    then show ?thesis using result d by simp
  next
    case False
    then have "latest ?read = latest pre" by (auto simp: latest_snoc fun_eq_iff)
    then have "?kept = []" using kept old by (metis (no_types, lifting) list.set_intros(1) neq_Nil_conv)
    then show ?thesis using result False by (auto split: option.splits)
  qed
qed

theorem targeted_search_decides_witness:
  "discover True (Some ''tv'') (secs 10) 0 [(0, ServiceResolved (demo_info ''Attic'' ''10.0.0.3''), 0),
     (1, OtherEvent, QUIET + 5), (2, RecvError False, 2), (secs 10, OtherEvent, secs 10)] = Some (Inl (NotFound ''tv'')) \<and>
   (\<exists>d. friendly_name d = ''TV'' \<and> discover True (Some ''tv'') (secs 10) 0
     [(0, ServiceResolved (demo_info ''Attic'' ''10.0.0.3''), 0), (1, ServiceResolved (demo_info ''TV'' ''10.0.0.2''), 1)] =
     Some (Inr [d]))"
proof -
  let ?attic = "(0 :: nanos, ServiceResolved (demo_info ''Attic'' ''10.0.0.3''), 0 :: nanos)"
  have names: "eq_ignore_ascii_case ''tv'' ''TV''" "\<not> eq_ignore_ascii_case ''tv'' ''Attic''" by code_simp+
  note defs = names demo_info_def from_txt_def txt_map_def resolved_device_def decisive_def Let_def secs_def
  have "discover True (Some ''tv'') (secs 10) 0 ([?attic, (1, OtherEvent, QUIET + 5), (2, RecvError False, 2)] @
      (secs 10, OtherEvent, secs 10) # []) = Some (Inl (NotFound ''tv''))"
    by (subst targeted_search_decides) (simp_all add: defs)
  moreover obtain d where d: "resolved_device (ServiceResolved (demo_info ''TV'' ''10.0.0.2'')) = Some d"
      "friendly_name d = ''TV''" by (simp add: defs)
  have "discover True (Some ''tv'') (secs 10) 0 ([?attic] @ (1, ServiceResolved (demo_info ''TV'' ''10.0.0.2''), 1) # []) =
      Some (Inr [d])"
    by (subst targeted_search_decides) (simp_all add: d(1), simp_all add: defs)
  ultimately show ?thesis using d(2) by auto
qed

end
