(* ===== verification/Sound_Source.thy ===== *)
theory Sound_Source
  imports Audio_Ring
begin

text \<open>
  What a sink is for the rest of the program: something that, whenever it wakes up, writes the
  chunks it was handed to the ring, in order, and does nothing else to it. The locale
  \<open>sound_source\<close> is that interface; each sink interprets it on its own wake-up.
\<close>

definition producer_writes :: "bytes list \<Rightarrow> audio_ring \<Rightarrow> audio_ring" where
  "producer_writes chunks r = fold (\<lambda>bs r. write_s16le r bs) chunks r"

lemma producer_writes_simps [simp]:
  "producer_writes [] r = r"
  "producer_writes (bs # chunks) r = producer_writes chunks (write_s16le r bs)"
  "producer_writes (xs @ ys) r = producer_writes ys (producer_writes xs r)"
  by (simp_all add: producer_writes_def)

lemma producer_writes_dims [simp]:
  "channels (producer_writes cs r) = channels r" "capacity (producer_writes cs r) = capacity r"
  "closed (producer_writes cs r) = closed r"
  by (induction cs arbitrary: r) simp_all

text \<open>The samples a list of chunks adds to the history.\<close>

definition samples_of :: "audio_ring \<Rightarrow> bytes list \<Rightarrow> i16 list" where
  "samples_of r cs = concat (map (chunk_samples (chn r) (capn r)) cs)"

lemma samples_of_append: "samples_of r (cs @ ds) = samples_of r cs @ samples_of r ds"
  by (simp add: samples_of_def)

lemma samples_of_dims:
  "channels r = channels r' \<Longrightarrow> capacity r = capacity r' \<Longrightarrow> samples_of r cs = samples_of r' cs"
  by (simp add: samples_of_def)

lemma producer_writes_repr:
  "ring_repr r h p \<Longrightarrow> ring_repr (producer_writes cs r) (h @ samples_of r cs) p"
proof (induction cs arbitrary: r h)
  case (Cons c cs)
  from write_s16le_repr [OF Cons(2), of c] have
    "ring_repr (write_s16le r c) (h @ chunk_samples (chn r) (capn r) c) p" .
  from Cons(1) [OF this] show ?case by (simp add: samples_of_def)
qed (simp add: samples_of_def)

text \<open>Several wake-ups in a row; \<open>None\<close> when one of them panics.\<close>

fun wake_all :: "('c \<Rightarrow> audio_ring \<Rightarrow> audio_ring option) \<Rightarrow> 'c list \<Rightarrow> audio_ring \<Rightarrow> audio_ring option" where
  "wake_all wake [] r = Some r"
| "wake_all wake (x # xs) r = (case wake x r of None \<Rightarrow> None | Some r' \<Rightarrow> wake_all wake xs r')"

locale sound_source =
  fixes wake :: "'c \<Rightarrow> audio_ring \<Rightarrow> audio_ring option"
    and handed :: "'c \<Rightarrow> bytes list"
    and sane :: "'c \<Rightarrow> bool"
  assumes wake_writes: "sane x \<Longrightarrow> wake x r = Some (producer_writes (handed x) r)"
begin

lemma wake_all_writes: "list_all sane xs \<Longrightarrow> wake_all wake xs r = Some (producer_writes (concat (map handed xs)) r)"
  by (induction xs arbitrary: r) (simp_all add: wake_writes)

lemma wake_repr:
  assumes "sane x" and "ring_repr r h p"
  shows "\<exists>r'. wake x r = Some r' \<and> ring_repr r' (h @ samples_of r (handed x)) p \<and> closed r' = closed r"
  using wake_writes [OF assms(1)] producer_writes_repr [OF assms(2)] by simp

lemma wake_all_repr:
  assumes "list_all sane xs" and "ring_repr r h p"
  shows "\<exists>r'. wake_all wake xs r = Some r' \<and>
    ring_repr r' (h @ samples_of r (concat (map handed xs))) p \<and> closed r' = closed r"
  using wake_all_writes [OF assms(1)] producer_writes_repr [OF assms(2)] by simp

end

end
