(* ===== verification/Cast_Rtp.thy ===== *)
theory Cast_Rtp
  imports Audio_Format
begin

text \<open>
  \<open>src/cast_rtp.rs\<close>: the Cast RTP sender. One Opus frame is one packet: encrypted with
  AES-128-CTR under a nonce derived from the frame id, prefixed by a 12-byte RTP header and a
  7-byte Cast extension, kept in a history of 120 packets, and resent when the receiver's RTCP
  feedback reports it lost. The AES-CTR crates are the parameter \<open>cipher\<close> (key, nonce,
  data); a datagram's fate (\<open>UdpSocket::send_to\<close>) and the clock are arguments.
\<close>

unbundle bit_operations_syntax

section \<open>State\<close>

definition OPUS_SAMPLES_PER_FRAME :: u32 where
  "OPUS_SAMPLES_PER_FRAME = SAMPLE_RATE div 100"

definition HISTORY_FRAMES :: nat where
  "HISTORY_FRAMES = 120"

definition MIN_RESEND_INTERVAL :: nanos where
  "MIN_RESEND_INTERVAL = millis 20"

definition NTP_EPOCH_OFFSET_SECS :: u64 where
  "NTP_EPOCH_OFFSET_SECS = 2208988800"

definition CAST_FEEDBACK_MAGIC :: u32 where
  "CAST_FEEDBACK_MAGIC = 0x43415354"

definition ALL_PACKETS_LOST :: u16 where
  "ALL_PACKETS_LOST = 0xFFFF"

text \<open>\<open>[u8; 16]\<close> fields are byte lists of length 16 (\<open>config_ok\<close>).\<close>

record config =
  chromecast_host :: string
  udp_port :: u16
  ssrc :: u32
  payload_type :: u8
  aes_key :: bytes
  aes_iv_mask :: bytes

record sent_packet =
  pkt_id :: u32
  packet :: bytes
  sent_at :: nanos

record history =
  slots :: "sent_packet option list"
  last_sent :: "u32 option"

text \<open>The thread handles and the stop channel are the facts that they are there.\<close>

record sender =
  conf :: config
  dest :: "string \<times> u16"
  frame_id :: u32
  octet_count :: u64
  stop_tx :: bool
  rtcp_thread :: bool
  sent_history :: history
  nack_stop :: bool
  nack_thread :: bool

type_synonym cipher = "bytes \<Rightarrow> bytes \<Rightarrow> bytes \<Rightarrow> bytes"
type_synonym io_error = string

definition config_ok :: "config \<Rightarrow> bool" where
  "config_ok c \<longleftrightarrow> length (aes_key c) = 16 \<and> length (aes_iv_mask c) = 16"

section \<open>History\<close>

definition history_new :: history where
  "history_new = \<lparr>slots = replicate HISTORY_FRAMES None, last_sent = None\<rparr>"

definition history_slot :: "u32 \<Rightarrow> nat" where
  "history_slot fid = unat fid mod HISTORY_FRAMES"

definition get_mut :: "history \<Rightarrow> u32 \<Rightarrow> sent_packet option" where
  "get_mut h fid = (case slots h ! history_slot fid of
     None \<Rightarrow> None | Some sent \<Rightarrow> if pkt_id sent = fid then Some sent else None)"

definition record_packet :: "history \<Rightarrow> u32 \<Rightarrow> bytes \<Rightarrow> nanos \<Rightarrow> history" where
  "record_packet h fid pkt now =
     h\<lparr>slots := (slots h)[history_slot fid := Some \<lparr>pkt_id = fid, packet = pkt, sent_at = now\<rparr>],
       last_sent := Some fid\<rparr>"

text \<open>A store through the reference \<open>get_mut\<close> returned.\<close>

definition set_sent_at :: "history \<Rightarrow> u32 \<Rightarrow> sent_packet \<Rightarrow> nanos \<Rightarrow> history" where
  "set_sent_at h fid sent now =
     h\<lparr>slots := (slots h)[history_slot fid := Some (sent\<lparr>sent_at := now\<rparr>)]\<rparr>"

section \<open>Sending a frame\<close>

definition new :: "config \<Rightarrow> sender" where
  "new c = \<lparr>conf = c, dest = (chromecast_host c, udp_port c), frame_id = 0, octet_count = 0,
     stop_tx = False, rtcp_thread = False, sent_history = history_new, nack_stop = False,
     nack_thread = False\<rparr>"

definition nonce :: "config \<Rightarrow> u32 \<Rightarrow> bytes" where
  "nonce c fid =
     (let zero = replicate 16 0; n = take 8 zero @ to_be32 fid @ drop 12 zero
      in map2 (XOR) n (aes_iv_mask c))"

definition encrypt :: "cipher \<Rightarrow> config \<Rightarrow> bytes \<Rightarrow> u32 \<Rightarrow> bytes" where
  "encrypt cipher c data fid = cipher (aes_key c) (nonce c fid) data"

definition build_packet :: "config \<Rightarrow> bytes \<Rightarrow> u32 \<Rightarrow> bytes" where
  "build_packet c encrypted fid =
     (let v_p_x_cc = 0x80;
          m_pt = 0x80 OR (payload_type c AND 0x7F);
          sq = ucast (fid AND 0xFFFF);
          ts = fid * OPUS_SAMPLES_PER_FRAME;
          frame_id_u8 = ucast (fid AND 0xFF)
      in [v_p_x_cc, m_pt] @ to_be16 sq @ to_be32 ts @ to_be32 (ssrc c) @
         [0x80 OR 0x40, frame_id_u8] @ to_be16 0 @ to_be16 0 @ [frame_id_u8] @ encrypted)"

text \<open>
  \<open>outcome\<close> is the result of \<open>send_to\<close>, \<open>now\<close> the clock when the packet is
  recorded. The datagram handed to the socket is the third component.
\<close>

definition send_frame ::
  "cipher \<Rightarrow> io_error option \<Rightarrow> nanos \<Rightarrow> bytes \<Rightarrow> sender \<Rightarrow> (io_error + unit) \<times> sender \<times> bytes" where
  "send_frame cipher outcome now opus s =
     (let fid = frame_id s;
          enc = encrypt cipher (conf s) opus fid;
          pkt = build_packet (conf s) enc fid
      in case outcome of
           Some e \<Rightarrow> (Inl e, s, pkt)
         | None \<Rightarrow> (Inr (), s\<lparr>sent_history := record_packet (sent_history s) fid pkt now, frame_id := fid + 1,
                           octet_count := octet_count s + of_nat (length opus)\<rparr>, pkt))"

definition snapshot :: "sender \<Rightarrow> u32 \<times> u64" where
  "snapshot s = (frame_id s, octet_count s)"

section \<open>RTCP\<close>

definition build_rtcp_sr_at :: "u32 \<Rightarrow> u32 \<Rightarrow> u64 \<Rightarrow> nanos \<Rightarrow> bytes" where
  "build_rtcp_sr_at sid fid octets now =
     (let ntp_sec = ucast (of_nat (now div 1000000000) + NTP_EPOCH_OFFSET_SECS :: u64) :: u32;
          ntp_frac = ucast ((of_nat (now mod 1000000000) * push_bit 32 1 div 1000000000 :: u64)
                       AND 0xFFFFFFFF) :: u32;
          rtp_ts = fid * OPUS_SAMPLES_PER_FRAME
      in [0x80, 200] @ to_be16 6 @ to_be32 sid @ to_be32 ntp_sec @ to_be32 ntp_frac @
         to_be32 rtp_ts @ to_be32 fid @ to_be32 (ucast octets))"

text \<open>\<open>wall\<close> is the wall clock relative to the epoch; before it the report says zero.\<close>

definition build_rtcp_sr :: "u32 \<Rightarrow> u32 \<Rightarrow> u64 \<Rightarrow> int \<Rightarrow> bytes" where
  "build_rtcp_sr sid fid octets wall = build_rtcp_sr_at sid fid octets (nat wall)"

definition expand_le :: "u32 \<Rightarrow> u8 \<Rightarrow> u32" where
  "expand_le mx truncated = mx - ucast ((ucast mx :: u8) - truncated)"

definition nacked_fields :: "u32 \<Rightarrow> bytes \<Rightarrow> u32 list" where
  "nacked_fields ck loss =
     concat (map (\<lambda>field.
       let fid = expand_le (ck + 256) (field ! 0);
           packet_id = from_be16 (field ! 1) (field ! 2)
       in if packet_id = 0 \<or> packet_id = ALL_PACKETS_LOST then [fid] else [])
     (chunks_exact 4 loss))"

text \<open>
  One turn of the \<open>while\<close> loop of \<open>parse_nacked_frames\<close> on a non-empty buffer: \<open>None\<close> is a
  \<open>return Vec::new()\<close>; otherwise the bytes left, \<open>checkpoint\<close> and \<open>nacked\<close> for the next turn.
\<close>

definition parse_one ::
  "u32 \<Rightarrow> u32 \<Rightarrow> bytes \<Rightarrow> u32 option \<Rightarrow> u32 list \<Rightarrow> (bytes \<times> u32 option \<times> u32 list) option" where
  "parse_one sid last_fid buf checkpoint nacked =
     (if length buf < 4 \<or> drop_bit 5 (buf ! 0) \<noteq> 4 then None
      else
        let fmt = buf ! 0 AND 0x1F;
            pt = buf ! 1;
            payload_len = unat (from_be16 (buf ! 2) (buf ! 3)) * 4
        in case get_range buf 4 (4 + payload_len) of
          None \<Rightarrow> None
        | Some payload \<Rightarrow>
          let rest = drop (4 + payload_len) buf in
          if pt \<noteq> 206 \<or> fmt \<noteq> 15 then Some (rest, checkpoint, nacked)
          else if length payload < 16 then None
          else if from_be32 (payload ! 4) (payload ! 5) (payload ! 6) (payload ! 7) \<noteq> sid
            then Some (rest, checkpoint, nacked)
          else if from_be32 (payload ! 8) (payload ! 9) (payload ! 10) (payload ! 11)
                    \<noteq> CAST_FEEDBACK_MAGIC then None
          else
            let ck = expand_le last_fid (payload ! 12);
                loss_fields = unat (payload ! 13)
            in if (case checkpoint of None \<Rightarrow> False | Some prev \<Rightarrow> sint (ck - prev) < 0)
               then Some (rest, checkpoint, nacked)
               else case get_range payload 16 (16 + loss_fields * 4) of
                   None \<Rightarrow> None
                 | Some loss \<Rightarrow> Some (rest, Some ck, nacked_fields ck loss))"

text \<open>Every turn consumes a whole packet, header included.\<close>

lemma parse_one_rest:
  assumes "parse_one sid last_fid buf cp nacked = Some (rest, cp', nacked')"
  shows "4 \<le> length buf" and "drop_bit 5 (buf ! 0) = 4"
    and "4 + unat (from_be16 (buf ! 2) (buf ! 3)) * 4 \<le> length buf"
    and "rest = drop (4 + unat (from_be16 (buf ! 2) (buf ! 3)) * 4) buf"
  using assms unfolding parse_one_def Let_def get_range_def
  by (auto split: if_splits)

function parse_loop :: "u32 \<Rightarrow> u32 \<Rightarrow> bytes \<Rightarrow> u32 option \<Rightarrow> u32 list \<Rightarrow> u32 list" where
  "parse_loop sid last_fid buf checkpoint nacked =
     (if buf = [] then nacked
      else case parse_one sid last_fid buf checkpoint nacked of
          None \<Rightarrow> []
        | Some (rest, checkpoint', nacked') \<Rightarrow> parse_loop sid last_fid rest checkpoint' nacked')"
  by pat_completeness auto
termination
  by (relation "measure (\<lambda>(sid, last_fid, buf, checkpoint, nacked). length buf)")
    (auto dest: parse_one_rest)

declare parse_loop.simps [simp del]

definition parse_nacked_frames :: "bytes \<Rightarrow> u32 \<Rightarrow> u32 \<Rightarrow> u32 list" where
  "parse_nacked_frames buf sid last_fid = parse_loop sid last_fid buf None []"

section \<open>Retransmission\<close>

text \<open>
  The \<open>for\<close> loop of \<open>serve_nacks\<close>. \<open>ok k\<close> tells whether the \<open>k\<close>-th \<open>send_to\<close> of this
  datagram succeeds; the result lists the packets that were sent and the history.
\<close>

fun resend_frames ::
  "nanos \<Rightarrow> (nat \<Rightarrow> bool) \<Rightarrow> nat \<Rightarrow> u32 list \<Rightarrow> history \<Rightarrow> (u32 \<times> bytes) list \<times> history" where
  "resend_frames now ok k [] h = ([], h)"
| "resend_frames now ok k (fid # fids) h =
     (case get_mut h fid of
        None \<Rightarrow> resend_frames now ok k fids h
      | Some sent \<Rightarrow>
          if now - sent_at sent < MIN_RESEND_INTERVAL then resend_frames now ok k fids h
          else if ok k then
            let (out, h') = resend_frames now ok (Suc k) fids (set_sent_at h fid sent now)
            in ((fid, packet sent) # out, h')
          else resend_frames now ok (Suc k) fids h)"

text \<open>
  One turn of the loop of \<open>serve_nacks\<close>: \<open>recv\<close> is what \<open>recv_from\<close> returned (\<open>None\<close> an
  error or the read timeout), with the source address.
\<close>

definition serve_nack ::
  "'ip \<Rightarrow> u32 \<Rightarrow> (bytes \<times> 'ip) option \<Rightarrow> nanos \<Rightarrow> (nat \<Rightarrow> bool) \<Rightarrow> history
     \<Rightarrow> (u32 \<times> bytes) list \<times> history" where
  "serve_nack peer sid recv now ok h =
     (case recv of
        None \<Rightarrow> ([], h)
      | Some (buf, src) \<Rightarrow>
          if src \<noteq> peer then ([], h)
          else case last_sent h of
            None \<Rightarrow> ([], h)
          | Some last_fid \<Rightarrow> resend_frames now ok 0 (parse_nacked_frames buf sid last_fid) h)"

section \<open>Threads\<close>

text \<open>\<open>is_ip\<close> tells whether the host parses as an IP address (\<open>std::net::IpAddr\<close>).\<close>

definition start :: "(string \<Rightarrow> bool) \<Rightarrow> sender \<Rightarrow> sender" where
  "start is_ip s =
     (let s1 = s\<lparr>stop_tx := True, rtcp_thread := True\<rparr>
      in if is_ip (fst (dest s1)) then s1\<lparr>nack_thread := True\<rparr> else s1)"

datatype recv_timeout = Timeout | Disconnected | Received

text \<open>One turn of the RTCP thread: the report it sends, and whether it goes on.\<close>

definition rtcp_turn :: "sender \<Rightarrow> int \<Rightarrow> recv_timeout \<Rightarrow> bytes \<times> bool" where
  "rtcp_turn s wall rx =
     (build_rtcp_sr (ssrc (conf s)) (frame_id s) (octet_count s) wall,
      case rx of Timeout \<Rightarrow> True | _ \<Rightarrow> False)"

text \<open>Joining a thread means it has ended.\<close>

definition stop :: "sender \<Rightarrow> sender" where
  "stop s = s\<lparr>stop_tx := False, rtcp_thread := False, nack_stop := True, nack_thread := False\<rparr>"

definition drop_sender :: "sender \<Rightarrow> sender" where
  "drop_sender s = (if rtcp_thread s then stop s else s)"

section \<open>Frame ids\<close>

lemma ucast_minus_down: "(ucast (a - b :: u32) :: u8) = ucast a - ucast b"
proof -
  have d: "(ucast w :: u8) = of_int (uint w)" for w :: u32 by simp
  have t: "(of_int (take_bit 32 x) :: u8) = of_int x" for x :: int
    by (rule bit_word_eqI) (simp add: bit_simps)
  have "(ucast (a - b) :: u8) = of_int (take_bit 32 (uint a - uint b))"
    by (simp only: d uint_word_ariths(2)) (simp add: take_bit_eq_mod)
  also have "\<dots> = ucast a - ucast b" by (simp only: t d of_int_diff)
  finally show ?thesis .
qed

lemma ucast_up_down: "(ucast (ucast (t :: u8) :: u32) :: u8) = t"
  by (rule bit_word_eqI) (simp add: bit_simps)

lemma ucast_down_up:
  assumes "unat (d :: u32) < 256"
  shows "ucast (ucast d :: u8) = d"
  using assms
  by (simp add: word_unat_eq_iff unsigned_ucast_eq unsigned_take_bit_eq take_bit_nat_eq_self)

lemma unat_ucast_u8_lt: "unat (ucast (t :: u8) :: u32) < 256"
  using unat_u8_lt [of t] by (simp add: unsigned_ucast_eq take_bit_nat_eq_self)

lemma expand_le_low: "(ucast (expand_le mx t) :: u8) = t"
  by (simp add: expand_le_def ucast_minus_down ucast_up_down)

lemma expand_le_near: "unat (mx - expand_le mx t) < 256"
  by (simp add: expand_le_def unat_ucast_u8_lt)

lemma expand_le_unique:
  assumes "ucast x = t" and "unat (mx - x) < 256"
  shows "expand_le mx t = x"
proof -
  have "(ucast mx :: u8) - t = ucast (mx - x)" by (simp add: ucast_minus_down assms(1))
  then show ?thesis by (simp add: expand_le_def ucast_down_up [OF assms(2)])
qed

lemma expand_le_greatest:
  assumes "y \<le> mx" and "ucast y = t"
  shows "expand_le mx t \<le> mx" and "y \<le> expand_le mx t"
proof -
  let ?e = "expand_le mx t"
  have sub: "unat (mx - y) = unat mx - unat y" using assms(1) by (simp add: unat_sub)
  have yl: "unat y \<le> unat mx" using assms(1) by (simp add: word_le_nat_alt)
  show "y \<le> ?e" "?e \<le> mx"
  proof (atomize (full), cases "unat (mx - y) < 256")
    case True
    then show "y \<le> ?e \<and> ?e \<le> mx" using expand_le_unique [OF assms(2)] assms(1) by simp
  next
    case False
    have d: "unat (mx - ?e) < 256" by (rule expand_le_near)
    then have "mx - ?e \<le> mx" using False sub by (simp add: word_le_nat_alt)
    then have "unat ?e = unat mx - unat (mx - ?e)"
      using unat_sub [of "mx - ?e" mx] by simp
    then show "y \<le> ?e \<and> ?e \<le> mx" using d False sub yl by (simp add: word_le_nat_alt)
  qed
qed

section \<open>Nonces\<close>

text \<open>The 128-bit big-endian counter of a CTR block.\<close>

definition be_value :: "bytes \<Rightarrow> nat" where
  "be_value bs = foldl (\<lambda>v b. v * 256 + unat b) 0 bs"

lemma foldl_be: "foldl (\<lambda>v b. v * 256 + unat b) v bs = v * 256 ^ length bs + be_value bs"
  unfolding be_value_def
proof (induction bs arbitrary: v)
  case (Cons b bs)
  show ?case
    using Cons [of "v * 256 + unat b"] Cons [of "unat b"] by (simp add: algebra_simps)
qed simp

lemma be_value_append: "be_value (xs @ ys) = be_value xs * 256 ^ length ys + be_value ys"
  using foldl_be [of "be_value xs" ys] by (simp add: be_value_def)

lemma be_value_snoc: "be_value (bs @ [b]) = be_value bs * 256 + unat b"
  by (simp add: be_value_def)

lemma be_value_lt: "be_value bs < 256 ^ length bs"
proof (induction bs rule: rev_induct)
  case (snoc b bs)
  then have "be_value bs + 1 \<le> 256 ^ length bs" by simp
  then have "(be_value bs + 1) * 256 \<le> 256 ^ length bs * 256" by (rule mult_le_mono1)
  moreover have "be_value bs * 256 + unat b < (be_value bs + 1) * 256"
    using unat_u8_lt [of b] by simp
  ultimately have "be_value bs * 256 + unat b < 256 ^ length bs * 256" by linarith
  then show ?case by (simp add: be_value_snoc)
qed (simp add: be_value_def)

lemma be_value_inj: "length xs = length ys \<Longrightarrow> be_value xs = be_value ys \<Longrightarrow> xs = ys"
proof (induction xs arbitrary: ys rule: rev_induct)
  case (snoc x xs)
  then obtain ys' y where ys: "ys = ys' @ [y]" by (cases ys rule: rev_exhaust) auto
  have split: "u = v \<and> k = l" if "k * 256 + u = l * 256 + v" "u < 256" "v < 256" for k l u v :: nat
  proof -
    have "(k * 256 + u) mod 256 = u" "(l * 256 + v) mod 256 = v"
      "(k * 256 + u) div 256 = k" "(l * 256 + v) div 256 = l"
      using that(2,3) by simp_all
    then show ?thesis using that(1) by metis
  qed
  have "unat x = unat y \<and> be_value xs = be_value ys'"
    using snoc.prems(2) unfolding ys be_value_snoc by (rule split) (rule unat_u8_lt)+
  then show ?case using snoc.IH [of ys'] snoc.prems(1) ys by (simp add: word_unat_eq_iff)
qed simp

lemma nonce_split:
  assumes "config_ok c"
  shows "nonce c fid = take 8 (aes_iv_mask c) @
     map2 (XOR) (to_be32 fid) (take 4 (drop 8 (aes_iv_mask c))) @ drop 12 (aes_iv_mask c)"
proof -
  let ?m = "aes_iv_mask c"
  have z: "map2 (XOR) (replicate k 0) xs = xs" if "length xs = k" for k and xs :: bytes
    using that by (induction k arbitrary: xs) (auto simp: length_Suc_conv)
  have len: "length ?m = 16" using assms by (simp add: config_ok_def)
  have m: "?m = take 8 ?m @ take 4 (drop 8 ?m) @ drop 12 ?m"
    using take_add [of 8 4 ?m] append_take_drop_id [of 12 ?m] by simp
  have "nonce c fid = map2 (XOR) (replicate 8 0 @ to_be32 fid @ replicate 4 0)
      (take 8 ?m @ take 4 (drop 8 ?m) @ drop 12 ?m)"
    by (subst m [symmetric]) (simp add: nonce_def)
  also have "\<dots> = map2 (XOR) (replicate 8 0) (take 8 ?m) @
      map2 (XOR) (to_be32 fid) (take 4 (drop 8 ?m)) @ map2 (XOR) (replicate 4 0) (drop 12 ?m)"
    using len by (simp add: zip_append1 zip_append)
  finally show ?thesis using len by (simp add: z)
qed

lemma xor_cancel: "a XOR b = c XOR b \<Longrightarrow> a = (c :: u8)"
proof -
  assume "a XOR b = c XOR b"
  then have "(a XOR b) XOR b = (c XOR b) XOR b" by (rule arg_cong)
  then show "a = c" by (simp add: xor.assoc)
qed

lemma map2_xor_inj:
  "length xs = length m \<Longrightarrow> length ys = length m \<Longrightarrow>
   map2 (XOR) xs m = map2 (XOR) ys (m :: bytes) \<Longrightarrow> xs = ys"
proof (induction m arbitrary: xs ys)
  case (Cons b m)
  then obtain x xs' y ys' where "xs = x # xs'" "ys = y # ys'"
    by (metis length_Suc_conv)
  with Cons show ?case by (auto dest: xor_cancel)
qed simp

definition counter_block :: "config \<Rightarrow> u32 \<Rightarrow> nat \<Rightarrow> nat" where
  "counter_block c fid j = (be_value (nonce c fid) + j) mod 2 ^ 128"

lemma nonce_value:
  assumes "config_ok c"
  obtains H L where "L < 2 ^ 32" and "H < 2 ^ 64" and
    "\<And>fid. be_value (nonce c fid) = H * 2 ^ 64 +
      be_value (map2 (XOR) (to_be32 fid) (take 4 (drop 8 (aes_iv_mask c)))) * 2 ^ 32 + L"
proof
  let ?m = "aes_iv_mask c"
  have len: "length ?m = 16" using assms by (simp add: config_ok_def)
  show "be_value (drop 12 ?m) < 2 ^ 32" using be_value_lt [of "drop 12 ?m"] len by simp
  show "be_value (take 8 ?m) < 2 ^ 64" using be_value_lt [of "take 8 ?m"] len by simp
  fix fid
  show "be_value (nonce c fid) = be_value (take 8 ?m) * 2 ^ 64 +
      be_value (map2 (XOR) (to_be32 fid) (take 4 (drop 8 ?m))) * 2 ^ 32 + be_value (drop 12 ?m)"
    using len by (simp add: nonce_split [OF assms] be_value_append algebra_simps)
qed

lemma counter_arith:
  fixes H L u v j k :: nat
  assumes "L < 2 ^ 32" "H < 2 ^ 64" "u < 2 ^ 32" "v < 2 ^ 32" "j < 2 ^ 32" "k < 2 ^ 32"
    and eq: "(H * 2 ^ 64 + u * 2 ^ 32 + L + j) mod 2 ^ 128
           = (H * 2 ^ 64 + v * 2 ^ 32 + L + k) mod 2 ^ 128"
  shows "u = v \<and> j = k"
proof -
  have low: "(H * 2 ^ 64 + x * 2 ^ 32 + L + i) mod 2 ^ 32 = (L + i) mod 2 ^ 32" for x i
  proof -
    have "H * 2 ^ 64 + x * 2 ^ 32 + L + i = (L + i) + 2 ^ 32 * (H * 2 ^ 32 + x)"
      by simp
    then show ?thesis by (simp only: mod_mult_self2)
  qed
  have dvd: "(2 :: nat) ^ 32 dvd 2 ^ 128" by (rule le_imp_power_dvd) simp
  have "x mod 2 ^ 32 = y mod 2 ^ 32" if "x mod 2 ^ 128 = y mod 2 ^ 128" for x y :: nat
    using mod_mod_cancel [OF dvd, of x] mod_mod_cancel [OF dvd, of y] that by (simp only:)
  from this [OF eq] have "(L + j) mod 2 ^ 32 = (L + k) mod 2 ^ 32" by (simp only: low)
  then have "L + j = L + k" by (rule mod_eq_near) (use assms(5,6) in linarith)+
  then have jk: "j = k" by simp
  have lt: "H * 2 ^ 64 + x * 2 ^ 32 + L < 2 ^ 128" if "x < 2 ^ 32" for x
    using assms(1,2) that by simp
  have "H * 2 ^ 64 + u * 2 ^ 32 + L + j = H * 2 ^ 64 + v * 2 ^ 32 + L + k"
    using eq by (rule mod_eq_near) (use lt [OF assms(3)] lt [OF assms(4)] jk in linarith)+
  with jk show ?thesis by simp
qed

lemma parse_loop_Nil [simp]: "parse_loop sid last_fid [] cp nk = nk"
  by (simp add: parse_loop.simps)

lemma parse_loop_None:
  "buf \<noteq> [] \<Longrightarrow> parse_one sid last_fid buf cp nk = None \<Longrightarrow> parse_loop sid last_fid buf cp nk = []"
  by (simp add: parse_loop.simps)

lemma parse_loop_Some:
  "buf \<noteq> [] \<Longrightarrow> parse_one sid last_fid buf cp nk = Some (rest, cp', nk') \<Longrightarrow>
   parse_loop sid last_fid buf cp nk = parse_loop sid last_fid rest cp' nk'"
  by (simp add: parse_loop.simps)

section \<open>Feedback\<close>

text \<open>
  The compound packet a receiver sends, as the crate's tests build it: an XR block, then Cast
  feedback with a checkpoint and the loss fields (frame, packet, bit vector).
\<close>

definition feedback :: "u32 \<Rightarrow> u8 \<Rightarrow> (u8 \<times> u16 \<times> u8) list \<Rightarrow> bytes" where
  "feedback sid checkpoint losses =
     [0x80, 0xCF, 0, 4, 0, 0, 0, 1, 4, 0, 0, 2, 0, 0, 0, 0, 0, 0, 0, 0] @
     [0x8F, 206] @ to_be16 (4 + of_nat (length losses)) @ to_be32 1 @ to_be32 sid @
     [0x43, 0x41, 0x53, 0x54] @ [checkpoint, of_nat (length losses), 0, 0] @
     concat (map (\<lambda>(frame, packet, bits). [frame] @ to_be16 packet @ [bits]) losses)"

definition nacks :: "(u8 \<times> u16 \<times> u8) list \<Rightarrow> u8 list" where
  "nacks losses =
     map fst (filter (\<lambda>(_, packet, _). packet = 0 \<or> packet = ALL_PACKETS_LOST) losses)"

lemma length_losses:
  "length (concat (map (\<lambda>(frame, packet, bits). [frame] @ to_be16 packet @ [bits]) losses))
     = length losses * 4"
  by (induction losses) auto

lemma nacked_fields_losses:
  "nacked_fields ck (concat (map (\<lambda>(frame, packet, bits). [frame] @ to_be16 packet @ [bits]) losses))
     = map (expand_le (ck + 256)) (nacks losses)"
proof (induction losses)
  case (Cons l losses)
  obtain f p b where l: "l = (f, p, b)" by (cases l)
  have "chunks_exact 4 (([f] @ to_be16 p @ [b]) @ xs) = ([f] @ to_be16 p @ [b]) # chunks_exact 4 xs" for xs
    by (rule chunks_exact_append) simp_all
  with Cons show ?case
    by (simp add: l nacked_fields_def nacks_def Let_def to_be16_def byte_simps)
qed (simp add: nacked_fields_def nacks_def)

lemma parse_one_skip:
  "length pl = 16 \<Longrightarrow> parse_one sid last_fid ([0x80, 0xCF, 0, 4] @ pl @ rest) cp nk = Some (rest, cp, nk)"
  by (simp add: parse_one_def get_range_def Let_def from_be16_def)

lemma unat_len16: "n \<le> 255 \<Longrightarrow> unat (4 + of_nat n :: u16) = 4 + n"
proof -
  assume n: "n \<le> 255"
  have "unat (of_nat (4 + n) :: u16) = take_bit 16 (4 + n)" by (simp only: unsigned_of_nat) simp
  also have "\<dots> = 4 + n" using n by (simp add: take_bit_nat_eq_self)
  finally show ?thesis by simp
qed

lemma unat_len8: "n \<le> 255 \<Longrightarrow> unat (of_nat n :: u8) = n"
  by (simp only: unsigned_of_nat) (simp add: take_bit_nat_eq_self)

lemma parse_one_feedback:
  assumes "length losses \<le> 255"
  shows "parse_one sid last_fid (drop 20 (feedback to ck losses)) None [] =
    (if to = sid then Some ([], Some (expand_le last_fid ck),
       map (expand_le (expand_le last_fid ck + 256)) (nacks losses))
     else Some ([], None, []))"
proof -
  let ?L = "concat (map (\<lambda>(frame, packet, bits). [frame] @ to_be16 packet @ [bits]) losses)"
  have len: "length ?L = length losses * 4" by (rule length_losses)
  have d: "drop 20 (feedback to ck losses) = [0x8F, 206,
      ucast (drop_bit 8 (4 + of_nat (length losses) :: u16)), ucast (4 + of_nat (length losses) :: u16)]
      @ to_be32 1 @ to_be32 to @ [0x43, 0x41, 0x53, 0x54, ck, of_nat (length losses), 0, 0] @ ?L"
    by (simp add: feedback_def to_be16_def)
  have pl: "unat (from_be16 (ucast (drop_bit 8 (4 + of_nat (length losses) :: u16)))
      (ucast (4 + of_nat (length losses) :: u16))) * 4 = 16 + length losses * 4"
    using unat_len16 [OF assms] by (simp add: byte_simps)
  have magic: "from_be32 0x43 0x41 0x53 0x54 = CAST_FEEDBACK_MAGIC"
    by (simp add: from_be32_def CAST_FEEDBACK_MAGIC_def)
  show ?thesis
    unfolding d parse_one_def Let_def
    using assms len pl magic nacked_fields_losses [of _ losses] unat_len8 [OF assms]
    by (simp add: get_range_def to_be32_def byte_simps)
qed

lemma parse_feedback:
  assumes "length losses \<le> 255"
  shows "parse_nacked_frames (feedback to ck losses) sid last_fid =
    (if to = sid then map (expand_le (expand_le last_fid ck + 256)) (nacks losses) else [])"
proof -
  let ?x = "[4, 0, 0, 2, 0, 0, 0, 0, 0, 0, 0, 0] :: bytes"
  have f: "feedback to ck losses = [0x80, 0xCF, 0, 4] @ ([0, 0, 0, 1] @ ?x) @ drop 20 (feedback to ck losses)"
    by (simp add: feedback_def)
  have 1: "parse_one sid last_fid (feedback to ck losses) None [] =
      Some (drop 20 (feedback to ck losses), None, [])"
    by (subst f) (rule parse_one_skip, simp)
  have ne: "feedback to ck losses \<noteq> []" "drop 20 (feedback to ck losses) \<noteq> []"
    by (simp_all add: feedback_def)
  have "parse_nacked_frames (feedback to ck losses) sid last_fid
      = parse_loop sid last_fid (drop 20 (feedback to ck losses)) None []"
    unfolding parse_nacked_frames_def by (rule parse_loop_Some [OF ne(1) 1])
  also have "\<dots> = (if to = sid then map (expand_le (expand_le last_fid ck + 256)) (nacks losses) else [])"
  proof (cases "to = sid")
    case True
    then have p: "parse_one sid last_fid (drop 20 (feedback to ck losses)) None [] =
        Some ([], Some (expand_le last_fid ck), map (expand_le (expand_le last_fid ck + 256)) (nacks losses))"
      by (subst parse_one_feedback [OF assms]) (rule if_P)
    show ?thesis unfolding parse_loop_Some [OF ne(2) p] using True by simp
  next
    case False
    then have p: "parse_one sid last_fid (drop 20 (feedback to ck losses)) None [] = Some ([], None, [])"
      by (subst parse_one_feedback [OF assms]) (rule if_not_P)
    show ?thesis unfolding parse_loop_Some [OF ne(2) p] using False by simp
  qed
  finally show ?thesis .
qed

section \<open>What the parser can yield\<close>

text \<open>The buffer is a sequence of whole RTCP packets of version 2 without padding.\<close>

function compound_ok :: "bytes \<Rightarrow> bool" where
  "compound_ok buf =
     (if buf = [] then True
      else if length buf < 4 \<or> drop_bit 5 (buf ! 0) \<noteq> 4 \<or>
          length buf < 4 + unat (from_be16 (buf ! 2) (buf ! 3)) * 4 then False
      else compound_ok (drop (4 + unat (from_be16 (buf ! 2) (buf ! 3)) * 4) buf))"
  by pat_completeness auto
termination
  by (relation "measure length") auto

declare compound_ok.simps [simp del]

lemma parse_loop_compound:
  "parse_loop sid last_fid buf cp nk \<noteq> [] \<Longrightarrow> compound_ok buf"
proof (induction sid last_fid buf cp nk rule: parse_loop.induct)
  case (1 sid last_fid buf cp nk)
  show ?case
  proof (cases "buf = []")
    case True
    then show ?thesis by (simp add: compound_ok.simps)
  next
    case False
    with 1(2) obtain rest cp' nk' where
      p: "parse_one sid last_fid buf cp nk = Some (rest, cp', nk')"
      by (metis option.exhaust parse_loop_None prod_cases3)
    have "compound_ok rest"
      using 1(1) [OF False p refl refl] 1(2) parse_loop_Some [OF False p] by metis
    then show ?thesis
      using parse_one_rest [OF p] by (subst compound_ok.simps) simp
  qed
qed

text \<open>Frame ids the parser may report when the newest frame sent is \<open>last_fid\<close>.\<close>

definition nack_window :: "u32 \<Rightarrow> u32 \<Rightarrow> bool" where
  "nack_window last_fid fid \<longleftrightarrow>
     (\<exists>ck. unat (last_fid - ck) < 256 \<and> unat (ck + 256 - fid) < 256)"

lemma nacked_fields_window:
  "fid \<in> set (nacked_fields ck loss) \<Longrightarrow> unat (ck + 256 - fid) < 256"
  by (auto simp: nacked_fields_def Let_def expand_le_near split: if_splits)

lemma parse_one_window:
  assumes "parse_one sid last_fid buf cp nk = Some (rest, cp', nk')"
    and "\<forall>fid \<in> set nk. nack_window last_fid fid"
  shows "\<forall>fid \<in> set nk'. nack_window last_fid fid"
  using assms unfolding parse_one_def Let_def
  by (auto simp: nack_window_def split: if_splits option.splits
      intro: expand_le_near dest!: nacked_fields_window)

lemma parse_loop_window:
  "\<forall>fid \<in> set nk. nack_window last_fid fid \<Longrightarrow>
   \<forall>fid \<in> set (parse_loop sid last_fid buf cp nk). nack_window last_fid fid"
proof (induction sid last_fid buf cp nk rule: parse_loop.induct)
  case (1 sid last_fid buf cp nk)
  show ?case
  proof (cases "buf = []")
    case False
    show ?thesis
    proof (cases "parse_one sid last_fid buf cp nk")
      case None
      then show ?thesis using parse_loop_None [OF False] by simp
    next
      case (Some a)
      then obtain rest cp' nk' where
        p: "parse_one sid last_fid buf cp nk = Some (rest, cp', nk')" by (cases a) auto
      show ?thesis
        unfolding parse_loop_Some [OF False p]
        using 1(1) [OF False p refl refl parse_one_window [OF p 1(2)]] .
    qed
  qed (use 1(2) in simp)
qed

section \<open>Sender reports\<close>

lemma unat_of_nat64: "n < 2 ^ 64 \<Longrightarrow> unat (of_nat n :: u64) = n"
  by (simp only: unsigned_of_nat) (simp add: take_bit_nat_eq_self)

lemma ntp_frac_value:
  assumes "n < 1000000000"
  shows "unat (ucast ((of_nat n * push_bit 32 1 div 1000000000 :: u64) AND 0xFFFFFFFF) :: u32)
    = n * 2 ^ 32 div 1000000000"
proof -
  have "of_nat n * push_bit 32 1 = (of_nat (n * 2 ^ 32) :: u64)"
    by (simp add: push_bit_eq_mult)
  then have u: "unat (of_nat n * push_bit 32 1 div 1000000000 :: u64) = n * 2 ^ 32 div 1000000000"
    using unat_of_nat64 [of "n * 2 ^ 32"] assms by (simp add: unat_div_distrib del: of_nat_mult)
  have lt: "n * 2 ^ 32 div 1000000000 < 2 ^ 32"
    using assms by (simp add: div_less_iff_less_mult)
  have "(0xFFFFFFFF :: u64) = mask 32" by (simp add: mask_eq_exp_minus_1)
  then have "unat (ucast ((of_nat n * push_bit 32 1 div 1000000000 :: u64) AND 0xFFFFFFFF) :: u32)
      = take_bit 32 (take_bit 32 (n * 2 ^ 32 div 1000000000))"
    by (simp only: unsigned_ucast_eq unsigned_take_bit_eq u flip: take_bit_eq_mask) simp
  then show ?thesis using lt by (simp add: take_bit_nat_eq_self)
qed

lemma ntp_sec_value:
  assumes "t + 2208988800 < 2 ^ 64"
  shows "unat (ucast (of_nat t + NTP_EPOCH_OFFSET_SECS :: u64) :: u32) = (t + 2208988800) mod 2 ^ 32"
proof -
  have "of_nat t + NTP_EPOCH_OFFSET_SECS = (of_nat (t + 2208988800) :: u64)"
    by (simp add: NTP_EPOCH_OFFSET_SECS_def)
  then have "unat (of_nat t + NTP_EPOCH_OFFSET_SECS :: u64) = t + 2208988800"
    using unat_of_nat64 [OF assms] by (simp del: of_nat_add)
  then show ?thesis
    by (simp add: unsigned_ucast_eq unsigned_take_bit_eq take_bit_eq_mod)
qed

section \<open>Properties\<close>

text \<open>A configuration for the witnesses: the one of the crate's reference vectors.\<close>

definition demo_config :: config where
  "demo_config = \<lparr>chromecast_host = ''127.0.0.1'', udp_port = 1, ssrc = 0xDEADBEEF,
     payload_type = 127, aes_key = map of_nat [0..<16], aes_iv_mask = map (\<lambda>i. 0xF0 + of_nat i) [0..<16]\<rparr>"

definition demo_cipher :: cipher where
  "demo_cipher k n d = map (\<lambda>b. b XOR (k ! 3 XOR n ! 11)) d"

lemma demo_config_ok: "config_ok demo_config"
  by (simp add: config_ok_def demo_config_def)

text \<open>
  C12: No keystream reuse. AES-CTR encrypts the \<open>j\<close>-th 16-byte block of a frame under the counter
  nonce plus \<open>j\<close>. Two different frame ids never use the same counter block, for frames of up to
  \<open>2 ^ 32\<close> blocks (an Opus frame has at most 250), whatever the IV mask, carries included.
\<close>

theorem counter_blocks_disjoint:
  assumes "config_ok c" and "j < 2 ^ 32" and "k < 2 ^ 32"
    and "counter_block c fid j = counter_block c fid' k"
  shows "fid = fid' \<and> j = k"
proof -
  let ?x = "\<lambda>fid. map2 (XOR) (to_be32 fid) (take 4 (drop 8 (aes_iv_mask c)))"
  obtain H L where HL: "L < 2 ^ 32" "H < 2 ^ 64"
      "\<And>fid. be_value (nonce c fid) = H * 2 ^ 64 + be_value (?x fid) * 2 ^ 32 + L"
    using nonce_value [OF assms(1)] by blast
  have len: "length (?x f) = 4" for f using assms(1) by (simp add: config_ok_def)
  have lt: "be_value (?x f) < 2 ^ 32" for f using be_value_lt [of "?x f"] len by simp
  have eq: "be_value (?x fid) = be_value (?x fid') \<and> j = k"
    using assms(4) unfolding counter_block_def HL(3)
    by (rule counter_arith [OF HL(1,2) lt lt assms(2,3)])
  then have "?x fid = ?x fid'" using be_value_inj len by metis
  then have "to_be32 fid = to_be32 fid'"
    by (rule map2_xor_inj [rotated 2]) (use assms(1) in \<open>simp_all add: config_ok_def\<close>)
  then show ?thesis using eq to_be32_inj by blast
qed

theorem counter_blocks_disjoint_witness:
  "counter_block demo_config 5 3 \<noteq> counter_block demo_config 6 2"
  using counter_blocks_disjoint [OF demo_config_ok, of 3 2 5 6] by auto

text \<open>
  The receiver's side. From a packet of \<open>build_packet\<close> it reads the sequence
  number (low 16 bits of the frame id), the timestamp (480 per frame, wrapping), the SSRC and the
  payload type; it expands the 8-bit frame id of byte 13 against its newest id, and, when that
  lies less than 256 ahead, gets the sender's frame id, hence the nonce, and decrypts the
  payload. The cipher is only assumed to undo itself, as XOR with a keystream does.
\<close>

definition receive :: "cipher \<Rightarrow> config \<Rightarrow> u32 \<Rightarrow> bytes \<Rightarrow> u32 \<times> bytes" where
  "receive cipher c newest pkt =
     (let fid = expand_le newest (pkt ! 13)
      in (fid, cipher (aes_key c) (nonce c fid) (drop 19 pkt)))"

definition rtp_header :: "bytes \<Rightarrow> u8 \<times> u16 \<times> u32 \<times> u32" where
  "rtp_header p = (p ! 1 AND 0x7F, from_be16 (p ! 2) (p ! 3),
     from_be32 (p ! 4) (p ! 5) (p ! 6) (p ! 7), from_be32 (p ! 8) (p ! 9) (p ! 10) (p ! 11))"

lemma low_bits:
  "(ucast (w AND 0xFFFF :: u32) :: u16) = ucast w" "(ucast (w AND 0xFF :: u32) :: u8) = ucast w"
  "(0x80 OR (b AND 0x7F)) AND 0x7F = (b AND 0x7F :: u8)"
proof -
  have m: "(0xFFFF :: u32) = mask 16" "(0xFF :: u32) = mask 8" "(0x7F :: u8) = mask 7"
    by (simp_all add: mask_eq_exp_minus_1)
  show "(ucast (w AND 0xFFFF :: u32) :: u16) = ucast w" "(ucast (w AND 0xFF :: u32) :: u8) = ucast w"
    unfolding m by (rule bit_word_eqI; auto simp: bit_simps)+
  show "(0x80 OR (b AND 0x7F)) AND 0x7F = (b AND 0x7F :: u8)"
    by (simp add: bit.conj_disj_distrib2 and.assoc)
qed

lemma receive_packet:
  assumes "\<And>k n d. cipher k n (cipher k n d) = d" and "unat (newest - fid) < 256"
    and "pkt = build_packet c (encrypt cipher c opus fid) fid"
  shows "receive cipher c newest pkt = (fid, opus) \<and>
    rtp_header pkt = (payload_type c AND 0x7F, ucast fid, fid * 480, ssrc c) \<and>
    length pkt = 19 + length (encrypt cipher c opus fid)"
proof -
  have "expand_le newest (ucast fid) = fid" by (rule expand_le_unique [OF refl assms(2)])
  then show ?thesis
    unfolding assms(3)
    by (simp add: receive_def rtp_header_def build_packet_def Let_def to_be16_def to_be32_def
        low_bits byte_simps encrypt_def assms(1) OPUS_SAMPLES_PER_FRAME_def SAMPLE_RATE_def)
qed

text \<open>
  \<open>expand_le\<close> is openscreen's expansion: the result has the given low byte and lies within
  256 below the maximum (wrapping); when some id \<open>\<le> max\<close> has that low byte, the result is the
  greatest such id.
\<close>

theorem expand_le_spec:
  shows "ucast (expand_le mx t) = t \<and> unat (mx - expand_le mx t) < 256 \<and>
    (\<forall>y. y \<le> mx \<and> ucast y = t \<longrightarrow> y \<le> expand_le mx t \<and> expand_le mx t \<le> mx)"
  using expand_le_low expand_le_near expand_le_greatest by blast

theorem expand_le_spec_witness: "expand_le 707 196 = 452 \<and> (452 :: u32) \<le> expand_le 707 196"
  using expand_le_spec [of 707 196] by (simp add: expand_le_def)

text \<open>
  C13: Feedback is understood. On the compound packet a receiver sends (an XR block, then Cast
  feedback for \<open>to\<close>) the parser yields, in order, the frames whose packet 0 or all packets are
  reported lost, expanded past the checkpoint, and nothing when the feedback is for another SSRC.
\<close>

theorem feedback_roundtrip:
  assumes "length losses \<le> 255"
  shows "parse_nacked_frames (feedback to ck losses) sid last_fid =
    (if to = sid then map (expand_le (expand_le last_fid ck + 256)) (nacks losses) else [])"
  by (rule parse_feedback [OF assms])

theorem feedback_roundtrip_witness:
  "parse_nacked_frames (feedback 7 195 [(196, 0xFFFF, 0), (3, 1, 3), (2, 0, 0)]) 7 780 = [708, 770]"
  using feedback_roundtrip [of "[(196, 0xFFFF, 0), (3, 1, 3), (2, 0, 0)]" 7 195 7 780]
  by (simp add: nacks_def ALL_PACKETS_LOST_def expand_le_def)

text \<open>
  C14: An unauthenticated peer cannot make the parser report much. Whatever bytes arrive, a frame
  is reported only when the whole buffer is a sequence of complete RTCP packets, and every
  reported id lies within 256 of a checkpoint that is itself within 256 of the newest frame sent.
\<close>

theorem nacks_bounded:
  assumes "fid \<in> set (parse_nacked_frames buf sid last_fid)"
  shows "compound_ok buf \<and> nack_window last_fid fid"
proof
  have "parse_loop sid last_fid buf None [] \<noteq> []"
    using assms by (auto simp: parse_nacked_frames_def)
  then show "compound_ok buf" by (rule parse_loop_compound)
  show "nack_window last_fid fid"
    using assms parse_loop_window [of "[]" last_fid sid buf None] by (simp add: parse_nacked_frames_def)
qed

theorem nacks_bounded_witness:
  "708 \<in> set (parse_nacked_frames (feedback 7 195 [(196, 0xFFFF, 0)]) 7 780) \<and>
   compound_ok (feedback 7 195 [(196, 0xFFFF, 0)]) \<and> nack_window 780 708"
  using nacks_bounded [of 708 "feedback 7 195 [(196, 0xFFFF, 0)]" 7 780]
    parse_feedback [of "[(196, 0xFFFF, 0)]" 7 195 7 780]
  by (simp add: nacks_def ALL_PACKETS_LOST_def expand_le_def)

text \<open>
  C15: A sender report is 28 bytes that read back as: packet type 200 with length 6, the SSRC, the
  NTP time (seconds since 1900 modulo \<open>2 ^ 32\<close>, and the fraction of the second rounded down to
  the resolution of \<open>2 ^ -32\<close>), the RTP time of the next frame, the frame count and the low 32
  bits of the octet count.
\<close>

theorem sender_report_contents:
  assumes "now div 1000000000 + 2208988800 < 2 ^ 64"
  shows "let sr = build_rtcp_sr_at sid fid octets now;
      word = \<lambda>i. from_be32 (sr ! i) (sr ! (i + 1)) (sr ! (i + 2)) (sr ! (i + 3));
      frac = unat (word 12); n = now mod 1000000000
    in length sr = 28 \<and> sr ! 1 = 200 \<and> from_be16 (sr ! 2) (sr ! 3) = 6 \<and> word 4 = sid \<and>
      unat (word 8) = (now div 1000000000 + 2208988800) mod 2 ^ 32 \<and>
      frac * 1000000000 \<le> n * 2 ^ 32 \<and> n * 2 ^ 32 < (frac + 1) * 1000000000 \<and>
      word 16 = fid * 480 \<and> word 20 = fid \<and> word 24 = ucast octets"
proof -
  have n: "now mod 1000000000 < 1000000000" by simp
  have d: "x div 1000000000 * 1000000000 \<le> x \<and> x < (x div 1000000000 + 1) * 1000000000" for x :: nat
    using dividend_less_div_times [of 1000000000 x] div_times_less_eq_dividend [of x 1000000000]
    by simp
  have "from_be16 0 6 = 6" by (simp add: from_be16_def)
  then show ?thesis
    using ntp_frac_value [OF n] ntp_sec_value [OF assms] d [of "now mod 1000000000 * 2 ^ 32"]
    by (simp add: build_rtcp_sr_at_def Let_def to_be16_def to_be32_def byte_simps
        OPUS_SAMPLES_PER_FRAME_def SAMPLE_RATE_def)
qed

theorem sender_report_contents_witness:
  "let sr = build_rtcp_sr_at 0xDEADBEEF 12345 987654 1234567890500000000;
      word = \<lambda>i. from_be32 (sr ! i) (sr ! (i + 1)) (sr ! (i + 2)) (sr ! (i + 3))
    in length sr = 28 \<and> word 4 = 0xDEADBEEF \<and> unat (word 8) = 3443556690 \<and> word 16 = 5925600 \<and>
      word 20 = 12345 \<and> word 24 = 987654"
  using sender_report_contents [where now = 1234567890500000000 and sid = "0xDEADBEEF"
      and fid = 12345 and octets = 987654]
  by (simp add: Let_def)

end
