(* ===== verification/Rtp_System.thy ===== *)
theory Rtp_System
  imports Cast_Rtp
begin

text \<open>
  The RTP sender with its two threads (\<open>src/cast_rtp.rs\<close>). The capture thread calls
  \<open>send_frame\<close> and the \<open>rtcp-nack\<close> thread serves datagrams; they share the history under a
  mutex, so a step is a whole critical section. The RTCP thread only reads the counters.

  \<open>frames\<close>, \<open>originals\<close> and \<open>log\<close> are ghost fields: the Opus frames of the successful
  \<open>send_frame\<close> calls in order, their packets, and every RTP datagram that left the socket. An
  entry of \<open>log\<close> carries the reading of the clock that the sender itself records for the datagram as
  \<open>sent_at\<close>, not the instant of the system call: for an original, \<open>Instant::now()\<close> in
  \<open>History::record\<close>, taken just after its \<open>send_to\<close>; for retransmissions, the one \<open>now\<close> that
  \<open>serve_nacks\<close> takes per datagram of feedback, before its loop of \<open>send_to\<close> calls.
\<close>

record rtp_sys =
  snder :: sender
  frames :: "bytes list"
  originals :: "bytes list"
  log :: "(nanos \<times> u32 \<times> bytes) list"

definition rtp_init :: "config \<Rightarrow> rtp_sys" where
  "rtp_init c = \<lparr>snder = new c, frames = [], originals = [], log = []\<rparr>"

inductive rtp_step :: "cipher \<Rightarrow> 'ip \<Rightarrow> rtp_sys \<Rightarrow> rtp_sys \<Rightarrow> bool" for cipher peer where
  send: "send_frame cipher outcome now opus (snder s) = (Inr (), s', pkt) \<Longrightarrow>
    rtp_step cipher peer s (s\<lparr>snder := s', frames := frames s @ [opus],
      originals := originals s @ [pkt], log := log s @ [(now, frame_id (snder s), pkt)]\<rparr>)"
| send_fail: "send_frame cipher outcome now opus (snder s) = (Inl e, s', pkt) \<Longrightarrow>
    rtp_step cipher peer s (s\<lparr>snder := s'\<rparr>)"
| nack: "serve_nack peer (ssrc (conf (snder s))) recv now ok (sent_history (snder s)) = (out, h) \<Longrightarrow>
    rtp_step cipher peer s (s\<lparr>snder := (snder s)\<lparr>sent_history := h\<rparr>,
      log := log s @ map (\<lambda>(fid, pkt). (now, fid, pkt)) out\<rparr>)"

inductive rtp_reachable :: "cipher \<Rightarrow> 'ip \<Rightarrow> config \<Rightarrow> rtp_sys \<Rightarrow> bool" for cipher peer c where
  init: "rtp_reachable cipher peer c (rtp_init c)"
| step: "rtp_reachable cipher peer c s \<Longrightarrow> rtp_step cipher peer s t \<Longrightarrow>
    rtp_reachable cipher peer c t"

section \<open>The history holds the last window of frames\<close>

text \<open>
  Every slot holds the packet of a frame of the last 120, at its id modulo 120, or nothing while
  fewer frames than that were sent.
\<close>

definition slot_ok :: "bytes list \<Rightarrow> nat \<Rightarrow> sent_packet option \<Rightarrow> bool" where
  "slot_ok ps k sl = (case sl of
     None \<Rightarrow> length ps \<le> k
   | Some sp \<Rightarrow> \<exists>i. i < length ps \<and> length ps \<le> i + HISTORY_FRAMES \<and> i mod HISTORY_FRAMES = k \<and>
       pkt_id sp = of_nat i \<and> packet sp = ps ! i)"

definition history_ok :: "history \<Rightarrow> bytes list \<Rightarrow> bool" where
  "history_ok h ps \<longleftrightarrow> length (slots h) = HISTORY_FRAMES \<and>
     (\<forall>k < HISTORY_FRAMES. slot_ok ps k (slots h ! k)) \<and>
     last_sent h = (if ps = [] then None else Some (of_nat (length ps - 1)))"

lemma unat_of_nat32: "n < 2 ^ 32 \<Longrightarrow> unat (of_nat n :: u32) = n"
  by (simp only: unsigned_of_nat) (simp add: take_bit_nat_eq_self)

lemma history_slot_of_nat: "n < 2 ^ 32 \<Longrightarrow> history_slot (of_nat n) = n mod HISTORY_FRAMES"
  by (simp only: history_slot_def unat_of_nat32)

lemma history_slot_lt: "history_slot fid < HISTORY_FRAMES"
  by (simp add: history_slot_def HISTORY_FRAMES_def)

lemma history_new_ok: "history_ok history_new []"
  by (simp add: history_ok_def history_new_def slot_ok_def)

lemma get_mut_new [simp]: "get_mut history_new fid = None"
  using history_slot_lt [of fid] by (simp add: get_mut_def history_new_def)

lemma slot_ok_append:
  assumes "slot_ok ps k sl" and "k < HISTORY_FRAMES" and "k \<noteq> length ps mod HISTORY_FRAMES"
  shows "slot_ok (ps @ [pkt]) k sl"
proof (cases sl)
  case None
  with assms(1) have "length ps \<le> k" by (simp add: slot_ok_def)
  moreover have "k \<noteq> length ps" using assms(2,3) by auto
  ultimately show ?thesis using None by (simp add: slot_ok_def)
next
  case (Some sp)
  with assms(1) obtain i where i: "i < length ps" "length ps \<le> i + HISTORY_FRAMES"
      "i mod HISTORY_FRAMES = k" "pkt_id sp = of_nat i" "packet sp = ps ! i"
    by (auto simp: slot_ok_def)
  have "length ps \<noteq> i + HISTORY_FRAMES" using i(3) assms(3) by auto
  then show ?thesis
    using i Some by (auto simp: slot_ok_def nth_append intro!: exI [of _ i])
qed

lemma record_packet_ok:
  assumes "history_ok h ps" and "length ps < 2 ^ 32"
  shows "history_ok (record_packet h (of_nat (length ps)) pkt now) (ps @ [pkt])"
proof -
  have new: "slot_ok (ps @ [pkt]) (length ps mod HISTORY_FRAMES)
      (Some \<lparr>pkt_id = of_nat (length ps), packet = pkt, sent_at = now\<rparr>)"
    by (auto simp: slot_ok_def HISTORY_FRAMES_def intro!: exI [of _ "length ps"])
  show ?thesis
    using assms new
    by (auto simp: history_ok_def record_packet_def history_slot_of_nat nth_list_update
        intro: slot_ok_append)
qed

lemma set_sent_at_ok:
  assumes "history_ok h ps" and "get_mut h fid = Some sp"
  shows "history_ok (set_sent_at h fid sp now) ps"
proof -
  have "slots h ! history_slot fid = Some sp"
    using assms(2) by (simp add: get_mut_def split: option.splits if_splits)
  then have "slot_ok ps (history_slot fid) (Some (sp\<lparr>sent_at := now\<rparr>))"
    using assms(1) history_slot_lt [of fid] by (fastforce simp: history_ok_def slot_ok_def)
  moreover have "slot_ok ps k (slots (set_sent_at h fid sp now) ! k)"
    if "k < HISTORY_FRAMES" "k \<noteq> history_slot fid" for k
    using assms(1) that by (simp add: history_ok_def set_sent_at_def)
  ultimately have "slot_ok ps k (slots (set_sent_at h fid sp now) ! k)" if "k < HISTORY_FRAMES" for k
    using assms(1) that by (cases "k = history_slot fid") (auto simp: history_ok_def set_sent_at_def)
  then show ?thesis
    using assms(1) by (auto simp: history_ok_def set_sent_at_def)
qed

text \<open>So the lookup answers exactly for the window, with the original packet.\<close>

lemma get_mut_Some:
  assumes "history_ok h ps" and "get_mut h fid = Some sp" and "length ps \<le> 2 ^ 32"
  shows "unat fid < length ps \<and> length ps \<le> unat fid + HISTORY_FRAMES \<and>
    pkt_id sp = fid \<and> packet sp = ps ! unat fid"
proof -
  have sl: "slots h ! history_slot fid = Some sp" "pkt_id sp = fid"
    using assms(2) by (auto simp: get_mut_def split: option.splits if_splits)
  then have "slot_ok ps (history_slot fid) (Some sp)"
    using assms(1) history_slot_lt [of fid] by (metis history_ok_def)
  then obtain i where i: "i < length ps" "length ps \<le> i + HISTORY_FRAMES" "pkt_id sp = of_nat i"
      "packet sp = ps ! i"
    by (auto simp: slot_ok_def)
  then have "unat fid = i" using sl(2) unat_of_nat32 [of i] assms(3) by simp
  with i sl show ?thesis by simp
qed

lemma get_mut_window:
  assumes "history_ok h ps" and "i < length ps" and "length ps \<le> i + HISTORY_FRAMES"
    and "length ps \<le> 2 ^ 32"
  shows "get_mut h (of_nat i) \<noteq> None"
proof -
  let ?k = "i mod HISTORY_FRAMES"
  have lt: "i < 2 ^ 32" using assms(2,4) by linarith
  have k: "?k < HISTORY_FRAMES" "history_slot (of_nat i) = ?k"
    using history_slot_of_nat [OF lt] by (simp_all add: HISTORY_FRAMES_def)
  have so: "slot_ok ps ?k (slots h ! ?k)" using assms(1) k(1) by (simp add: history_ok_def)
  show ?thesis
  proof (cases "slots h ! ?k")
    case None
    with so have "length ps \<le> ?k" by (simp add: slot_ok_def)
    also have "?k \<le> i" by simp
    finally show ?thesis using assms(2) by simp
  next
    case (Some sp)
    with so obtain j where j: "j < length ps" "length ps \<le> j + HISTORY_FRAMES" "j mod HISTORY_FRAMES = ?k"
        "pkt_id sp = of_nat j" by (auto simp: slot_ok_def)
    have "j = i" by (rule mod_eq_near [OF j(3)]) (use j assms(2,3) in linarith)+
    then show ?thesis using Some j(4) k(2) by (simp add: get_mut_def)
  qed
qed

section \<open>The invariant\<close>

text \<open>
  \<open>spaced\<close>: two transmissions of one frame are at least \<open>MIN_RESEND_INTERVAL\<close> apart.
  \<open>recorded\<close>: the time kept with a packet is that of its last transmission.
\<close>

definition spaced :: "(nanos \<times> u32 \<times> bytes) list \<Rightarrow> bool" where
  "spaced l \<longleftrightarrow> sorted_wrt (\<lambda>(t1, f1, _) (t2, f2, _). f1 = f2 \<longrightarrow> t1 + MIN_RESEND_INTERVAL \<le> t2) l"

definition recorded :: "history \<Rightarrow> (nanos \<times> u32 \<times> bytes) list \<Rightarrow> bool" where
  "recorded h l \<longleftrightarrow> (\<forall>fid sp. get_mut h fid = Some sp \<longrightarrow>
     (\<exists>p. (sent_at sp, fid, p) \<in> set l) \<and> (\<forall>(t, f, _) \<in> set l. f = fid \<longrightarrow> t \<le> sent_at sp))"

definition log_ok :: "(nanos \<times> u32 \<times> bytes) list \<Rightarrow> bytes list \<Rightarrow> bool" where
  "log_ok l ps \<longleftrightarrow> (\<forall>(t, f, pkt) \<in> set l. unat f < length ps \<and> pkt = ps ! unat f)"

definition frame_packet :: "cipher \<Rightarrow> config \<Rightarrow> bytes list \<Rightarrow> nat \<Rightarrow> bytes" where
  "frame_packet cipher c os i = build_packet c (encrypt cipher c (os ! i) (of_nat i)) (of_nat i)"

definition counters_ok :: "cipher \<Rightarrow> config \<Rightarrow> rtp_sys \<Rightarrow> bool" where
  "counters_ok cipher c s \<longleftrightarrow> conf (snder s) = c \<and>
     frame_id (snder s) = of_nat (length (frames s)) \<and>
     octet_count (snder s) = of_nat (sum_list (map length (frames s))) \<and>
     originals s = map (frame_packet cipher c (frames s)) [0..<length (frames s)]"

definition rtp_inv :: "rtp_sys \<Rightarrow> bool" where
  "rtp_inv s \<longleftrightarrow> history_ok (sent_history (snder s)) (originals s) \<and> log_ok (log s) (originals s) \<and>
     recorded (sent_history (snder s)) (log s) \<and> spaced (log s)"

lemma spaced_snoc:
  "spaced (l @ [(t, f, p)]) \<longleftrightarrow>
     spaced l \<and> (\<forall>(t1, f1, _) \<in> set l. f1 = f \<longrightarrow> t1 + MIN_RESEND_INTERVAL \<le> t)"
  by (auto simp: spaced_def sorted_wrt_append)

lemma log_ok_snoc:
  "log_ok (l @ [(t, f, p)]) ps \<longleftrightarrow> log_ok l ps \<and> unat f < length ps \<and> p = ps ! unat f"
  by (auto simp: log_ok_def)

lemma log_okD: "log_ok l ps \<Longrightarrow> (t, f, p) \<in> set l \<Longrightarrow> unat f < length ps \<and> p = ps ! unat f"
  by (auto simp: log_ok_def)

lemma log_ok_append: "log_ok l ps \<Longrightarrow> log_ok l (ps @ [p])"
  by (fastforce simp: log_ok_def nth_append)

lemma get_mut_record:
  "length (slots h) = HISTORY_FRAMES \<Longrightarrow> get_mut (record_packet h fid pkt now) f =
     (if f = fid then Some \<lparr>pkt_id = fid, packet = pkt, sent_at = now\<rparr>
      else if history_slot f = history_slot fid then None else get_mut h f)"
  using history_slot_lt [of fid] by (auto simp: get_mut_def record_packet_def)

lemma last_sent_record: "last_sent (record_packet h fid pkt now) = Some fid"
  by (simp add: record_packet_def)

lemma get_mut_set_sent_at:
  "length (slots h) = HISTORY_FRAMES \<Longrightarrow> pkt_id sp = fid \<Longrightarrow>
     get_mut (set_sent_at h fid sp now) f =
     (if f = fid then Some (sp\<lparr>sent_at := now\<rparr>)
      else if history_slot f = history_slot fid then None else get_mut h f)"
  using history_slot_lt [of fid] by (auto simp: get_mut_def set_sent_at_def)

text \<open>A successful send.\<close>

lemma record_inv:
  assumes "history_ok h ps" "log_ok l ps" "recorded h l" "spaced l" "length ps < 2 ^ 32"
  defines "fid \<equiv> of_nat (length ps)"
  shows "history_ok (record_packet h fid pkt now) (ps @ [pkt])"
    and "log_ok (l @ [(now, fid, pkt)]) (ps @ [pkt])"
    and "recorded (record_packet h fid pkt now) (l @ [(now, fid, pkt)])"
    and "spaced (l @ [(now, fid, pkt)])"
proof -
  have u: "unat fid = length ps" unfolding fid_def by (rule unat_of_nat32 [OF assms(5)])
  then have new: "f \<noteq> fid" if "(t, f, p) \<in> set l" for t f p
    using assms(2) that by (auto simp: log_ok_def)
  have len: "length (slots h) = HISTORY_FRAMES" using assms(1) by (simp add: history_ok_def)
  show "history_ok (record_packet h fid pkt now) (ps @ [pkt])"
    unfolding fid_def by (rule record_packet_ok [OF assms(1,5)])
  show "log_ok (l @ [(now, fid, pkt)]) (ps @ [pkt])"
    using log_ok_append [OF assms(2)] u by (simp add: log_ok_snoc)
  show "recorded (record_packet h fid pkt now) (l @ [(now, fid, pkt)])"
    using assms(3) new by (fastforce simp: recorded_def get_mut_record [OF len] split: if_splits)
  show "spaced (l @ [(now, fid, pkt)])"
    using assms(4) new by (fastforce simp: spaced_snoc)
qed

text \<open>One retransmission.\<close>

lemma resend_inv:
  assumes "history_ok h ps" "log_ok l ps" "recorded h l" "spaced l" "length ps \<le> 2 ^ 32"
    and "get_mut h fid = Some sp" and "\<not> now - sent_at sp < MIN_RESEND_INTERVAL"
  shows "history_ok (set_sent_at h fid sp now) ps"
    and "log_ok (l @ [(now, fid, packet sp)]) ps"
    and "recorded (set_sent_at h fid sp now) (l @ [(now, fid, packet sp)])"
    and "spaced (l @ [(now, fid, packet sp)])"
proof -
  have sp: "unat fid < length ps" "pkt_id sp = fid" "packet sp = ps ! unat fid"
    using get_mut_Some [OF assms(1,6,5)] by auto
  have len: "length (slots h) = HISTORY_FRAMES" using assms(1) by (simp add: history_ok_def)
  have "0 < MIN_RESEND_INTERVAL" by (simp add: MIN_RESEND_INTERVAL_def millis_def)
  then have late: "sent_at sp + MIN_RESEND_INTERVAL \<le> now" using assms(7) by linarith
  have before: "t \<le> sent_at sp" if "(t, fid, p) \<in> set l" for t p
    using assms(3,6) that by (fastforce simp: recorded_def)
  show "history_ok (set_sent_at h fid sp now) ps" by (rule set_sent_at_ok [OF assms(1,6)])
  show "log_ok (l @ [(now, fid, packet sp)]) ps" using assms(2) sp by (simp add: log_ok_snoc)
  show "spaced (l @ [(now, fid, packet sp)])"
    using assms(4) before late by (fastforce simp: spaced_snoc)
  have "t \<le> now" if "(t, fid, p) \<in> set l" for t p using before [OF that] late by linarith
  then show "recorded (set_sent_at h fid sp now) (l @ [(now, fid, packet sp)])"
    using assms(3) sp(2)
    by (fastforce simp: recorded_def get_mut_set_sent_at [OF len] split: if_splits)
qed

lemma resend_frames_inv:
  assumes "resend_frames now ok k fids h = (out, h')"
    and "history_ok h ps" "log_ok l ps" "recorded h l" "spaced l" "length ps \<le> 2 ^ 32"
  shows "history_ok h' ps \<and> log_ok (l @ map (\<lambda>(fid, pkt). (now, fid, pkt)) out) ps \<and>
    recorded h' (l @ map (\<lambda>(fid, pkt). (now, fid, pkt)) out) \<and>
    spaced (l @ map (\<lambda>(fid, pkt). (now, fid, pkt)) out)"
  using assms
proof (induction now ok k fids h arbitrary: out h' l rule: resend_frames.induct)
  case (2 now ok k fid fids h)
  show ?case
  proof (cases "get_mut h fid")
    case None
    with 2 show ?thesis by simp
  next
    case (Some sp)
    show ?thesis
    proof (cases "now - sent_at sp < MIN_RESEND_INTERVAL \<or> \<not> ok k")
      case True
      with 2 Some show ?thesis by (auto split: if_splits)
    next
      case False
      then have late: "\<not> now - sent_at sp < MIN_RESEND_INTERVAL" and "ok k" by auto
      with 2(5) Some obtain out1 where
        r: "resend_frames now ok (Suc k) fids (set_sent_at h fid sp now) = (out1, h')"
        and out: "out = (fid, packet sp) # out1"
        by (auto split: prod.splits)
      note i = resend_inv [OF 2(6-10) Some late]
      show ?thesis
        using 2(3) [OF Some late \<open>ok k\<close> r i 2(10)] out by simp
    qed
  qed
qed simp

lemma serve_nack_inv:
  assumes "serve_nack peer sid recv now ok h = (out, h')"
    and "history_ok h ps" "log_ok l ps" "recorded h l" "spaced l" "length ps \<le> 2 ^ 32"
  shows "history_ok h' ps \<and> log_ok (l @ map (\<lambda>(fid, pkt). (now, fid, pkt)) out) ps \<and>
    recorded h' (l @ map (\<lambda>(fid, pkt). (now, fid, pkt)) out) \<and>
    spaced (l @ map (\<lambda>(fid, pkt). (now, fid, pkt)) out)"
  using assms resend_frames_inv [OF _ assms(2-6)]
  by (auto simp: serve_nack_def split: option.splits prod.splits if_splits)

section \<open>Every reachable state\<close>

inductive_cases rtp_stepE: "rtp_step cipher peer s t"

lemma send_frame_ok:
  assumes "send_frame cipher outcome now opus s = (Inr (), s', pkt)"
  shows "pkt = build_packet (conf s) (encrypt cipher (conf s) opus (frame_id s)) (frame_id s) \<and>
    s' = s\<lparr>sent_history := record_packet (sent_history s) (frame_id s) pkt now,
      frame_id := frame_id s + 1, octet_count := octet_count s + of_nat (length opus)\<rparr>"
  using assms by (auto simp: send_frame_def Let_def split: option.splits)

lemma send_frame_error: "send_frame cipher outcome now opus s = (Inl e, s', pkt) \<Longrightarrow> s' = s"
  by (auto simp: send_frame_def Let_def split: option.splits)

lemma frame_packet_append:
  "i < length os \<Longrightarrow> frame_packet cipher c (os @ [opus]) i = frame_packet cipher c os i"
  by (simp add: frame_packet_def nth_append)

lemma frame_packets_snoc:
  "map (frame_packet cipher c (os @ [opus])) [0..<Suc (length os)] =
     map (frame_packet cipher c os) [0..<length os] @ [frame_packet cipher c (os @ [opus]) (length os)]"
  by (simp add: frame_packet_append)

lemma counters_init: "counters_ok cipher c (rtp_init c)"
  by (simp add: counters_ok_def rtp_init_def new_def)

lemma counters_step:
  assumes "rtp_step cipher peer s t" and "counters_ok cipher c s"
  shows "counters_ok cipher c t"
  using assms(1)
proof (cases rule: rtp_step.cases)
  case (send outcome now opus s' pkt)
  note r = send_frame_ok [OF send(2)]
  have "pkt = frame_packet cipher c (frames s @ [opus]) (length (frames s))"
    using r assms(2) by (simp add: counters_ok_def frame_packet_def)
  then show ?thesis
    using assms(2) r unfolding send(1) counters_ok_def
    by (simp only: frame_packets_snoc length_append_singleton rtp_sys.simps) (simp add: add.commute frame_packet_append)
next
  case (send_fail outcome now opus e s' pkt)
  then show ?thesis using assms(2) send_frame_error [OF send_fail(2)] by (simp add: counters_ok_def)
next
  case (nack recv now ok out h)
  then show ?thesis using assms(2) by (simp add: counters_ok_def)
qed

lemma rtp_counters: "rtp_reachable cipher peer c s \<Longrightarrow> counters_ok cipher c s"
  by (induction rule: rtp_reachable.induct) (auto intro: counters_init counters_step)

lemma rtp_init_inv: "rtp_inv (rtp_init c)"
  by (simp add: rtp_inv_def rtp_init_def new_def history_new_ok log_ok_def recorded_def spaced_def)

lemma rtp_step_grows: "rtp_step cipher peer s t \<Longrightarrow> length (frames s) \<le> length (frames t)"
  by (erule rtp_stepE) auto

lemma rtp_step_inv:
  assumes "rtp_step cipher peer s t" and "counters_ok cipher c s" and "rtp_inv s"
    and "length (frames t) \<le> 2 ^ 32"
  shows "rtp_inv t"
  using assms(1)
proof (cases rule: rtp_step.cases)
  case (send outcome now opus s' pkt)
  note r = send_frame_ok [OF send(2)]
  have n: "length (originals s) < 2 ^ 32" and f: "frame_id (snder s) = of_nat (length (originals s))"
    using assms(2,4) send(1) by (simp_all add: counters_ok_def)
  show ?thesis
    using assms(3) record_inv [OF _ _ _ _ n, where h = "sent_history (snder s)" and l = "log s" and pkt = pkt and now = now] r f send(1)
    by (simp add: rtp_inv_def)
next
  case (send_fail outcome now opus e s' pkt)
  then show ?thesis using assms(3) send_frame_error [OF send_fail(2)] by (simp add: rtp_inv_def)
next
  case (nack recv now ok out h)
  have "length (originals s) \<le> 2 ^ 32"
    using assms(2,4) nack(1) by (simp add: counters_ok_def)
  then show ?thesis
    using assms(3) serve_nack_inv [OF nack(2), of "originals s" "log s"] nack(1)
    by (simp add: rtp_inv_def)
qed

lemma rtp_invariant:
  "rtp_reachable cipher peer c s \<Longrightarrow> length (frames s) \<le> 2 ^ 32 \<Longrightarrow> rtp_inv s"
proof (induction rule: rtp_reachable.induct)
  case init
  show ?case by (rule rtp_init_inv)
next
  case (step s t)
  have "length (frames s) \<le> 2 ^ 32" using rtp_step_grows [OF step(2)] step(4) by linarith
  then show ?case
    using rtp_step_inv [OF step(2) rtp_counters [OF step(1)]] step by blast
qed

lemma originals_nth:
  assumes "counters_ok cipher c s" and "i < length (frames s)"
  shows "originals s ! i = frame_packet cipher c (frames s) i"
  using assms by (simp add: counters_ok_def)

section \<open>Lost frames are resent\<close>

lemma resend_answers:
  assumes "resend_frames now ok k fids h = (out, h')" and "length (slots h) = HISTORY_FRAMES"
    and "fid \<in> set fids" and "get_mut h fid = Some sp"
    and "\<not> now - sent_at sp < MIN_RESEND_INTERVAL" and "\<And>n. ok n"
  shows "(fid, packet sp) \<in> set out"
  using assms
proof (induction now ok k fids h arbitrary: out h' rule: resend_frames.induct)
  case (2 now ok k f fids h)
  show ?case
  proof (cases "get_mut h f")
    case None
    with 2 show ?thesis by (cases "f = fid") auto
  next
    case (Some sp')
    show ?thesis
    proof (cases "now - sent_at sp' < MIN_RESEND_INTERVAL")
      case True
      with 2 Some show ?thesis by auto
    next
      case False
      with 2(5) Some 2(10) [of k] obtain out1 where
        r: "resend_frames now ok (Suc k) fids (set_sent_at h f sp' now) = (out1, h')"
        and out: "out = (f, packet sp') # out1"
        by (auto split: prod.splits simp del: split_paired_Ex)
      have id: "pkt_id sp' = f" using Some by (simp add: get_mut_def split: option.splits if_splits)
      show ?thesis
      proof (cases "f = fid")
        case True
        then show ?thesis using out Some 2(8) by simp
      next
        case False
        then have "history_slot fid \<noteq> history_slot f"
          using Some 2(8) by (auto simp: get_mut_def split: option.splits if_splits)
        then have "get_mut (set_sent_at h f sp' now) fid = Some sp"
          using 2(8) False by (simp add: get_mut_set_sent_at [OF 2(6) id])
        moreover have "length (slots (set_sent_at h f sp' now)) = HISTORY_FRAMES"
          using 2(6) by (simp add: set_sent_at_def)
        ultimately show ?thesis
          using 2(3) [OF Some \<open>\<not> now - sent_at sp' < MIN_RESEND_INTERVAL\<close> 2(10) r] 2 False out
          by auto
      qed
    qed
  qed
qed simp

lemma honoured_losses:
  assumes "length losses \<le> 255" and "unat (newest - ck) < 256" and "unat (ck + 256 - fid) < 256"
    and "(ucast fid, p, bits) \<in> set losses" and "p = 0 \<or> p = ALL_PACKETS_LOST"
  shows "fid \<in> set (parse_nacked_frames (feedback sid (ucast ck) losses) sid newest)"
proof -
  have "expand_le newest (ucast ck) = ck" by (rule expand_le_unique [OF refl assms(2)])
  moreover have "expand_le (ck + 256) (ucast fid) = fid" by (rule expand_le_unique [OF refl assms(3)])
  moreover have "ucast fid \<in> set (nacks losses)" using assms(4,5) by (force simp: nacks_def)
  ultimately show ?thesis unfolding parse_feedback [OF assms(1)] by force
qed

text \<open>
  When the frame counter wraps the slots jump by \<open>2 ^ 32 mod 120 = 16\<close>: frame 0 lands on frame
  \<open>2 ^ 32 - 16\<close>, which is 16 frames old, so from there on a part of the window is missing.
\<close>

lemma history_wrap_evicts:
  assumes "length (slots h) = HISTORY_FRAMES"
  shows "get_mut (record_packet h 0 pkt now) (- 16) = None"
proof -
  have "history_slot (- 16) = history_slot 0" by (simp add: history_slot_def HISTORY_FRAMES_def)
  then show ?thesis by (simp add: get_mut_record [OF assms])
qed

section \<open>A run\<close>

text \<open>One frame sent at time 0, reported lost by the peer and resent at 30 ms.\<close>

definition demo_sent :: rtp_sys where
  "demo_sent =
     (let (r, s', pkt) = send_frame demo_cipher None 0 [1, 2, 3] (new demo_config)
      in \<lparr>snder = s', frames = [[1, 2, 3]], originals = [pkt], log = [(0, 0, pkt)]\<rparr>)"

definition demo_losses :: "(u8 \<times> u16 \<times> u8) list" where
  "demo_losses = [(0, 0xFFFF, 0)]"

definition demo_resent :: rtp_sys where
  "demo_resent =
     (let (out, h) = serve_nack (9 :: nat) 0xDEADBEEF
            (Some (feedback 0xDEADBEEF 255 demo_losses, 9)) (millis 30) (\<lambda>k. True)
            (sent_history (snder demo_sent))
      in demo_sent\<lparr>snder := (snder demo_sent)\<lparr>sent_history := h\<rparr>,
           log := log demo_sent @ map (\<lambda>(fid, pkt). (millis 30, fid, pkt)) out\<rparr>)"

lemma demo_sent_reachable: "rtp_reachable demo_cipher (9 :: nat) demo_config demo_sent"
proof -
  have i: "snder (rtp_init demo_config) = new demo_config" by (simp add: rtp_init_def)
  obtain s' pkt where
    e: "send_frame demo_cipher None 0 [1, 2, 3] (snder (rtp_init demo_config)) = (Inr (), s', pkt)"
    by (simp add: send_frame_def Let_def)
  have "rtp_step demo_cipher (9 :: nat) (rtp_init demo_config) demo_sent"
    using rtp_step.send [OF e] e unfolding demo_sent_def i by (simp add: rtp_init_def new_def)
  then show ?thesis by (rule rtp_reachable.step [OF rtp_reachable.init])
qed

lemma demo_resent_reachable: "rtp_reachable demo_cipher (9 :: nat) demo_config demo_resent"
proof -
  have c: "ssrc (conf (snder demo_sent)) = 0xDEADBEEF"
    by (simp add: demo_sent_def send_frame_def Let_def new_def demo_config_def)
  obtain out h where e: "serve_nack (9 :: nat) (ssrc (conf (snder demo_sent)))
        (Some (feedback 0xDEADBEEF 255 demo_losses, 9)) (millis 30) (\<lambda>k. True)
        (sent_history (snder demo_sent)) = (out, h)"
    by (cases "serve_nack (9 :: nat) (ssrc (conf (snder demo_sent)))
        (Some (feedback 0xDEADBEEF 255 demo_losses, 9)) (millis 30) (\<lambda>k. True)
        (sent_history (snder demo_sent))")
  have "rtp_step demo_cipher (9 :: nat) demo_sent demo_resent"
    using rtp_step.nack [OF e, of demo_cipher] e c by (simp add: demo_resent_def)
  then show ?thesis by (rule rtp_reachable.step [OF demo_sent_reachable])
qed

lemma demo_resent_log:
  "log demo_resent = [(0, 0, originals demo_sent ! 0), (millis 30, 0, originals demo_sent ! 0)]"
proof -
  have "parse_nacked_frames (feedback 0xDEADBEEF 255 demo_losses) 0xDEADBEEF 0 = [0]"
    by (simp add: parse_feedback demo_losses_def nacks_def ALL_PACKETS_LOST_def expand_le_def)
  moreover have "length (slots history_new) = HISTORY_FRAMES" by (simp add: history_new_def)
  ultimately show ?thesis
    by (simp add: demo_resent_def demo_sent_def send_frame_def Let_def new_def serve_nack_def
        get_mut_record last_sent_record MIN_RESEND_INTERVAL_def millis_def split: prod.splits)
qed

section \<open>Properties\<close>



text \<open>
  C10: Retransmission is rate limited per frame: the clock readings recorded for two datagrams with
  the same frame id, original or retransmitted, are at least 20 ms apart, and both carry the same
  packet, whatever feedback the peer sends and however the clock and the threads interleave. The
  readings are those of \<open>sent_at\<close>, which the code compares: after the \<open>send_to\<close> of an original, before
  the sending loop of a retransmission.
\<close>

theorem transmissions_spaced:
  assumes "rtp_reachable cipher peer c s" and "length (frames s) \<le> 2 ^ 32"
    and "i < j" and "j < length (log s)"
    and "log s ! i = (t1, fid, p1)" and "log s ! j = (t2, fid, p2)"
  shows "t1 + millis 20 \<le> t2 \<and> p1 = p2"
proof -
  have inv: "spaced (log s)" "log_ok (log s) (originals s)"
    using rtp_invariant [OF assms(1,2)] by (simp_all add: rtp_inv_def)
  have "log s ! i \<in> set (log s)" "log s ! j \<in> set (log s)" using assms(3,4) by simp_all
  then have "p1 = p2"
    using log_okD [OF inv(2), of t1 fid p1] log_okD [OF inv(2), of t2 fid p2] assms(5,6) by simp
  then show ?thesis
    using inv(1) assms(3-6) sorted_wrt_nth_less [OF inv(1) [unfolded spaced_def] assms(3,4)]
    by (simp add: MIN_RESEND_INTERVAL_def)
qed

theorem transmissions_spaced_witness:
  "rtp_reachable demo_cipher (9 :: nat) demo_config demo_resent \<and> length (log demo_resent) = 2 \<and>
   map (fst \<circ> snd) (log demo_resent) = [0, 0] \<and>
   fst (log demo_resent ! 0) + millis 20 \<le> fst (log demo_resent ! 1) \<and>
   snd (snd (log demo_resent ! 0)) = snd (snd (log demo_resent ! 1))"
proof -
  let ?p = "originals demo_sent ! 0"
  have "length (frames demo_resent) \<le> 2 ^ 32"
    by (simp add: demo_resent_def demo_sent_def send_frame_def Let_def split: prod.splits)
  from transmissions_spaced [OF demo_resent_reachable this, of 0 1 0 0 ?p "millis 30" ?p]
  show ?thesis using demo_resent_reachable by (simp add: demo_resent_log)
qed

text \<open>
  C9: A lost frame comes back. In any reachable state, when the peer's feedback (checkpoint
  \<open>ck\<close>, less than 256 behind the newest frame) reports a frame of the last 120 as lost, that
  frame was not transmitted in the last 20 ms, by the sender's own record, and the socket takes the datagrams, the turn of
  the NACK thread resends exactly the packet that was first sent for it.
\<close>

theorem lost_frame_resent:
  assumes "rtp_reachable cipher peer c s" and "length (frames s) \<le> 2 ^ 32"
    and "i < length (frames s)" and "length (frames s) \<le> i + 120"
    and "length losses \<le> 255" and "(ucast (of_nat i :: u32), p, bits) \<in> set losses"
    and "p = 0 \<or> p = ALL_PACKETS_LOST"
    and "unat (of_nat (length (frames s) - 1) - (ck :: u32)) < 256" and "unat (ck + 256 - of_nat i) < 256"
    and "\<forall>(t, f, _) \<in> set (log s). f = of_nat i \<longrightarrow> t + millis 20 \<le> now" and "\<And>k. ok k"
  shows "(of_nat i, originals s ! i) \<in> set (fst (serve_nack peer (ssrc c)
    (Some (feedback (ssrc c) (ucast ck) losses, peer)) now ok (sent_history (snder s))))"
proof -
  let ?h = "sent_history (snder s)"
  have inv: "history_ok ?h (originals s)" "recorded ?h (log s)"
    using rtp_invariant [OF assms(1,2)] by (simp_all add: rtp_inv_def)
  have n: "length (originals s) = length (frames s)"
    using rtp_counters [OF assms(1)] by (simp add: counters_ok_def)
  then have o: "i < length (originals s)" "length (originals s) \<le> i + HISTORY_FRAMES"
      "length (originals s) \<le> 2 ^ 32"
    using assms(2-4) by (simp_all add: HISTORY_FRAMES_def)
  obtain sp where sp: "get_mut ?h (of_nat i) = Some sp" using get_mut_window [OF inv(1) o] by auto
  have "i < 2 ^ 32" using assms(2,3) by linarith
  then have pk: "packet sp = originals s ! i"
    using get_mut_Some [OF inv(1) sp o(3)] unat_of_nat32 [of i] by simp
  have "\<exists>q. (sent_at sp, of_nat i, q) \<in> set (log s)" using inv(2) sp by (auto simp: recorded_def)
  then have late: "\<not> now - sent_at sp < MIN_RESEND_INTERVAL"
    using assms(10) by (fastforce simp: MIN_RESEND_INTERVAL_def)
  have ls: "last_sent ?h = Some (of_nat (length (frames s) - 1))"
    using inv(1) n assms(3) by (auto simp: history_ok_def)
  note lost = honoured_losses [OF assms(5,8,9,6,7), of "ssrc c"]
  have len: "length (slots ?h) = HISTORY_FRAMES" using inv(1) by (simp add: history_ok_def)
  obtain out h' where r: "resend_frames now ok 0 (parse_nacked_frames
      (feedback (ssrc c) (ucast ck) losses) (ssrc c) (of_nat (length (frames s) - 1))) ?h = (out, h')"
    by fastforce
  have "(of_nat i, packet sp) \<in> set out"
    by (rule resend_answers [OF r len lost sp late assms(11)])
  then show ?thesis using r ls pk by (simp add: serve_nack_def)
qed

theorem lost_frame_resent_witness:
  "(0, originals demo_sent ! 0) \<in> set (fst (serve_nack (9 :: nat) 0xDEADBEEF
    (Some (feedback 0xDEADBEEF 255 demo_losses, 9)) (millis 30) (\<lambda>k. True)
    (sent_history (snder demo_sent))))"
proof -
  have f: "frames demo_sent = [[1, 2, 3]]" "\<exists>q. log demo_sent = [(0, 0, q)]"
    by (simp_all add: demo_sent_def send_frame_def Let_def)
  moreover have "(ucast (- 1 :: u32) :: u8) = 255" by code_simp
  ultimately show ?thesis
    using lost_frame_resent [OF demo_sent_reachable, where i = 0 and losses = demo_losses and
        p = "0xFFFF" and bits = 0 and ck = "- 1" and now = "millis 30" and ok = "\<lambda>k. True"]
    by (auto simp: demo_losses_def demo_config_def ALL_PACKETS_LOST_def millis_def)
qed

text \<open>
  C11: The counters are exact and gap free. After any run the next frame id is the number of
  successful sends and the octet count the sum of their lengths (both modulo their width), so a
  failed send consumes no id; the packets sent are those of frames 0, 1, 2, in order, each
  encrypted under its own id; and the RTCP thread reports these two counters.
\<close>

theorem sender_counters:
  assumes "rtp_reachable cipher peer c s"
  shows "snapshot (snder s) = (of_nat (length (frames s)), of_nat (sum_list (map length (frames s)))) \<and>
    originals s = map (\<lambda>i. build_packet c (encrypt cipher c (frames s ! i) (of_nat i)) (of_nat i))
      [0..<length (frames s)] \<and>
    fst (rtcp_turn (snder s) wall rx) = build_rtcp_sr_at (ssrc c) (of_nat (length (frames s)))
      (of_nat (sum_list (map length (frames s)))) (nat wall)"
  using rtp_counters [OF assms]
  by (simp add: counters_ok_def snapshot_def rtcp_turn_def build_rtcp_sr_def frame_packet_def [abs_def])

theorem sender_counters_witness: "snapshot (snder demo_resent) = (1, 3)"
proof -
  have "frames demo_resent = [[1, 2, 3]]"
    by (simp add: demo_resent_def demo_sent_def send_frame_def Let_def split: prod.splits)
  then show ?thesis using sender_counters [OF demo_resent_reachable] by simp
qed

end
