(* ===== verification/Opus_Enc.thy ===== *)
theory Opus_Enc
  imports Audio_Format
begin

text \<open>
  \<open>src/opus_enc.rs\<close>: the wrapper around the \<open>opus\<close> crate, whose encoder is the parameter
  \<open>opus_lib\<close>. An encoding is the bytes it writes to the output buffer, whose size it is given.
\<close>

datatype opus_channels = Mono | Stereo

datatype opus_application = Voip | Audio | LowDelay

record 'e opus_lib =
  lib_new :: "u32 \<Rightarrow> opus_channels \<Rightarrow> opus_application \<Rightarrow> string + 'e"
  lib_set_bitrate :: "int \<Rightarrow> 'e \<Rightarrow> string + 'e"
  lib_lookahead :: "'e \<Rightarrow> string + int"
  lib_encode :: "nat \<Rightarrow> i16 list \<Rightarrow> 'e \<Rightarrow> (string + bytes) \<times> 'e"

datatype opus_error = UnsupportedChannels u8 | OpusFailed string

definition OUT_SIZE :: nat where
  "OUT_SIZE = 4000"

definition opus_new :: "'e opus_lib \<Rightarrow> u32 \<Rightarrow> u8 \<Rightarrow> int \<Rightarrow> opus_error + 'e" where
  "opus_new lib sample_rate chans bit_rate =
     (let ch = (if chans = 1 then Some Mono else if chans = 2 then Some Stereo else None)
      in case ch of
           None \<Rightarrow> Inl (UnsupportedChannels chans)
         | Some c \<Rightarrow>
             (case lib_new lib sample_rate c LowDelay of
                Inl e \<Rightarrow> Inl (OpusFailed e)
              | Inr enc \<Rightarrow>
                  (case lib_set_bitrate lib bit_rate enc of
                     Inl e \<Rightarrow> Inl (OpusFailed e)
                   | Inr enc' \<Rightarrow> Inr enc')))"

definition lookahead_samples :: "'e opus_lib \<Rightarrow> 'e \<Rightarrow> int" where
  "lookahead_samples lib enc = (case lib_lookahead lib enc of Inl e \<Rightarrow> 0 | Inr n \<Rightarrow> n)"

definition opus_encode :: "'e opus_lib \<Rightarrow> i16 list \<Rightarrow> 'e \<Rightarrow> (opus_error + bytes) \<times> 'e" where
  "opus_encode lib pcm enc =
     (case lib_encode lib OUT_SIZE pcm enc of
        (Inl e, enc') \<Rightarrow> (Inl (OpusFailed e), enc')
      | (Inr bs, enc') \<Rightarrow> (Inr bs, enc'))"

end
