(* ===== verification/Capture.thy ===== *)
theory Capture
  imports Sound_Source Rtp_System Opus_Enc
begin

text \<open>
  \<open>src/capture.rs\<close>: the loop that takes 10 ms frames from the ring, encodes and sends them. It
  drops audio when it fell more than 30 ms behind, sleeps when there is less than a frame, and
  gives up when sending has failed for 5 s. A turn's input is what the world does: the chunks the
  producer wrote before the turn looked at the ring (\<open>written\<close>) and after that (\<open>racing\<close>,
  before the read if the turn reads), the stop and close flags, the clock (\<open>clock\<close>: the turn's \<open>now\<close>,
  \<open>sent_clock\<close>: the later reading that the sender's history records) and the fate of the datagram.
  The log lines and the rates they print are left out.
\<close>

section \<open>Constants and state\<close>

definition DRAIN_THRESHOLD_MS :: usize where
  "DRAIN_THRESHOLD_MS = 30"

definition DRAIN_TARGET_MS :: usize where
  "DRAIN_TARGET_MS = 10"

definition MAX_EXPECTED_QUANTUM :: usize where
  "MAX_EXPECTED_QUANTUM = 2048"

definition OUTAGE_FATAL :: nanos where
  "OUTAGE_FATAL = secs 5"

definition frames_for_ms :: "usize \<Rightarrow> usize" where
  "frames_for_ms ms = ms * ucast SAMPLE_RATE div 1000"

definition frame_size :: usize where
  "frame_size = ucast OPUS_SAMPLES_PER_FRAME"

definition threshold :: usize where
  "threshold = frames_for_ms DRAIN_THRESHOLD_MS"

definition drain_target :: usize where
  "drain_target = frames_for_ms DRAIN_TARGET_MS"

record outage =
  since :: nanos
  lost_frames :: u64

record 'e capture =
  ring :: audio_ring
  rtp :: sender
  encoder :: 'e
  pcm :: "i16 list"
  first_frame :: "nanos option"
  sent_frames :: u64
  dropped_total :: usize
  send_failures :: u64
  outage_now :: "outage option"
  last_stats :: nanos

datatype capture_error =
    CapacityAssertion | EncoderFailed opus_error | SinkStopped | SendFailing nanos io_error

record capture_input =
  stop_requested :: bool
  closing :: bool
  written :: "bytes list"
  racing :: "bytes list"
  clock :: nanos
  sent_clock :: nanos
  outcome :: "io_error option"

section \<open>Set-up\<close>

definition capture_start ::
  "'e opus_lib \<Rightarrow> int \<Rightarrow> audio_ring \<Rightarrow> sender \<Rightarrow> nanos \<Rightarrow> capture_error + 'e capture" where
  "capture_start lib bit_rate r s now =
     (if \<not> threshold + frame_size + MAX_EXPECTED_QUANTUM \<le> capacity_frames r then Inl CapacityAssertion
      else case opus_new lib SAMPLE_RATE CHANNELS bit_rate of
        Inl e \<Rightarrow> Inl (EncoderFailed e)
      | Inr enc \<Rightarrow>
          Inr \<lparr>ring = skip_frames r (available_frames r), rtp = s, encoder = enc,
               pcm = replicate (unat frame_size * unat CHANNELS) 0, first_frame = None,
               sent_frames = 0, dropped_total = 0, send_failures = 0, outage_now = None,
               last_stats = now\<rparr>)"

section \<open>One turn\<close>

text \<open>What a turn did; \<open>Slept\<close> carries the microseconds.\<close>

datatype capture_action =
    Stopped | Failed capture_error | Drained usize | Slept u64 | Missed | SentFrame | LostFrame

definition sleep_micros :: "usize \<Rightarrow> u64" where
  "sleep_micros avail = max ((frame_size - avail) * 1000000 div ucast SAMPLE_RATE) 200"

text \<open>The failure branch: start or continue the outage, and stop when it has lasted too long.\<close>

definition note_failure :: "nanos \<Rightarrow> io_error \<Rightarrow> 'e capture \<Rightarrow> 'e capture \<times> capture_action" where
  "note_failure now e s =
     (let o1 = (case outage_now s of Some o' \<Rightarrow> o' | None \<Rightarrow> \<lparr>since = now, lost_frames = 0\<rparr>);
          o2 = o1\<lparr>lost_frames := lost_frames o1 + 1\<rparr>;
          s' = s\<lparr>send_failures := send_failures s + 1, outage_now := Some o2\<rparr>;
          down = now - since o2
      in (s', if OUTAGE_FATAL \<le> down then Failed (SendFailing down e) else LostFrame))"

definition note_stats :: "nanos \<Rightarrow> 'e capture \<Rightarrow> 'e capture" where
  "note_stats now s = (if secs 5 \<le> now - last_stats s then s\<lparr>last_stats := now\<rparr> else s)"

text \<open>From the encoder to the end of the turn.\<close>

definition encode_and_send ::
  "'e opus_lib \<Rightarrow> cipher \<Rightarrow> capture_input \<Rightarrow> 'e capture \<Rightarrow> 'e capture \<times> capture_action" where
  "encode_and_send lib cipher i s =
     (let now = clock i;
          s1 = (if first_frame s = None then s\<lparr>first_frame := Some now\<rparr> else s)
      in case opus_encode lib (pcm s1) (encoder s1) of
           (Inl e, enc) \<Rightarrow> (s1\<lparr>encoder := enc\<rparr>, Failed (EncoderFailed e))
         | (Inr opus, enc) \<Rightarrow>
             (case send_frame cipher (outcome i) (sent_clock i) opus (rtp s1) of
                (Inr _, snd1, _) \<Rightarrow>
                  (note_stats now (s1\<lparr>encoder := enc, rtp := snd1, outage_now := None,
                     sent_frames := sent_frames s1 + 1\<rparr>), SentFrame)
              | (Inl e, snd1, _) \<Rightarrow>
                  (case note_failure now e (s1\<lparr>encoder := enc, rtp := snd1\<rparr>) of
                     (s2, LostFrame) \<Rightarrow> (note_stats now s2, LostFrame)
                   | (s2, a) \<Rightarrow> (s2, a))))"

definition capture_turn ::
  "'e opus_lib \<Rightarrow> cipher \<Rightarrow> capture_input \<Rightarrow> 'e capture \<Rightarrow> 'e capture \<times> capture_action" where
  "capture_turn lib cipher i s0 =
     (let r0 = producer_writes (written i) (ring s0);
          s = s0\<lparr>ring := if closing i then close r0 else r0\<rparr>
      in if stop_requested i then (s, Stopped)
         else if is_closed (ring s) then (s, Failed SinkStopped)
         else
           let avail = available_frames (ring s)
           in if avail > threshold then
                let dropped = avail - drain_target
                in (s\<lparr>ring := producer_writes (racing i) (skip_frames (ring s) dropped), dropped_total := dropped_total s + dropped\<rparr>,
                    Drained dropped)
              else if avail < frame_size then
                (s\<lparr>ring := producer_writes (racing i) (ring s)\<rparr>, Slept (sleep_micros avail))
              else
                case read_frames (producer_writes (racing i) (ring s)) (pcm s) of
                  (False, out, r') \<Rightarrow> (s\<lparr>ring := r', pcm := out\<rparr>, Missed)
                | (True, out, r') \<Rightarrow> encode_and_send lib cipher i (s\<lparr>ring := r', pcm := out\<rparr>))"

text \<open>The loop over a script; the trace of states and actions, and whether it goes on.\<close>

definition going_on :: "capture_action \<Rightarrow> bool" where
  "going_on a = (case a of Stopped \<Rightarrow> False | Failed _ \<Rightarrow> False | _ \<Rightarrow> True)"

fun capture_loop ::
  "'e opus_lib \<Rightarrow> cipher \<Rightarrow> capture_input list \<Rightarrow> 'e capture \<Rightarrow> 'e capture \<times> capture_action list" where
  "capture_loop lib cipher [] s = (s, [])"
| "capture_loop lib cipher (i # is) s =
     (let (s', a) = capture_turn lib cipher i s
      in if going_on a then (let (s2, as) = capture_loop lib cipher is s' in (s2, a # as))
         else (s', [a]))"

section \<open>The ring along a turn\<close>

lemma capture_sizes:
  "unat threshold = 1440" "unat drain_target = 480" "unat frame_size = 480" "unat CHANNELS = 2"
  by (simp_all add: threshold_def drain_target_def frame_size_def frames_for_ms_def DRAIN_THRESHOLD_MS_def
      DRAIN_TARGET_MS_def OPUS_SAMPLES_PER_FRAME_def SAMPLE_RATE_def CHANNELS_def)

lemma close_repr: "ring_repr r h p \<Longrightarrow> ring_repr (close r) h p"
  using ring_ok_cong [of r "close r"] by (auto simp: ring_repr_def close_def)

text \<open>The shape every state of the loop has; \<open>h\<close> and \<open>p\<close> are history and position of the ring.\<close>

definition capture_ok :: "'e capture \<Rightarrow> i16 list \<Rightarrow> nat \<Rightarrow> bool" where
  "capture_ok s h p \<longleftrightarrow> ring_repr (ring s) h p \<and> chn (ring s) = 2 \<and> length (pcm s) = 960"

text \<open>What the producer adds during a turn.\<close>

definition turn_samples :: "audio_ring \<Rightarrow> capture_input \<Rightarrow> i16 list" where
  "turn_samples r i = samples_of r (written i @ racing i)"

lemma note_stats_fields [simp]:
  "ring (note_stats now s) = ring s" "pcm (note_stats now s) = pcm s" "outage_now (note_stats now s) = outage_now s"
  "rtp (note_stats now s) = rtp s" "encoder (note_stats now s) = encoder s"
  by (simp_all add: note_stats_def)

lemma note_failure_fields [simp]:
  "ring (fst (note_failure now e s)) = ring s" "pcm (fst (note_failure now e s)) = pcm s"
  by (simp_all add: note_failure_def Let_def)

lemma encode_and_send_fields:
  assumes "encode_and_send lib cipher i s = (s', a)"
  shows "ring s' = ring s \<and> pcm s' = pcm s \<and> a \<in> {SentFrame, LostFrame} \<union> range Failed"
  using assms
  by (auto simp: encode_and_send_def Let_def note_failure_def
      split: sum.splits prod.splits if_splits capture_action.splits)

text \<open>
  The effect of a turn on the ring: what it did says what was unread, and a frame that was
  encoded is the next 10 ms of the history.
\<close>

definition turn_effect_on_ring ::
  "i16 list \<Rightarrow> i16 list \<Rightarrow> nat \<Rightarrow> nat \<Rightarrow> 'e capture \<Rightarrow> capture_action \<Rightarrow> bool" where
  "turn_effect_on_ring h1 h2 cap_n p s' a =
     (case a of
        Drained n \<Rightarrow> capture_ok s' h2 (length h1 div 2 - 480) \<and> 1440 < length h1 div 2 - p
      | Slept us \<Rightarrow> capture_ok s' h2 p \<and> length h1 div 2 - p < 480
      | Missed \<Rightarrow> capture_ok s' h2 p \<and> cap_n < length h2 div 2 - p
      | SentFrame \<Rightarrow> capture_ok s' h2 (p + 480) \<and> pcm s' = take 960 (drop (p * 2) h2) \<and>
          length h1 div 2 - p \<le> 1440 \<and> p * 2 + 960 \<le> length h2
      | LostFrame \<Rightarrow> capture_ok s' h2 (p + 480) \<and> pcm s' = take 960 (drop (p * 2) h2) \<and>
          length h1 div 2 - p \<le> 1440 \<and> p * 2 + 960 \<le> length h2
      | _ \<Rightarrow> True)"

lemma capture_turn_ring:
  fixes s :: "'e capture" and i
  defines "h1 h \<equiv> h @ samples_of (ring s) (written i)"
    and "h2 h \<equiv> h @ turn_samples (ring s) i"
  assumes "capture_ok s h p" and "capture_turn lib cipher i s = (s', a)"
    and "length (h2 h) div 2 - p < 2 ^ 64"
  shows "turn_effect_on_ring (h1 h) (h2 h) (capn (ring s)) p s' a"
proof -
  define r where "r = (if closing i then close (producer_writes (written i) (ring s))
      else producer_writes (written i) (ring s))"
  have dims: "channels r = channels (ring s)" "capacity r = capacity (ring s)"
    by (simp_all add: r_def close_def)
  have ch: "chn r = 2" and pl: "length (pcm s) = 960" using assms(3) dims by (simp_all add: capture_ok_def)
  have r1: "ring_repr r (h1 h) p"
    using assms(3) by (simp add: r_def h1_def capture_ok_def close_repr producer_writes_repr)
  have h2: "h2 h = h1 h @ samples_of r (racing i)"
    using samples_of_dims [OF dims] by (simp add: h1_def h2_def turn_samples_def samples_of_append)
  have lag: "length (h1 h) div chn r - p < 2 ^ 64"
  proof -
    have "length (h1 h) div 2 \<le> length (h2 h) div 2" unfolding h2 by (intro div_le_mono) simp
    then show ?thesis using assms(5) ch by simp
  qed
  note av = ringq.avail_law [OF r1 lag]
  define avail where "avail = available_frames r"
  have un: "unat avail = length (h1 h) div 2 - p" using av ch by (simp add: avail_def)
  have eq: "capture_turn lib cipher i s =
      (if stop_requested i then (s\<lparr>ring := r\<rparr>, Stopped)
       else if is_closed r then (s\<lparr>ring := r\<rparr>, Failed SinkStopped)
       else if avail > threshold then
         (s\<lparr>ring := producer_writes (racing i) (skip_frames r (avail - drain_target)),
            dropped_total := dropped_total s + (avail - drain_target)\<rparr>, Drained (avail - drain_target))
       else if avail < frame_size then (s\<lparr>ring := producer_writes (racing i) r\<rparr>, Slept (sleep_micros avail))
       else case read_frames (producer_writes (racing i) r) (pcm s) of
          (False, out, r') \<Rightarrow> (s\<lparr>ring := r', pcm := out\<rparr>, Missed)
        | (True, out, r') \<Rightarrow> encode_and_send lib cipher i (s\<lparr>ring := r', pcm := out\<rparr>))"
    unfolding capture_turn_def Let_def r_def avail_def
    by (cases "closing i") (auto split: prod.split bool.split)
  show ?thesis
  proof (cases "stop_requested i \<or> is_closed r")
    case True
    then have "a = Stopped \<or> a = Failed SinkStopped"
      using assms(4) unfolding eq by (auto split: if_splits)
    then show ?thesis by (auto simp: turn_effect_on_ring_def)
  next
    case False
    note live = this
    show ?thesis
    proof (cases "avail > threshold")
      case True
      then have st: "s' = s\<lparr>ring := producer_writes (racing i) (skip_frames r (avail - drain_target)),
            dropped_total := dropped_total s + (avail - drain_target)\<rparr>" "a = Drained (avail - drain_target)"
        using assms(4) live unfolding eq by auto
      have gt: "1440 < length (h1 h) div 2 - p"
        using True un by (simp add: word_less_nat_alt capture_sizes)
      then have "drain_target \<le> avail" using un by (simp add: word_le_nat_alt capture_sizes)
      then have "ring_repr (skip_frames r (avail - drain_target)) (h1 h) (length (h1 h) div 2 - 480)"
        using ringq.catch_up(1) [OF r1 lag, of drain_target] ch by (simp add: avail_def capture_sizes)
      from producer_writes_repr [OF this, of "racing i"]
      have "ring_repr (ring s') (h2 h) (length (h1 h) div 2 - 480)"
        using st(1) h2 samples_of_dims [of "skip_frames r (avail - drain_target)" r] by simp
      then show ?thesis
        using st gt ch dims pl by (simp add: turn_effect_on_ring_def capture_ok_def)
    next
      case False
      note small = this
      then have le: "length (h1 h) div 2 - p \<le> 1440"
        using un by (simp add: word_le_nat_alt not_less capture_sizes)
      have r2: "ring_repr (producer_writes (racing i) r) (h2 h) p"
        using producer_writes_repr [OF r1] h2 by simp
      show ?thesis
      proof (cases "avail < frame_size")
        case True
        then have "s' = s\<lparr>ring := producer_writes (racing i) r\<rparr>" "a = Slept (sleep_micros avail)"
          using assms(4) live small unfolding eq by auto
        moreover have "length (h1 h) div 2 - p < 480"
          using True un by (simp add: word_less_nat_alt capture_sizes)
        ultimately show ?thesis
          using r2 ch dims pl by (simp add: turn_effect_on_ring_def capture_ok_def)
      next
        case False
        let ?r2 = "producer_writes (racing i) r"
        obtain ok out r' where rd: "read_frames ?r2 (pcm s) = (ok, out, r')"
          by (cases "read_frames ?r2 (pcm s)") auto
        have lag2: "length (h2 h) div chn ?r2 - p < 2 ^ 64" and dv: "chn ?r2 dvd length (pcm s)"
          and ne: "pcm s \<noteq> []" using assms(5) ch pl by auto
        note R = read_frames_repr [OF r2 lag2 dv ne]
        have out: "length out = 960" using read_frames_length [of ?r2 "pcm s"] rd pl by simp
        have rdims: "chn r' = 2" using read_frames_dims(1) [of ?r2 "pcm s"] rd ch by simp
        have p1: "480 \<le> length (h2 h) div 2 - p"
        proof -
          have "length (h1 h) div 2 \<le> length (h2 h) div 2" unfolding h2 by (intro div_le_mono) simp
          then show ?thesis using False un by (simp add: word_less_nat_alt capture_sizes)
        qed
        show ?thesis
        proof (cases ok)
          case True
          then have e: "encode_and_send lib cipher i (s\<lparr>ring := r', pcm := out\<rparr>) = (s', a)"
            using assms(4) live small False rd unfolding eq by auto
          have "p * 2 + 960 \<le> length (h2 h)" using p1 by presburger
          moreover have "out = take 960 (drop (p * 2) (h2 h))" "ring_repr r' (h2 h) (p + 480)"
            using R(2) rd True ch pl by simp_all
          ultimately show ?thesis
            using encode_and_send_fields [OF e] le out rdims
            by (auto simp: turn_effect_on_ring_def capture_ok_def)
        next
          case nok: False
          then have "s' = s\<lparr>ring := r', pcm := out\<rparr>" "a = Missed"
            using assms(4) live small False rd unfolding eq by auto
          moreover have "r' = ?r2" using R(3) rd nok by simp
          moreover have "capn (ring s) < length (h2 h) div 2 - p"
            using R(1) rd nok p1 ch pl dims by simp
          ultimately show ?thesis
            using r2 out ch by (simp add: turn_effect_on_ring_def capture_ok_def)
        qed
      qed
    qed
  qed
qed

section \<open>What a run encodes\<close>

text \<open>The PCM frames a run hands to the socket, and when it tried and whether that worked.\<close>

fun encoded :: "'e opus_lib \<Rightarrow> cipher \<Rightarrow> capture_input list \<Rightarrow> 'e capture \<Rightarrow> i16 list list" where
  "encoded lib cipher [] s = []"
| "encoded lib cipher (i # is) s =
     (let (s', a) = capture_turn lib cipher i s
      in (if a = SentFrame \<or> a = LostFrame then [pcm s'] else []) @
         (if going_on a then encoded lib cipher is s' else []))"

definition attempt :: "capture_input \<Rightarrow> capture_action \<Rightarrow> (nanos \<times> bool) list" where
  "attempt i a =
     (case a of
        SentFrame \<Rightarrow> [(clock i, True)]
      | LostFrame \<Rightarrow> [(clock i, False)]
      | Failed (SendFailing d e) \<Rightarrow> [(clock i, False)]
      | _ \<Rightarrow> [])"

fun attempts :: "'e opus_lib \<Rightarrow> cipher \<Rightarrow> capture_input list \<Rightarrow> 'e capture \<Rightarrow> (nanos \<times> bool) list" where
  "attempts lib cipher [] s = []"
| "attempts lib cipher (i # is) s =
     (let (s', a) = capture_turn lib cipher i s
      in attempt i a @ (if going_on a then attempts lib cipher is s' else []))"

text \<open>The frames are 10 ms pieces of \<open>h\<close> that start at frame \<open>p\<close> or later, in order and disjoint.\<close>

fun segments_from :: "i16 list \<Rightarrow> nat \<Rightarrow> i16 list list \<Rightarrow> bool" where
  "segments_from h p [] = True"
| "segments_from h p (x # xs) =
     (\<exists>q \<in> {p..length h}. q * 2 + 960 \<le> length h \<and> x = take 960 (drop (q * 2) h) \<and>
        segments_from h (q + 480) xs)"

lemma segments_mono: "segments_from h p xs \<Longrightarrow> p' \<le> p \<Longrightarrow> segments_from h p' xs"
  by (cases xs) (auto intro: bexI)

definition run_samples :: "audio_ring \<Rightarrow> capture_input list \<Rightarrow> i16 list" where
  "run_samples r is = concat (map (turn_samples r) is)"

lemma capture_turn_dims:
  assumes "capture_turn lib cipher i s = (s', a)"
  shows "channels (ring s') = channels (ring s) \<and> capacity (ring s') = capacity (ring s)"
proof -
  define r where "r = (if closing i then close (producer_writes (written i) (ring s))
      else producer_writes (written i) (ring s))"
  have r: "channels r = channels (ring s)" "capacity r = capacity (ring s)"
    by (simp_all add: r_def close_def)
  obtain ok out r' where rd: "read_frames (producer_writes (racing i) r) (pcm s) = (ok, out, r')"
    by (cases "read_frames (producer_writes (racing i) r) (pcm s)") auto
  have r': "channels r' = channels r" "capacity r' = capacity r"
    using read_frames_dims [of "producer_writes (racing i) r" "pcm s"] rd by simp_all
  show ?thesis
    using assms r r' rd encode_and_send_fields [of lib cipher i "s\<lparr>ring := r', pcm := out\<rparr>" s' a]
    by (auto simp: capture_turn_def Let_def r_def [symmetric] split: if_splits bool.splits)
qed

lemma going_on_cases: "going_on a \<Longrightarrow> (\<exists>n. a = Drained n) \<or> (\<exists>us. a = Slept us) \<or> a = Missed \<or> a = SentFrame \<or> a = LostFrame"
  by (cases a) (auto simp: going_on_def)

lemma encoded_segments:
  assumes "capture_ok s h p" and "length (h @ run_samples (ring s) is) div 2 < 2 ^ 64"
  shows "segments_from (h @ run_samples (ring s) is) p (encoded lib cipher is s)"
  using assms
proof (induction "is" arbitrary: s h p)
  case (Cons i "is")
  obtain s' a where t: "capture_turn lib cipher i s = (s', a)" by fastforce
  note d = capture_turn_dims [OF t]
  have rs: "run_samples (ring s') is = run_samples (ring s) is"
    using d by (simp add: run_samples_def turn_samples_def [abs_def] samples_of_def)
  let ?h2 = "h @ turn_samples (ring s) i"
  let ?H = "h @ run_samples (ring s) (i # is)"
  have H: "?H = ?h2 @ run_samples (ring s') is" using rs by (simp add: run_samples_def)
  have "length ?h2 div 2 \<le> length ?H div 2" unfolding H by (intro div_le_mono) simp
  then have l: "length ?h2 div 2 - p < 2 ^ 64" using Cons(3) by linarith
  note eff = capture_turn_ring [OF Cons(2) t l]
  show ?case
  proof (cases "going_on a")
    case False
    then show ?thesis using t by (auto simp: going_on_def)
  next
    case True
    have lh: "length (?h2 @ run_samples (ring s') is) div 2 < 2 ^ 64" using Cons(3) H by simp
    show ?thesis
    proof (cases "a = SentFrame \<or> a = LostFrame")
      case enc: True
      then have e: "capture_ok s' ?h2 (p + 480)" "pcm s' = take 960 (drop (p * 2) ?h2)"
          "p * 2 + 960 \<le> length ?h2"
        using eff by (auto simp: turn_effect_on_ring_def)
      have "take 960 (drop (p * 2) ?h2) = take 960 (drop (p * 2) ?H)"
        using e(3) unfolding H by (simp del: append_assoc)
      moreover have "p * 2 + 960 \<le> length ?H" using e(3) unfolding H by simp
      moreover have "segments_from ?H (p + 480) (encoded lib cipher is s')"
        using Cons(1) [OF e(1) lh] H by simp
      ultimately show ?thesis
        using t enc True e(2) by (auto intro!: bexI [of _ p])
    next
      case noenc: False
      obtain p' where p': "capture_ok s' ?h2 p'" "p \<le> p'"
        using eff going_on_cases [OF True] noenc by (auto simp: turn_effect_on_ring_def)
      have "segments_from ?H p' (encoded lib cipher is s')"
        using Cons(1) [OF p'(1) lh] H by simp
      then show ?thesis using t noenc True p'(2) segments_mono by auto
    qed
  qed
qed simp

section \<open>Outages\<close>

text \<open>The start of the failures the attempts end in.\<close>

definition failing_since :: "(nanos \<times> bool) list \<Rightarrow> nanos option" where
  "failing_since tr =
     (let f = takeWhile (\<lambda>(t, ok). \<not> ok) (rev tr) in if f = [] then None else Some (fst (last f)))"

lemma failing_since_snoc:
  "failing_since (tr @ [(t, ok)]) =
     (if ok then None else case failing_since tr of None \<Rightarrow> Some t | Some u \<Rightarrow> Some u)"
  by (auto simp: failing_since_def Let_def split: option.split)

lemma encode_outage:
  assumes "encode_and_send lib cipher i s = (s', a)"
    and "map_option since (outage_now s) = failing_since tr"
  shows "map_option since (outage_now s') = failing_since (tr @ attempt i a) \<and>
    (a = LostFrame \<longrightarrow> (\<exists>t0. failing_since (tr @ attempt i a) = Some t0 \<and> clock i - t0 < OUTAGE_FATAL)) \<and>
    (\<forall>d e. a = Failed (SendFailing d e) \<longrightarrow>
      (\<exists>t0. failing_since (tr @ attempt i a) = Some t0 \<and> d = clock i - t0 \<and> OUTAGE_FATAL \<le> d))"
proof -
  define s1 where "s1 = (if first_frame s = None then s\<lparr>first_frame := Some (clock i)\<rparr> else s)"
  have o1: "outage_now s1 = outage_now s" by (simp add: s1_def)
  obtain res enc where oe: "opus_encode lib (pcm s1) (encoder s1) = (res, enc)" by fastforce
  show ?thesis
  proof (cases res)
    case (Inl e)
    then show ?thesis
      using assms oe o1 by (auto simp: encode_and_send_def Let_def s1_def [symmetric] attempt_def)
  next
    case (Inr opus)
    obtain r snd1 pkt where sf: "send_frame cipher (outcome i) (sent_clock i) opus (rtp s1) = (r, snd1, pkt)"
      by (cases "send_frame cipher (outcome i) (sent_clock i) opus (rtp s1)") auto
    show ?thesis
    proof (cases r)
      case r: (Inr u)
      then show ?thesis
        using assms oe o1 Inr sf
        by (auto simp: encode_and_send_def Let_def s1_def [symmetric] attempt_def failing_since_snoc)
    next
      case r: (Inl e)
      obtain s2 b where nf: "note_failure (clock i) e (s1\<lparr>encoder := enc, rtp := snd1\<rparr>) = (s2, b)" by fastforce
      have st: "a = b" "outage_now s' = outage_now s2"
        using assms(1) oe Inr sf r nf
        by (auto simp: encode_and_send_def Let_def s1_def [symmetric] split: capture_action.splits)
      show ?thesis
        using assms(2) nf st o1
        by (auto simp: note_failure_def Let_def attempt_def failing_since_snoc split: option.splits if_splits)
    qed
  qed
qed

lemma turn_outage:
  assumes "capture_turn lib cipher i s = (s', a)"
    and "map_option since (outage_now s) = failing_since tr"
  shows "map_option since (outage_now s') = failing_since (tr @ attempt i a) \<and>
    (a = LostFrame \<longrightarrow> (\<exists>t0. failing_since (tr @ attempt i a) = Some t0 \<and> clock i - t0 < OUTAGE_FATAL)) \<and>
    (\<forall>d e. a = Failed (SendFailing d e) \<longrightarrow>
      (\<exists>t0. failing_since (tr @ attempt i a) = Some t0 \<and> d = clock i - t0 \<and> OUTAGE_FATAL \<le> d))"
proof -
  define r where "r = (if closing i then close (producer_writes (written i) (ring s))
      else producer_writes (written i) (ring s))"
  obtain ok out r' where rd: "read_frames (producer_writes (racing i) r) (pcm s) = (ok, out, r')"
    by (cases "read_frames (producer_writes (racing i) r) (pcm s)") auto
  show ?thesis
    using assms rd encode_outage [of lib cipher i "s\<lparr>ring := r', pcm := out\<rparr>" s' a tr]
    by (auto simp: capture_turn_def Let_def r_def [symmetric] attempt_def split: if_splits bool.splits)
qed

lemma attempts_last:
  "capture_loop lib cipher is s = (s', as) \<Longrightarrow> as \<noteq> [] \<Longrightarrow>
     last as = LostFrame \<or> last as = Failed (SendFailing d e) \<Longrightarrow> attempts lib cipher is s \<noteq> []"
proof (induction "is" arbitrary: s as)
  case (Cons i "is")
  obtain s1 a where t: "capture_turn lib cipher i s = (s1, a)" by fastforce
  show ?case
  proof (cases "going_on a")
    case False
    then show ?thesis using Cons(2,4) t by (auto simp: attempt_def)
  next
    case True
    obtain as1 where l: "capture_loop lib cipher is s1 = (s', as1)" "as = a # as1"
      using Cons(2) t True by (auto split: prod.splits)
    show ?thesis
    proof (cases "as1 = []")
      case True
      then show ?thesis using l Cons(4) t by (auto simp: attempt_def)
    next
      case False
      then have "attempts lib cipher is s1 \<noteq> []" using Cons(1) [OF l(1) False] Cons(4) l(2) by simp
      then show ?thesis using t True by simp
    qed
  qed
qed simp

lemma loop_outage:
  assumes "capture_loop lib cipher is s = (s', as)"
    and "map_option since (outage_now s) = failing_since tr"
  shows "map_option since (outage_now s') = failing_since (tr @ attempts lib cipher is s) \<and>
    (\<forall>d e. as \<noteq> [] \<and> last as = Failed (SendFailing d e) \<longrightarrow>
      (\<exists>t0. failing_since (tr @ attempts lib cipher is s) = Some t0 \<and>
         d = fst (last (attempts lib cipher is s)) - t0 \<and> OUTAGE_FATAL \<le> d)) \<and>
    (as \<noteq> [] \<and> last as = LostFrame \<longrightarrow>
      (\<exists>t0. failing_since (tr @ attempts lib cipher is s) = Some t0 \<and>
         fst (last (attempts lib cipher is s)) - t0 < OUTAGE_FATAL))"
  using assms
proof (induction "is" arbitrary: s as tr)
  case Nil
  then show ?case by simp
next
  case (Cons i "is")
  obtain s1 a where t: "capture_turn lib cipher i s = (s1, a)" by fastforce
  note o1 = turn_outage [OF t Cons(3)]
  show ?case
  proof (cases "going_on a")
    case False
    then have "as = [a]" "s' = s1" using Cons(2) t by auto
    then show ?thesis using o1 t False by (auto simp: attempt_def)
  next
    case True
    obtain as1 where l: "capture_loop lib cipher is s1 = (s', as1)" "as = a # as1"
      using Cons(2) t True by (auto split: prod.splits)
    note ih = Cons(1) [OF l(1) conjunct1 [OF o1]]
    have at: "attempts lib cipher (i # is) s = attempt i a @ attempts lib cipher is s1" using t True by simp
    show ?thesis
    proof (cases "as1 = []")
      case True
      then have "is = []"
        using l(1) by (cases "is") (auto simp: Let_def split: prod.splits if_splits)
      then show ?thesis using o1 l True at by (auto simp: attempt_def)
    next
      case False
      then have la: "last as = last as1" using l(2) by simp
      show ?thesis
      proof (cases "attempts lib cipher is s1 = []")
        case True
        then have "last as1 \<noteq> LostFrame" "last as1 \<noteq> Failed (SendFailing d e)" for d e
          using attempts_last [OF l(1) False] by blast+
        then show ?thesis using ih at la l(2) True by simp
      next
        case ne: False
        then show ?thesis using ih at la l(2) False by simp
      qed
    qed
  qed
qed

section \<open>Starting and progress\<close>

lemma capture_start_ok:
  assumes "capture_start lib br r sd now = Inr s" and "ring_repr r h p" and "chn r = 2"
    and "length h div 2 - p < 2 ^ 64"
  shows "capture_ok s h (length h div 2) \<and> outage_now s = None \<and> rtp s = sd \<and> 3968 \<le> capn r \<and>
    channels (ring s) = channels r \<and> capacity (ring s) = capacity r \<and> closed (ring s) = closed r"
proof -
  have s: "ring s = skip_frames r (available_frames r)" "outage_now s = None" "rtp s = sd"
      "length (pcm s) = 960" "threshold + frame_size + MAX_EXPECTED_QUANTUM \<le> capacity_frames r"
    using assms(1) by (auto simp: capture_start_def capture_sizes split: if_splits sum.splits)
  have "threshold + frame_size + MAX_EXPECTED_QUANTUM = 3968"
    by (simp add: threshold_def frame_size_def frames_for_ms_def DRAIN_THRESHOLD_MS_def
        OPUS_SAMPLES_PER_FRAME_def SAMPLE_RATE_def MAX_EXPECTED_QUANTUM_def)
  then have "3968 \<le> capn r" using s(5) by (simp add: capacity_frames_def word_le_nat_alt)
  then show ?thesis
    using s ringq.flush(1) [OF assms(2)] assms(3,4) by (simp add: capture_ok_def)
qed

text \<open>Between 10 and 30 ms unread and no lap: the turn sends a frame.\<close>

lemma turn_sends:
  assumes "capture_ok s h p" and "\<not> stop_requested i" and "\<not> closing i" and "\<not> closed (ring s)"
    and "480 \<le> length (h @ samples_of (ring s) (written i)) div 2 - p"
    and "length (h @ samples_of (ring s) (written i)) div 2 - p \<le> 1440"
    and "length (h @ turn_samples (ring s) i) div 2 - p \<le> capn (ring s)"
    and "\<And>x e. fst (lib_encode lib OUT_SIZE x e) = Inr opus"
  shows "\<exists>s'. capture_turn lib cipher i s = (s', if outcome i = None then SentFrame
    else snd (note_failure (clock i) (the (outcome i)) s))"
proof -
  let ?r = "producer_writes (written i) (ring s)" and ?r2 = "producer_writes (racing i) (producer_writes (written i) (ring s))"
  let ?h1 = "h @ samples_of (ring s) (written i)"
  have ch: "chn ?r = 2" and pl: "length (pcm s) = 960" using assms(1) by (simp_all add: capture_ok_def)
  have r1: "ring_repr ?r ?h1 p" using assms(1) by (simp add: capture_ok_def producer_writes_repr)
  have h2: "h @ turn_samples (ring s) i = ?h1 @ samples_of ?r (racing i)"
    by (simp add: turn_samples_def samples_of_append samples_of_dims [of ?r "ring s"])
  have r2: "ring_repr ?r2 (h @ turn_samples (ring s) i) p" unfolding h2 by (rule producer_writes_repr [OF r1])
  have "length ?h1 div chn ?r - p < 2 ^ 64" using assms(6) ch by simp
  note av = ringq.avail_law [OF r1 this]
  have a: "\<not> available_frames ?r > threshold" "\<not> available_frames ?r < frame_size"
    using av ch assms(5,6) by (simp_all add: word_less_nat_alt capture_sizes)
  have cl: "\<not> is_closed ?r" using assms(4) by (simp add: is_closed_def)
  have le: "length ?h1 div 2 \<le> length (h @ turn_samples (ring s) i) div 2"
    unfolding h2 by (intro div_le_mono) simp
  have cb: "capn (ring s) < 2 ^ 64" using ring_ok_dims(4) [of "ring s"] assms(1) by (simp add: capture_ok_def ring_repr_def)
  have "length (h @ turn_samples (ring s) i) div chn ?r2 - p < 2 ^ 64" "chn ?r2 dvd length (pcm s)" "pcm s \<noteq> []"
    using assms(7) cb ch pl by auto
  note R = read_frames_repr(1) [OF r2 this]
  have "fst (read_frames ?r2 (pcm s))" using R ch pl le assms(5,7) by simp
  then obtain out r' where rd: "read_frames ?r2 (pcm s) = (True, out, r')"
    by (cases "read_frames ?r2 (pcm s)") auto
  have t: "capture_turn lib cipher i s = encode_and_send lib cipher i (s\<lparr>ring := r', pcm := out\<rparr>)"
    using a cl rd assms(2,3) by (simp add: capture_turn_def)
  have oe: "\<exists>enc. opus_encode lib x e = (Inr opus, enc)" for x e
    using assms(8) [of x e] by (cases "lib_encode lib OUT_SIZE x e") (simp add: opus_encode_def)
  show ?thesis
    using oe [of out "encoder s"]
    by (auto simp: t encode_and_send_def Let_def send_frame_def note_failure_def split: option.splits)
qed

section \<open>The sender is driven by sends only\<close>

text \<open>The Opus frames of the turns that sent.\<close>

definition encoding :: "'e opus_lib \<Rightarrow> 'e capture \<Rightarrow> 'e capture \<Rightarrow> bytes" where
  "encoding lib s s' = (case fst (opus_encode lib (pcm s') (encoder s)) of Inl e \<Rightarrow> [] | Inr bs \<Rightarrow> bs)"

fun sent_opus :: "'e opus_lib \<Rightarrow> cipher \<Rightarrow> capture_input list \<Rightarrow> 'e capture \<Rightarrow> bytes list" where
  "sent_opus lib cipher [] s = []"
| "sent_opus lib cipher (i # is) s =
     (let (s', a) = capture_turn lib cipher i s
      in (if a = SentFrame then [encoding lib s s'] else []) @
         (if going_on a then sent_opus lib cipher is s' else []))"

lemma encode_drives:
  assumes "encode_and_send lib cipher i s = (s', a)" and "rtp_reachable cipher peer c y" and "snder y = rtp s"
  shows "\<exists>y'. rtp_reachable cipher peer c y' \<and> snder y' = rtp s' \<and>
    frames y' = frames y @ (if a = SentFrame then [encoding lib s s'] else [])"
proof -
  define s1 where "s1 = (if first_frame s = None then s\<lparr>first_frame := Some (clock i)\<rparr> else s)"
  have s1: "rtp s1 = rtp s" "pcm s1 = pcm s" "encoder s1 = encoder s" by (simp_all add: s1_def)
  obtain res enc where oe: "opus_encode lib (pcm s) (encoder s) = (res, enc)" by fastforce
  show ?thesis
  proof (cases res)
    case (Inl e)
    then have "rtp s' = rtp s" "a \<noteq> SentFrame"
      using assms(1) oe s1 by (auto simp: encode_and_send_def Let_def s1_def [symmetric])
    then show ?thesis using assms(2,3) by (intro exI [of _ y]) simp
  next
    case (Inr opus)
    obtain r snd1 pkt where sf: "send_frame cipher (outcome i) (sent_clock i) opus (rtp s) = (r, snd1, pkt)"
      by (cases "send_frame cipher (outcome i) (sent_clock i) opus (rtp s)") auto
    show ?thesis
    proof (cases r)
      case r: (Inr u)
      then have st: "rtp s' = snd1" "a = SentFrame" "pcm s' = pcm s"
        using assms(1) oe Inr sf s1 by (auto simp: encode_and_send_def Let_def s1_def [symmetric])
      have "send_frame cipher (outcome i) (sent_clock i) opus (snder y) = (Inr (), snd1, pkt)"
        using sf r assms(3) by simp
      note step = rtp_step.send [OF this, of peer]
      show ?thesis
        by (rule exI, rule conjI [OF rtp_reachable.step [OF assms(2) step]])
          (simp add: st encoding_def oe Inr)
    next
      case r: (Inl e)
      have st: "rtp s' = snd1" "a \<noteq> SentFrame"
        using assms(1) oe Inr sf s1 r
        by (auto simp: encode_and_send_def Let_def s1_def [symmetric] note_failure_def
            split: capture_action.splits if_splits)
      have "send_frame cipher (outcome i) (sent_clock i) opus (snder y) = (Inl e, snd1, pkt)"
        using sf r assms(3) by simp
      note step = rtp_step.send_fail [OF this, of peer]
      show ?thesis
        by (rule exI, rule conjI [OF rtp_reachable.step [OF assms(2) step]]) (simp add: st)
    qed
  qed
qed

lemma turn_drives:
  assumes "capture_turn lib cipher i s = (s', a)" and "rtp_reachable cipher peer c y" and "snder y = rtp s"
  shows "\<exists>y'. rtp_reachable cipher peer c y' \<and> snder y' = rtp s' \<and>
    frames y' = frames y @ (if a = SentFrame then [encoding lib s s'] else [])"
proof -
  define r where "r = (if closing i then close (producer_writes (written i) (ring s))
      else producer_writes (written i) (ring s))"
  obtain ok out r' where rd: "read_frames (producer_writes (racing i) r) (pcm s) = (ok, out, r')"
    by (cases "read_frames (producer_writes (racing i) r) (pcm s)") auto
  let ?s = "s\<lparr>ring := r', pcm := out\<rparr>"
  have enc: "encoding lib ?s s' = encoding lib s s'" by (simp add: encoding_def)
  show ?thesis
  proof (cases "encode_and_send lib cipher i ?s = (s', a)")
    case True
    then show ?thesis using encode_drives [OF True assms(2)] assms(3) unfolding enc by simp
  next
    case False
    then have "rtp s' = rtp s \<and> a \<noteq> SentFrame"
      using assms(1) rd by (auto simp: capture_turn_def Let_def r_def [symmetric] split: if_splits bool.splits)
    then show ?thesis using assms(2,3) by (intro exI [of _ y]) simp
  qed
qed

lemma loop_drives:
  assumes "capture_loop lib cipher is s = (s', as)" and "rtp_reachable cipher peer c y" and "snder y = rtp s"
  shows "\<exists>y'. rtp_reachable cipher peer c y' \<and> snder y' = rtp s' \<and>
    frames y' = frames y @ sent_opus lib cipher is s"
  using assms
proof (induction "is" arbitrary: s as y)
  case Nil
  then show ?case by (intro exI [of _ y]) simp
next
  case (Cons i "is")
  obtain s1 a where t: "capture_turn lib cipher i s = (s1, a)" by fastforce
  obtain y1 where y1: "rtp_reachable cipher peer c y1" "snder y1 = rtp s1"
      "frames y1 = frames y @ (if a = SentFrame then [encoding lib s s1] else [])"
    using turn_drives [OF t Cons(3,4)] by blast
  show ?case
  proof (cases "going_on a")
    case False
    then have "s' = s1" using Cons(2) t by auto
    then show ?thesis using y1 t False by (intro exI [of _ y1]) simp
  next
    case True
    obtain as1 where "capture_loop lib cipher is s1 = (s', as1)"
      using Cons(2) t True by (auto split: prod.splits)
    from Cons(1) [OF this y1(1,2)] show ?thesis using y1(3) t True by auto
  qed
qed

section \<open>A run for the witnesses\<close>

definition demo_lib :: "unit opus_lib" where
  "demo_lib = \<lparr>lib_new = (\<lambda>_ _ _. Inr ()), lib_set_bitrate = (\<lambda>_ e. Inr e),
     lib_lookahead = (\<lambda>_. Inr 0), lib_encode = (\<lambda>_ _ e. (Inr [7], e))\<rparr>"

definition big_ring :: audio_ring where
  "big_ring = the (channel 4096 2)"

definition demo_capture :: "unit capture" where
  "demo_capture = projr (capture_start demo_lib 128000 big_ring (new demo_config) 0)"

text \<open>One turn with 10 ms of silence arriving.\<close>

definition demo_tick :: "nanos \<Rightarrow> io_error option \<Rightarrow> capture_input" where
  "demo_tick t out = \<lparr>stop_requested = False, closing = False, written = [replicate 1920 0],
     racing = [], clock = t, sent_clock = t, outcome = out\<rparr>"

lemma big_ring_facts:
  "channel 4096 2 = Some big_ring" "ring_repr big_ring [] 0" "chn big_ring = 2" "capn big_ring = 4096"
  "closed big_ring = False"
proof -
  have p: "is_power_of_two 4096" "is_power_of_two 2" by code_simp+
  then show c: "channel 4096 2 = Some big_ring" by (simp add: big_ring_def channel_def Let_def)
  show "chn big_ring = 2" "capn big_ring = 4096" "closed big_ring = False"
    unfolding big_ring_def channel_def using p by (simp_all add: Let_def)
  show "ring_repr big_ring [] 0" by (rule channel_repr [OF c]) simp
qed

lemma demo_capture_start: "capture_start demo_lib 128000 big_ring (new demo_config) 0 = Inr demo_capture"
proof -
  have "threshold + frame_size + MAX_EXPECTED_QUANTUM \<le> capacity_frames big_ring"
    using big_ring_facts(4)
    by (simp add: threshold_def frame_size_def frames_for_ms_def DRAIN_THRESHOLD_MS_def
        OPUS_SAMPLES_PER_FRAME_def SAMPLE_RATE_def MAX_EXPECTED_QUANTUM_def capacity_frames_def word_le_nat_alt)
  then show ?thesis
    by (simp add: demo_capture_def capture_start_def opus_new_def CHANNELS_def demo_lib_def)
qed

lemma demo_capture_facts:
  "capture_ok demo_capture [] 0" "outage_now demo_capture = None" "rtp demo_capture = new demo_config"
  "chn (ring demo_capture) = 2" "capn (ring demo_capture) = 4096" "\<not> closed (ring demo_capture)"
  using capture_start_ok [OF demo_capture_start big_ring_facts(2,3)] big_ring_facts(3-5) by simp_all

lemma demo_samples: "length (samples_of (ring demo_capture) [replicate 1920 0]) = 960"
  "turn_samples (ring demo_capture) (demo_tick t out) = samples_of (ring demo_capture) [replicate 1920 0]"
  using length_chunk_samples [of 2 4096 "replicate 1920 0"]
  by (simp_all add: samples_of_def demo_capture_facts demo_tick_def turn_samples_def)

lemma demo_turn:
  "\<exists>s'. capture_turn demo_lib demo_cipher (demo_tick t out) demo_capture =
     (s', if out = None then SentFrame else LostFrame)"
proof -
  have "fst (lib_encode demo_lib OUT_SIZE x e) = Inr [7]" for x e by (simp add: demo_lib_def)
  then obtain s' where "capture_turn demo_lib demo_cipher (demo_tick t out) demo_capture =
      (s', if out = None then SentFrame else snd (note_failure t (the out) demo_capture))"
    using turn_sends [OF demo_capture_facts(1), of "demo_tick t out" demo_lib "[7]" demo_cipher]
      demo_capture_facts demo_samples by (auto simp: demo_tick_def)
  then show ?thesis
    by (auto simp: note_failure_def Let_def demo_capture_facts OUTAGE_FATAL_def secs_def)
qed

section \<open>Properties\<close>

text \<open>
  C23: The encoder hears what was played, from the newest sample on. After start-up (which needs
  room for 30 ms, a frame and a producer batch in the ring) every frame the run encodes is a
  piece of 10 ms of the audio the producer ever wrote, beginning at or after the end of what was
  there when the capture started; the pieces are disjoint and in order, however the producer
  interleaves, laps the reader or is dropped to catch up.
\<close>

theorem capture_encodes_in_order:
  assumes "capture_start lib br r sd now = Inr s" and "ring_repr r h p" and "chn r = 2"
    and "length (h @ run_samples r is) div 2 < 2 ^ 64"
  shows "segments_from (h @ run_samples r is) (length h div 2) (encoded lib cipher is s) \<and> 3968 \<le> capn r"
proof -
  have "length h div 2 \<le> length (h @ run_samples r is) div 2" by (intro div_le_mono) simp
  then have "length h div 2 - p < 2 ^ 64" using assms(4) by linarith
  note s = capture_start_ok [OF assms(1-3) this]
  then have rs: "run_samples (ring s) is = run_samples r is"
    by (simp add: run_samples_def turn_samples_def [abs_def] samples_of_def)
  show ?thesis using encoded_segments [of s h "length h div 2" "is" lib cipher] s assms(4) rs by simp
qed

theorem capture_encodes_in_order_witness:
  "\<exists>x. encoded demo_lib demo_cipher [demo_tick 0 None] demo_capture = [x] \<and>
     segments_from ([] @ run_samples big_ring [demo_tick 0 None]) 0 [x]"
proof -
  have rs: "run_samples big_ring [demo_tick 0 None] = samples_of (ring demo_capture) [replicate 1920 0]"
    using big_ring_facts(3,4) demo_capture_facts(4,5)
    by (simp add: run_samples_def turn_samples_def samples_of_def demo_tick_def)
  obtain s' where t: "capture_turn demo_lib demo_cipher (demo_tick 0 None) demo_capture = (s', SentFrame)"
    using demo_turn [of 0 None] by auto
  have "length ([] @ run_samples big_ring [demo_tick 0 None]) div 2 < 2 ^ 64" by (simp add: rs demo_samples(1))
  from capture_encodes_in_order [OF demo_capture_start big_ring_facts(2,3) this, of demo_cipher]
  show ?thesis using t by (auto simp: going_on_def)
qed



text \<open>
  C25: The outage policy. The capture gives up on sending exactly when the current run of failed
  sends has lasted 5 s, counted from its first failure; any success in between starts over, and
  a lost frame alone never ends the loop.
\<close>

theorem outage_policy:
  assumes "capture_loop lib cipher is s = (s', as)" and "outage_now s = None" and "as \<noteq> []"
  shows "(\<forall>d e. last as = Failed (SendFailing d e) \<longrightarrow>
      (\<exists>t0. failing_since (attempts lib cipher is s) = Some t0 \<and>
         d = fst (last (attempts lib cipher is s)) - t0 \<and> secs 5 \<le> d)) \<and>
    (last as = LostFrame \<longrightarrow>
      (\<exists>t0. failing_since (attempts lib cipher is s) = Some t0 \<and>
         fst (last (attempts lib cipher is s)) - t0 < secs 5)) \<and>
    map_option since (outage_now s') = failing_since (attempts lib cipher is s)"
proof -
  have "map_option since (outage_now s) = failing_since []" using assms(2) by (simp add: failing_since_def)
  from loop_outage [OF assms(1) this] show ?thesis using assms(3) by (simp add: OUTAGE_FATAL_def)
qed

theorem outage_policy_witness:
  "\<exists>s' as. capture_loop demo_lib demo_cipher [demo_tick 3 (Some ''net'')] demo_capture = (s', as) \<and>
     as = [LostFrame] \<and> map_option since (outage_now s') = Some 3"
proof -
  obtain s' where t: "capture_turn demo_lib demo_cipher (demo_tick 3 (Some ''net'')) demo_capture = (s', LostFrame)"
    using demo_turn [of 3 "Some ''net''"] by auto
  then have l: "capture_loop demo_lib demo_cipher [demo_tick 3 (Some ''net'')] demo_capture = (s', [LostFrame])"
    by (simp add: going_on_def)
  have "attempts demo_lib demo_cipher [demo_tick 3 (Some ''net'')] demo_capture = [(3, False)]"
    using t by (simp add: attempt_def going_on_def) (simp add: demo_tick_def)
  then show ?thesis
    using outage_policy [OF l demo_capture_facts(2)] l by (simp add: failing_since_def)
qed

text \<open>
  The capture loop drives the RTP sender by sends alone. Whatever the loop does, the sender
  stays a reachable state of the sender with its NACK thread, and the frames it has sent are
  those it had, followed by the encodings of the frames the loop reports as sent, in order; so
  everything proved of reachable senders holds of the capture's sender at every moment.
\<close>

theorem capture_drives_sender:
  assumes "capture_loop lib cipher is s = (s', as)" and "rtp_reachable cipher peer c y" and "snder y = rtp s"
  shows "\<exists>y'. rtp_reachable cipher peer c y' \<and> snder y' = rtp s' \<and>
    frames y' = frames y @ sent_opus lib cipher is s"
  by (rule loop_drives [OF assms])

theorem capture_drives_sender_witness:
  "\<exists>y' s' as. capture_loop demo_lib demo_cipher [demo_tick 3 None] demo_capture = (s', as) \<and>
     rtp_reachable demo_cipher (9 :: nat) demo_config y' \<and> snder y' = rtp s' \<and> frames y' = [[7]]"
proof -
  obtain s' where t: "capture_turn demo_lib demo_cipher (demo_tick 3 None) demo_capture = (s', SentFrame)"
    using demo_turn [of 3 None] by auto
  then have l: "capture_loop demo_lib demo_cipher [demo_tick 3 None] demo_capture = (s', [SentFrame])"
    by (simp add: going_on_def)
  have "sent_opus demo_lib demo_cipher [demo_tick 3 None] demo_capture = [[7]]"
    using t by (simp add: going_on_def encoding_def opus_encode_def demo_lib_def)
  moreover have "snder (rtp_init demo_config) = rtp demo_capture" "frames (rtp_init demo_config) = []"
    by (simp_all add: rtp_init_def demo_capture_facts)
  ultimately show ?thesis
    using capture_drives_sender [OF l rtp_reachable.init, where peer = "9 :: nat" and c = demo_config] l by auto
qed

end
