(* ===== verification/Virtual_Sink.thy ===== *)
theory Virtual_Sink
  imports Sound_Source Audio_Format
begin

text \<open>
  \<open>src/virtual_sink.rs\<close>: the PipeWire sink that feeds the ring. The thread's life is a function of
  what PipeWire reports: whether each set-up call succeeds and the events the main loop delivers.
  The readiness channel is the list of messages sent on it. The PipeWire objects themselves, the
  properties of the node and the serialised format are left to the library.
\<close>

section \<open>The name of the sink\<close>

text \<open>
  The source walks over Unicode characters; the bytes of a character that is not ASCII are not
  alphanumeric, and a run of such bytes acts as the one character does.
\<close>

definition is_alnum :: "char \<Rightarrow> bool" where
  "is_alnum c = (let n = (of_char c :: nat)
     in 48 \<le> n \<and> n \<le> 57 \<or> 65 \<le> n \<and> n \<le> 90 \<or> 97 \<le> n \<and> n \<le> 122)"

definition lower_char :: "char \<Rightarrow> char" where
  "lower_char c = (let n = (of_char c :: nat) in if 65 \<le> n \<and> n \<le> 90 then char_of (n + 32) else c)"

fun sanitize_loop :: "string \<Rightarrow> bool \<Rightarrow> string \<Rightarrow> string" where
  "sanitize_loop [] prev_us out = out"
| "sanitize_loop (c # cs) prev_us out =
     (if is_alnum c then sanitize_loop cs False (out @ [lower_char c])
      else if \<not> prev_us then sanitize_loop cs True (out @ ''_'')
      else sanitize_loop cs prev_us out)"

text \<open>\<open>while out.ends_with('_') { out.pop(); }\<close>\<close>

function pop_underscores :: "string \<Rightarrow> string" where
  "pop_underscores out =
     (if out \<noteq> [] \<and> last out = CHR ''_'' then pop_underscores (butlast out) else out)"
  by pat_completeness auto
termination
  by (relation "measure length") auto

declare pop_underscores.simps [simp del]

definition sanitize_sink_name :: "string \<Rightarrow> string" where
  "sanitize_sink_name device_name = pop_underscores (sanitize_loop device_name True ''chromecast_sink_'')"

section \<open>The format offered\<close>

datatype audio_format = S16LE | OtherFormat
datatype spa_channel = FL | FR | UnknownChannel

record audio_info =
  info_format :: audio_format
  info_rate :: u32
  info_channels :: u32
  info_position :: "spa_channel list"

definition enum_format :: audio_info where
  "enum_format = \<lparr>info_format = S16LE, info_rate = SAMPLE_RATE, info_channels = ucast CHANNELS,
     info_position = [FL, FR] @ replicate 62 UnknownChannel\<rparr>"

text \<open>
  \<open>param_changed\<close>: whether it logs an error. \<open>param\<close> is \<open>None\<close> when there is no parameter or it
  does not parse.
\<close>

definition param_changed :: "bool \<Rightarrow> audio_info option \<Rightarrow> bool" where
  "param_changed is_format_id param =
     (if \<not> is_format_id then False
      else case param of
        None \<Rightarrow> False
      | Some info \<Rightarrow>
          info_format info \<noteq> S16LE \<or> info_rate info \<noteq> SAMPLE_RATE \<or> info_channels info \<noteq> ucast CHANNELS)"

section \<open>The process callback\<close>

text \<open>
  A dequeued buffer: no data block, a block without memory, or the mapped slice with the chunk's
  offset and size.
\<close>

datatype pw_buffer = NoBlock | NoMemory | Block bytes u32 u32

text \<open>The part of a block that is written; the outer \<open>None\<close> is the panic of a bad slice.\<close>

definition chunk_slice :: "bytes \<Rightarrow> u32 \<Rightarrow> u32 \<Rightarrow> bytes option option" where
  "chunk_slice sl chunk_offset chunk_size =
     (let offset = unat chunk_offset mod length sl;
          end_ix = min (offset + unat chunk_size) (length sl)
      in if offset < end_ix then map_option Some (get_range sl offset end_ix) else Some None)"

text \<open>
  The loop over the dequeued buffers; it returns early on the first buffer without memory.
  \<open>None\<close> is a panic.
\<close>

fun process_buffers :: "pw_buffer list \<Rightarrow> audio_ring \<Rightarrow> audio_ring option" where
  "process_buffers [] r = Some r"
| "process_buffers (NoBlock # bufs) r = Some r"
| "process_buffers (NoMemory # bufs) r = Some r"
| "process_buffers (Block sl chunk_offset chunk_size # bufs) r =
     (if sl = [] then Some r
      else case chunk_slice sl chunk_offset chunk_size of
        None \<Rightarrow> None
      | Some None \<Rightarrow> process_buffers bufs r
      | Some (Some bs) \<Rightarrow> process_buffers bufs (write_s16le r bs))"

section \<open>The thread\<close>

text \<open>The set-up calls of the thread before the listener is registered.\<close>

datatype pw_call = MainLoop | Context | Connect | Stream | EnumFormat

definition pw_init :: "(pw_call \<Rightarrow> string option) \<Rightarrow> (pw_call \<times> string) option" where
  "pw_init call = first_error call [MainLoop, Context, Connect, Stream, EnumFormat]"

definition node_props :: "string \<Rightarrow> string \<Rightarrow> (string \<times> string) list" where
  "node_props name description =
     [(''media.class'', ''Audio/Sink''), (''node.name'', name), (''node.description'', description),
      (''device.class'', ''sound''), (''device.icon-name'', ''audio-speakers''), (''node.virtual'', ''true''),
      (''node.force-quantum'', ''256''), (''node.always-process'', ''true''),
      (''node.suspend-on-idle'', ''false'')]"

datatype pw_error =
    InitFailed pw_call string | StreamFailed string | ListenerFailed string | ConnectFailed string | LoopExited

datatype ready_message = ReadyOk | ReadyErr pw_error

record pw_thread =
  producer :: audio_ring
  signalled :: bool
  shutting_down :: bool
  ready :: "ready_message list"

datatype stream_state = Streaming | StreamError string | Unconnected | OtherState

definition close_ring :: "pw_thread \<Rightarrow> pw_thread" where
  "close_ring st = st\<lparr>producer := close (producer st)\<rparr>"

text \<open>\<open>if !signalled.swap(true) { ready_tx.send(msg) }\<close>\<close>

definition signal :: "ready_message \<Rightarrow> pw_thread \<Rightarrow> pw_thread" where
  "signal msg st =
     (if signalled st then st else st\<lparr>signalled := True, ready := ready st @ [msg]\<rparr>)"

definition state_changed :: "stream_state \<Rightarrow> pw_thread \<Rightarrow> pw_thread" where
  "state_changed new_state st =
     (case new_state of
        Streaming \<Rightarrow> signal ReadyOk st
      | StreamError e \<Rightarrow> close_ring (signal (ReadyErr (StreamFailed e)) st)
      | Unconnected \<Rightarrow> if signalled st \<and> \<not> shutting_down st then close_ring st else st
      | OtherState \<Rightarrow> st)"

text \<open>
  What happens while the main loop runs: a state change, a \<open>process\<close> cycle with the buffers it
  dequeues, a format change, the quit message of \<open>drop\<close>, and the return of \<open>mainloop.run()\<close>
  (\<open>LoopExit\<close>: after a quit, or because the loop itself failed). What follows \<open>LoopExit\<close> are
  the callbacks up to the destruction of the stream.
\<close>

datatype pw_event = StateChanged stream_state | Process "pw_buffer list" | ParamChanged | Quit | LoopExit

definition after_loop :: "pw_thread \<Rightarrow> pw_thread" where
  "after_loop st = close_ring (signal (ReadyErr LoopExited) st)"

text \<open>\<open>None\<close> is a panic in a callback.\<close>

definition dispatch :: "pw_event \<Rightarrow> pw_thread \<Rightarrow> pw_thread option" where
  "dispatch ev st =
     (case ev of
        StateChanged s \<Rightarrow> Some (state_changed s st)
      | Process bufs \<Rightarrow>
          map_option (\<lambda>r. st\<lparr>producer := r\<rparr>) (process_buffers bufs (producer st))
      | ParamChanged \<Rightarrow> Some st
      | Quit \<Rightarrow> Some (st\<lparr>shutting_down := True\<rparr>)
      | LoopExit \<Rightarrow> Some (after_loop st))"

fun dispatch_all :: "pw_event list \<Rightarrow> pw_thread \<Rightarrow> pw_thread option" where
  "dispatch_all [] st = Some st"
| "dispatch_all (ev # evs) st =
     (case dispatch ev st of None \<Rightarrow> None | Some st' \<Rightarrow> dispatch_all evs st')"

text \<open>
  The set-up calls that can fail, with their errors, and the events the library delivers from
  inside \<open>stream.connect\<close> and afterwards from the main loop.
\<close>

record pw_world =
  init_error :: "pw_call \<Rightarrow> string option"
  listener_error :: "string option"
  connect_events :: "stream_state list"
  connect_error :: "string option"
  loop_events :: "pw_event list"

definition pw_start :: "audio_ring \<Rightarrow> pw_thread" where
  "pw_start r = \<lparr>producer = r, signalled = False, shutting_down = False, ready = []\<rparr>"

definition send_ready :: "ready_message \<Rightarrow> pw_thread \<Rightarrow> pw_thread" where
  "send_ready msg st = st\<lparr>ready := ready st @ [msg]\<rparr>"

text \<open>The thread: its state and whether it has ended (the script may stop before that).\<close>

definition run_pw_thread :: "pw_world \<Rightarrow> audio_ring \<Rightarrow> (pw_thread \<times> bool) option" where
  "run_pw_thread w r =
     (let st = pw_start r
      in case pw_init (init_error w) of
           Some (call, e) \<Rightarrow> Some (close_ring (send_ready (ReadyErr (InitFailed call e)) st), True)
         | None \<Rightarrow>
             case listener_error w of
               Some e \<Rightarrow> Some (close_ring (send_ready (ReadyErr (ListenerFailed e)) st), True)
             | None \<Rightarrow>
                 let st1 = fold state_changed (connect_events w) st
                 in case connect_error w of
                      Some e \<Rightarrow> Some (close_ring (send_ready (ReadyErr (ConnectFailed e)) st1), True)
                    | None \<Rightarrow>
                        map_option (\<lambda>st2. (st2, LoopExit \<in> set (loop_events w)))
                          (dispatch_all (loop_events w) st1))"

section \<open>The owner's side\<close>

definition RING_CAPACITY_FRAMES :: usize where
  "RING_CAPACITY_FRAMES = 8192"

definition READY_TIMEOUT :: nanos where
  "READY_TIMEOUT = secs 10"

record virtual_sink =
  sink_name :: string
  consumer :: "audio_ring option"
  quit_tx :: bool
  sink_thread :: bool
  quit_sent :: bool

definition drop_sink :: "virtual_sink \<Rightarrow> virtual_sink" where
  "drop_sink s = s\<lparr>quit_sent := quit_sent s \<or> quit_tx s, quit_tx := False, sink_thread := False\<rparr>"

definition take_consumer :: "virtual_sink \<Rightarrow> audio_ring option \<times> virtual_sink" where
  "take_consumer s = (consumer s, s\<lparr>consumer := None\<rparr>)"

datatype sink_error = RingAssertion | NotReady pw_error | ReadyTimedOut nanos | ThreadDied

text \<open>What \<open>recv_timeout\<close> on the readiness channel returns.\<close>

datatype ready_wait = ReadyGot ready_message | ReadyTimeout | ReadyDisconnected

text \<open>On an error the sink that was built is dropped; it is returned for inspection.\<close>

definition sink_new :: "string \<Rightarrow> ready_wait \<Rightarrow> (sink_error + virtual_sink) \<times> virtual_sink option" where
  "sink_new device_name wait =
     (case channel RING_CAPACITY_FRAMES (ucast CHANNELS) of
        None \<Rightarrow> (Inl RingAssertion, None)
      | Some r \<Rightarrow>
          let s = \<lparr>sink_name = sanitize_sink_name device_name, consumer = Some r, quit_tx = True,
                   sink_thread = True, quit_sent = False\<rparr>
          in case wait of
               ReadyGot ReadyOk \<Rightarrow> (Inr s, None)
             | ReadyGot (ReadyErr e) \<Rightarrow> (Inl (NotReady e), Some (drop_sink s))
             | ReadyTimeout \<Rightarrow> (Inl (ReadyTimedOut READY_TIMEOUT), Some (drop_sink s))
             | ReadyDisconnected \<Rightarrow> (Inl ThreadDied, Some (drop_sink s)))"

section \<open>The name of the sink: its words joined by underscores\<close>

text \<open>The maximal alphanumeric runs of a string.\<close>

function alnum_words :: "string \<Rightarrow> string list" where
  "alnum_words s =
     (if dropWhile (\<lambda>c. \<not> is_alnum c) s = [] then []
      else let t = dropWhile (\<lambda>c. \<not> is_alnum c) s
           in takeWhile is_alnum t # alnum_words (dropWhile is_alnum t))"
  by pat_completeness auto

lemma dropWhile_shrinks:
  assumes "dropWhile (\<lambda>c. \<not> P c) s \<noteq> []"
  shows "length (dropWhile P (dropWhile (\<lambda>c. \<not> P c) s)) < length s"
  using assms
proof (induction s)
  case (Cons c s)
  then show ?case
    using length_dropWhile_le [of P s] by (auto simp: less_Suc_eq_le)
qed simp

termination alnum_words
  by (relation "measure length") (auto intro: dropWhile_shrinks)

declare alnum_words.simps [simp del]

lemma alnum_words_Nil [simp]: "alnum_words [] = []"
  by (simp add: alnum_words.simps)

lemma alnum_words_skip [simp]: "\<not> is_alnum c \<Longrightarrow> alnum_words (c # s) = alnum_words s"
  by (subst (1 2) alnum_words.simps) simp

lemma alnum_words_word [simp]:
  "is_alnum c \<Longrightarrow> alnum_words (c # s) = (c # takeWhile is_alnum s) # alnum_words (dropWhile is_alnum s)"
  by (subst alnum_words.simps) simp

abbreviation joined_words :: "string list \<Rightarrow> string" where
  "joined_words ws \<equiv> concat (map (\<lambda>w. CHR ''_'' # map lower_char w) ws)"

lemma lower_char_not_underscore: "is_alnum c \<Longrightarrow> lower_char c \<noteq> CHR ''_''"
proof
  assume a: "is_alnum c" and e: "lower_char c = CHR ''_''"
  show False
  proof (cases "65 \<le> (of_char c :: nat) \<and> (of_char c :: nat) \<le> 90")
    case True
    then have "of_char (char_of ((of_char c :: nat) + 32) :: char) = (of_char c :: nat) + 32"
      by (simp add: take_bit_eq_mod)
    with e True show False by (auto simp: lower_char_def Let_def)
  next
    case False
    with e have "c = CHR ''_''" by (auto simp: lower_char_def Let_def split: if_splits)
    with a show False by (simp add: is_alnum_def)
  qed
qed

lemma pop_underscores_stop: "A \<noteq> [] \<Longrightarrow> last A \<noteq> CHR ''_'' \<Longrightarrow> pop_underscores A = A"
  by (subst pop_underscores.simps) simp

lemma pop_underscores_one: "pop_underscores (A @ ''_'') = pop_underscores A"
  by (subst pop_underscores.simps) simp

lemma sanitize_loop_words:
  assumes "A \<noteq> []" and "last A \<noteq> CHR ''_''"
  shows "pop_underscores (sanitize_loop s True (A @ ''_'')) = A @ joined_words (alnum_words s)"
    and "pop_underscores (sanitize_loop s False A) =
           A @ map lower_char (takeWhile is_alnum s) @ joined_words (alnum_words (dropWhile is_alnum s))"
  using assms
proof (induction s arbitrary: A)
  case Nil
  case 1 then show ?case by (simp add: pop_underscores_one pop_underscores_stop)
  case 2 then show ?case by (simp add: pop_underscores_stop)
next
  case (Cons c s)
  case 1
  show ?case
  proof (cases "is_alnum c")
    case True
    then show ?thesis
      using Cons(2) [of "A @ ''_'' @ [lower_char c]"] by (simp add: lower_char_not_underscore)
  next
    case False
    then show ?thesis using Cons(1) [OF 1] by simp
  qed
  case 2
  show ?case
  proof (cases "is_alnum c")
    case True
    then show ?thesis
      using Cons(2) [of "A @ [lower_char c]"] by (simp add: lower_char_not_underscore)
  next
    case False
    then show ?thesis using Cons(1) [OF 2] by simp
  qed
qed

text \<open>
  The sanitised name of a device is \<open>chromecast_sink\<close> followed by an underscore and the
  lower-cased word for every maximal alphanumeric run of the device's name: the character loop with
  its \<open>prev_us\<close> flag and the trailing pops compute exactly this.
\<close>

theorem sanitize_joins_words:
  "sanitize_sink_name s = ''chromecast_sink'' @ joined_words (alnum_words s)"
  using sanitize_loop_words(1) [of "''chromecast_sink''" s]
  by (simp add: sanitize_sink_name_def)

lemma pw_init_ok [simp]: "pw_init (\<lambda>_. None) = None"
  by (simp add: pw_init_def)

section \<open>The process callback appends what was played\<close>

text \<open>The bytes PipeWire says were played: \<open>size\<close> of them from \<open>offset\<close> modulo the block, up to its end.\<close>

fun played :: "pw_buffer list \<Rightarrow> bytes list" where
  "played (Block sl chunk_offset chunk_size # bufs) =
     (if sl = [] then []
      else take (unat chunk_size) (drop (unat chunk_offset mod length sl) sl) # played bufs)"
| "played _ = []"

lemma chunk_slice_eq:
  assumes "sl \<noteq> []"
  shows "chunk_slice sl off sz =
    (if sz = 0 then Some None else Some (Some (take (unat sz) (drop (unat off mod length sl) sl))))"
proof -
  let ?o = "unat off mod length sl"
  have lt: "?o < length sl" using assms by simp
  have pos: "0 < unat sz \<longleftrightarrow> sz \<noteq> 0" by (simp add: unsigned_eq_0_iff flip: neq0_conv)
  have "take (min (?o + unat sz) (length sl) - ?o) (drop ?o sl) = take (unat sz) (drop ?o sl)"
    by (simp add: min_def)
  then show ?thesis using lt pos
    by (auto simp: chunk_slice_def Let_def get_range_def)
qed

lemma chunk_samples_empty [simp]: "chunk_samples n c [] = []"
  by (simp add: chunk_samples_def)

text \<open>The callback is a sound source; PipeWire may report any offsets and sizes.\<close>

interpretation pipewire: sound_source process_buffers played "\<lambda>_. True"
proof
  show "process_buffers bufs r = Some (producer_writes (played bufs) r)" for bufs r
  proof (induction bufs r rule: process_buffers.induct)
    case (4 sl off sz bufs r)
    show ?case
    proof (cases "sl = [] \<or> sz = 0")
      case True
      then show ?thesis using 4(1) by (cases "sl = []") (simp_all add: chunk_slice_eq write_s16le_def)
    next
      case False
      then have cs: "chunk_slice sl off sz = Some (Some (take (unat sz) (drop (unat off mod length sl) sl)))"
        by (simp add: chunk_slice_eq)
      from 4(2) [OF _ cs refl] False cs show ?thesis by simp
    qed
  qed simp_all
qed

lemmas process_buffers_repr = pipewire.wake_repr [OF TrueI, unfolded samples_of_def]

text \<open>
  The realtime callback never panics, whatever offsets and sizes PipeWire reports, and it
  appends to the ring's history exactly the samples of the bytes played, buffer by buffer, up to
  the first buffer without memory; the read position and the closed flag stay as they are.
\<close>

theorem process_appends:
  assumes "ring_repr r h p"
  shows "\<exists>r'. process_buffers bufs r = Some r' \<and>
    ring_repr r' (h @ concat (map (chunk_samples (chn r) (capn r)) (played bufs))) p \<and> closed r' = closed r"
  using process_buffers_repr [OF assms] .

theorem process_appends_witness:
  "\<exists>r r'. channel 4 2 = Some r \<and> process_buffers [Block [9, 1, 0, 2, 0, 9] 7 4, NoMemory] r = Some r' \<and>
     ring_repr r' [1, 2] 0"
proof -
  obtain r where r: "channel 4 2 = Some r" "ring_repr r [] 0" "chn r = 2" "capn r = 4"
    by (rule small_ring)
  have "chunk_samples 2 4 [1, 0, 2, 0] = [1, 2]"
    by (simp add: chunk_samples_def from_le16_def from_be16_def)
  with process_appends [OF r(2), of "[Block [9, 1, 0, 2, 0, 9] 7 4, NoMemory]"] r(1,3,4)
  show ?thesis by auto
qed

section \<open>What the thread reports\<close>

text \<open>The first state that decides whether the sink is up.\<close>

fun verdict :: "stream_state list \<Rightarrow> ready_message option" where
  "verdict [] = None"
| "verdict (Streaming # ss) = Some ReadyOk"
| "verdict (StreamError e # ss) = Some (ReadyErr (StreamFailed e))"
| "verdict (_ # ss) = verdict ss"

fun states_of :: "pw_event list \<Rightarrow> stream_state list" where
  "states_of [] = []"
| "states_of (LoopExit # evs) = []"
| "states_of (StateChanged s # evs) = s # states_of evs"
| "states_of (_ # evs) = states_of evs"

definition told :: "ready_message option \<Rightarrow> pw_thread \<Rightarrow> bool" where
  "told v st \<longleftrightarrow> signalled st = (v \<noteq> None) \<and> ready st = (case v of None \<Rightarrow> [] | Some m \<Rightarrow> [m])"

fun or_else :: "'a option \<Rightarrow> 'a option \<Rightarrow> 'a option" where
  "or_else None y = y"
| "or_else (Some x) y = Some x"

lemma or_else_assoc: "or_else (or_else a b) c = or_else a (or_else b c)"
  by (cases a) simp_all

lemma verdict_Cons: "verdict (s # ss) = or_else (verdict [s]) (verdict ss)"
  by (cases s) simp_all

lemma told_signal: "told v st \<Longrightarrow> told (or_else v (Some m)) (signal m st)"
  by (cases v) (auto simp: told_def signal_def)

lemma told_close [simp]: "told v (close_ring st) = told v st"
  by (simp add: told_def close_ring_def)

lemma told_state_changed: "told v st \<Longrightarrow> told (or_else v (verdict [s])) (state_changed s st)"
  by (cases s; cases v) (auto simp: state_changed_def dest: told_signal)

lemma told_fold: "told v st \<Longrightarrow> told (or_else v (verdict ss)) (fold state_changed ss st)"
proof (induction ss arbitrary: v st)
  case Nil
  then show ?case by (cases v) simp_all
next
  case (Cons s ss)
  from Cons(1) [OF told_state_changed [OF Cons(2)]] show ?case
    by (simp add: verdict_Cons [of s ss] or_else_assoc)
qed

lemma or_else_Some [simp]: "or_else v (Some m) \<noteq> None"
  by (cases v) simp_all

lemma told_decided:
  assumes "told (Some m) st" and "dispatch ev st = Some st'"
  shows "told (Some m) st'"
proof (cases ev)
  case (StateChanged s)
  then show ?thesis using told_state_changed [OF assms(1), of s] assms(2) by (simp add: dispatch_def)
next
  case LoopExit
  then show ?thesis using told_signal [OF assms(1), of "ReadyErr LoopExited"] assms(2)
    by (auto simp: dispatch_def after_loop_def)
qed (use assms in \<open>auto simp: dispatch_def told_def\<close>)

lemma told_decided_all:
  "told (Some m) st \<Longrightarrow> dispatch_all evs st = Some st' \<Longrightarrow> told (Some m) st'"
  by (induction evs arbitrary: st) (auto split: option.splits dest: told_decided)

definition final_verdict :: "pw_event list \<Rightarrow> ready_message option" where
  "final_verdict evs = or_else (verdict (states_of evs))
     (if LoopExit \<in> set evs then Some (ReadyErr LoopExited) else None)"

lemma told_all:
  "told v st \<Longrightarrow> dispatch_all evs st = Some st' \<Longrightarrow> told (or_else v (final_verdict evs)) st'"
proof (induction evs arbitrary: v st)
  case Nil
  then show ?case by (cases v) (simp_all add: final_verdict_def)
next
  case (Cons ev evs)
  from Cons(3) obtain st1 where d: "dispatch ev st = Some st1" "dispatch_all evs st1 = Some st'"
    by (auto split: option.splits)
  show ?case
  proof (cases ev)
    case (StateChanged s)
    then have "told (or_else v (verdict [s])) st1"
      using told_state_changed [OF Cons(2), of s] d(1) by (simp add: dispatch_def)
    from Cons(1) [OF this d(2)] StateChanged show ?thesis
      by (simp add: final_verdict_def verdict_Cons [of s "states_of evs"] or_else_assoc)
  next
    case LoopExit
    then have "told (or_else v (Some (ReadyErr LoopExited))) st1"
      using told_signal [OF Cons(2), of "ReadyErr LoopExited"] d(1)
      by (auto simp: dispatch_def after_loop_def)
    moreover obtain m where m: "or_else v (Some (ReadyErr LoopExited)) = Some m"
      using or_else_Some [of v] by (metis not_None_eq)
    ultimately have "told (Some m) st'" using told_decided_all [OF _ d(2)] by simp
    then show ?thesis using m LoopExit by (simp add: final_verdict_def)
  next
    case (Process bufs)
    then have "told v st1" using Cons(2) d(1) by (auto simp: dispatch_def told_def)
    from Cons(1) [OF this d(2)] Process show ?thesis by (simp add: final_verdict_def)
  next
    case ParamChanged
    then have "told v st1" using Cons(2) d(1) by (simp add: dispatch_def)
    from Cons(1) [OF this d(2)] ParamChanged show ?thesis by (simp add: final_verdict_def)
  next
    case Quit
    then have "told v st1" using Cons(2) d(1) by (auto simp: dispatch_def told_def)
    from Cons(1) [OF this d(2)] Quit show ?thesis by (simp add: final_verdict_def)
  qed
qed

lemma verdict_append: "verdict (ss @ ts) = or_else (verdict ss) (verdict ts)"
proof (induction ss)
  case (Cons s ss)
  then show ?case using verdict_Cons [of s "ss @ ts"] verdict_Cons [of s ss] by (simp add: or_else_assoc)
qed simp

lemma told_start: "told None (pw_start r)"
  by (simp add: told_def pw_start_def)

text \<open>
  C37: What the owner hears on the readiness channel is decided by the first event that matters: a
  failed set-up call, else the first \<open>Streaming\<close> or \<open>Error\<close> state, else the end of the main
  loop. Exactly one message is sent, except that a failing \<open>connect\<close> reports after a state that
  was already reported; a thread that has ended has always reported.
\<close>

theorem pw_thread_reports:
  assumes "run_pw_thread w r = Some (st, ended)"
  shows "ready st =
    (case pw_init (init_error w) of
       Some (call, e) \<Rightarrow> [ReadyErr (InitFailed call e)]
     | None \<Rightarrow> case listener_error w of
         Some e \<Rightarrow> [ReadyErr (ListenerFailed e)]
       | None \<Rightarrow> case connect_error w of
           Some e \<Rightarrow> (case verdict (connect_events w) of None \<Rightarrow> [] | Some m \<Rightarrow> [m]) @ [ReadyErr (ConnectFailed e)]
         | None \<Rightarrow> case verdict (connect_events w @ states_of (loop_events w)) of
             Some m \<Rightarrow> [m]
           | None \<Rightarrow> if ended then [ReadyErr LoopExited] else [])"
proof (cases "pw_init (init_error w) = None \<and> listener_error w = None")
  case True
  let ?st1 = "fold state_changed (connect_events w) (pw_start r)"
  have t1: "told (verdict (connect_events w)) ?st1"
    using told_fold [OF told_start] by (simp only: or_else.simps)
  show ?thesis
  proof (cases "connect_error w")
    case None
    then obtain "dispatch_all (loop_events w) ?st1 = Some st" and e: "ended = (LoopExit \<in> set (loop_events w))"
      using assms True by (auto simp: run_pw_thread_def Let_def)
    from told_all [OF t1 this(1)] show ?thesis
      using None True e
      by (cases "verdict (connect_events w)"; cases "verdict (states_of (loop_events w))")
        (simp_all add: told_def final_verdict_def verdict_append)
  next
    case (Some e)
    then show ?thesis using assms True t1
      by (auto simp: run_pw_thread_def told_def close_ring_def send_ready_def Let_def)
  qed
next
  case False
  then show ?thesis using assms
    by (auto simp: run_pw_thread_def close_ring_def send_ready_def pw_start_def Let_def split: option.splits)
qed

theorem pw_thread_reports_witness:
  "\<exists>st. run_pw_thread \<lparr>init_error = (\<lambda>_. None), listener_error = None, connect_events = [OtherState],
       connect_error = None, loop_events = [StateChanged Streaming, StateChanged (StreamError ''gone''), Quit, LoopExit]\<rparr>
     (the (channel 4 2)) = Some (st, True) \<and> ready st = [ReadyOk]"
proof -
  let ?w = "\<lparr>init_error = (\<lambda>_. None), listener_error = None, connect_events = [OtherState],
       connect_error = None, loop_events = [StateChanged Streaming, StateChanged (StreamError ''gone''), Quit, LoopExit]\<rparr>"
  have "\<exists>st. run_pw_thread ?w (the (channel 4 2)) = Some (st, True)"
    by (simp add: run_pw_thread_def pw_init_def dispatch_def Let_def)
  then obtain st where "run_pw_thread ?w (the (channel 4 2)) = Some (st, True)" by blast
  with pw_thread_reports [OF this] show ?thesis by simp
qed

section \<open>When the ring is closed\<close>

lemma process_buffers_closed: "process_buffers bufs r = Some r' \<Longrightarrow> closed r' = closed r"
  by (induction bufs r rule: process_buffers.induct) (auto split: if_splits option.splits)

lemma state_changed_fields [simp]:
  "shutting_down (state_changed s st) = shutting_down st"
  by (simp add: state_changed_def signal_def close_ring_def split: stream_state.split)

lemma close_ring_closed [simp]: "closed (producer (close_ring st))"
  by (simp add: close_ring_def close_def)

lemma state_changed_closed:
  "closed (producer (state_changed s st)) \<longleftrightarrow> closed (producer st) \<or> (\<exists>e. s = StreamError e) \<or>
     s = Unconnected \<and> signalled st \<and> \<not> shutting_down st"
  by (cases s) (auto simp: state_changed_def signal_def)

lemma dispatch_closed:
  assumes "dispatch ev st = Some st'"
  shows "closed (producer st') \<longleftrightarrow> closed (producer st) \<or> ev = LoopExit \<or>
    (\<exists>e. ev = StateChanged (StreamError e)) \<or>
    ev = StateChanged Unconnected \<and> signalled st \<and> \<not> shutting_down st"
  using assms
  by (cases ev) (auto simp: dispatch_def after_loop_def state_changed_closed dest: process_buffers_closed)

lemma dispatch_all_append:
  "dispatch_all (xs @ ys) st = (case dispatch_all xs st of None \<Rightarrow> None | Some st' \<Rightarrow> dispatch_all ys st')"
  by (induction xs arbitrary: st) (auto split: option.splits)

lemma dispatch_flags:
  assumes "dispatch ev st = Some st'"
  shows "signalled st' \<longleftrightarrow> signalled st \<or> ev = LoopExit \<or> ev = StateChanged Streaming \<or>
      (\<exists>e. ev = StateChanged (StreamError e))"
    and "shutting_down st' \<longleftrightarrow> shutting_down st \<or> ev = Quit"
proof -
  have "signalled (state_changed s st) \<longleftrightarrow> signalled st \<or> s = Streaming \<or> (\<exists>e. s = StreamError e)" for s
    by (cases s) (simp_all add: state_changed_def signal_def close_ring_def)
  then show "signalled st' \<longleftrightarrow> signalled st \<or> ev = LoopExit \<or> ev = StateChanged Streaming \<or>
      (\<exists>e. ev = StateChanged (StreamError e))"
    using assms by (cases ev) (auto simp: dispatch_def after_loop_def signal_def close_ring_def)
  show "shutting_down st' \<longleftrightarrow> shutting_down st \<or> ev = Quit"
    using assms by (cases ev) (auto simp: dispatch_def after_loop_def signal_def close_ring_def split: if_splits)
qed

text \<open>The events that stop the audio for good.\<close>

definition fatal :: "pw_event \<Rightarrow> bool" where
  "fatal ev \<longleftrightarrow> ev = LoopExit \<or> (\<exists>e. ev = StateChanged (StreamError e))"

definition disconnected_unasked :: "bool \<Rightarrow> bool \<Rightarrow> pw_event list \<Rightarrow> bool" where
  "disconnected_unasked up quitting evs \<longleftrightarrow>
     (\<exists>a b. evs = a @ StateChanged Unconnected # b \<and> (up \<or> StateChanged Streaming \<in> set a) \<and>
        \<not> quitting \<and> Quit \<notin> set a)"

lemma disconnected_unasked_Nil [simp]: "\<not> disconnected_unasked up quitting []"
  by (simp add: disconnected_unasked_def)

lemma disconnected_unasked_Cons:
  "disconnected_unasked up quitting (ev # evs) \<longleftrightarrow>
     ev = StateChanged Unconnected \<and> up \<and> \<not> quitting \<or>
     disconnected_unasked (up \<or> ev = StateChanged Streaming) (quitting \<or> ev = Quit) evs"
    (is "?l \<longleftrightarrow> ?now \<or> ?later")
proof
  assume ?l
  then show "?now \<or> ?later" unfolding disconnected_unasked_def Cons_eq_append_conv by auto
next
  assume "?now \<or> ?later"
  then show ?l
  proof
    assume ?now
    then show ?l unfolding disconnected_unasked_def by (intro exI [of _ "[]"] exI [of _ evs]) simp
  next
    assume ?later
    then obtain a b where "evs = a @ StateChanged Unconnected # b"
        "(up \<or> ev = StateChanged Streaming) \<or> StateChanged Streaming \<in> set a"
        "\<not> (quitting \<or> ev = Quit)" "Quit \<notin> set a"
      unfolding disconnected_unasked_def by blast
    then show ?l unfolding disconnected_unasked_def by (intro exI [of _ "ev # a"] exI [of _ b]) auto
  qed
qed

lemma dispatch_all_closed:
  "dispatch_all evs st = Some st' \<Longrightarrow> closed (producer st') \<longleftrightarrow>
     closed (producer st) \<or> list_ex fatal evs \<or> disconnected_unasked (signalled st) (shutting_down st) evs"
proof (induction evs arbitrary: st)
  case (Cons ev evs)
  then obtain st1 where d: "dispatch ev st = Some st1" "dispatch_all evs st1 = Some st'"
    by (auto split: option.splits)
  note * = Cons(1) [OF d(2)] dispatch_closed [OF d(1)] dispatch_flags [OF d(1)]
  show ?case
  proof (cases "fatal ev")
    case True
    then show ?thesis using * by (auto simp: fatal_def)
  next
    case False
    then show ?thesis using * by (auto simp: fatal_def disconnected_unasked_Cons)
  qed
qed simp

lemma dispatch_all_total:
  assumes "ring_repr (producer st) h p"
  shows "\<exists>st' h'. dispatch_all evs st = Some st' \<and> ring_repr (producer st') (h @ h') p"
  using assms
proof (induction evs arbitrary: st h)
  case Nil
  then have "dispatch_all [] st = Some st" "ring_repr (producer st) (h @ []) p" by simp_all
  then show ?case by blast
next
  case (Cons ev evs)
  have c: "ring_repr (producer (close_ring st')) h' p \<longleftrightarrow> ring_repr (producer st') h' p" for st' h'
    using ring_ok_cong [of "producer st'" "close (producer st')"]
      ring_ok_cong [of "close (producer st')" "producer st'"]
    by (auto simp: ring_repr_def close_ring_def close_def)
  have sg: "producer (signal m st') = producer st'" for m st' by (simp add: signal_def)
  have "\<exists>st1 h1. dispatch ev st = Some st1 \<and> ring_repr (producer st1) (h @ h1) p"
  proof (cases ev)
    case (Process bufs)
    then show ?thesis using process_buffers_repr [OF Cons(2), of bufs] by (auto simp: dispatch_def)
  next
    case (StateChanged s)
    have "ring_repr (producer (state_changed s st)) (h @ []) p"
      using Cons(2) by (simp add: state_changed_def c sg split: stream_state.split)
    with StateChanged show ?thesis by (auto simp: dispatch_def simp del: append_Nil2)
  next
    case LoopExit
    have "ring_repr (producer (after_loop st)) (h @ []) p" using Cons(2) by (simp add: after_loop_def c sg)
    with LoopExit show ?thesis by (auto simp: dispatch_def simp del: append_Nil2)
  next
    case ParamChanged
    then show ?thesis using Cons(2) by (intro exI [of _ st] exI [of _ "[]"]) (simp add: dispatch_def)
  next
    case Quit
    then show ?thesis using Cons(2)
      by (intro exI [of _ "st\<lparr>shutting_down := True\<rparr>"] exI [of _ "[]"]) (simp add: dispatch_def)
  qed
  then obtain st1 h1 where d: "dispatch ev st = Some st1" "ring_repr (producer st1) (h @ h1) p" by blast
  from Cons(1) [OF d(2)] obtain st' h' where
    "dispatch_all evs st1 = Some st'" "ring_repr (producer st') (h @ h1 @ h') p" by auto
  with d(1) show ?case by (intro exI [of _ st'] exI [of _ "h1 @ h'"]) simp
qed

lemma dispatch_all_states: "dispatch_all (map StateChanged ss) st = Some (fold state_changed ss st)"
  by (induction ss arbitrary: st) (simp_all add: dispatch_def)

text \<open>
  C38: The ring is closed exactly when the audio has stopped for good. The thread never panics, and it
  has closed the ring if and only if a step of the set-up failed, or the main loop returned, or the
  stream reported an error, or the stream was disconnected after it had been streaming and before a
  shutdown was asked for. A disconnection before the sink was up, or after the owner asked to quit,
  leaves the ring open.
\<close>

theorem pw_thread_closes:
  assumes "ring_repr r h p" and "\<not> closed r"
  shows "\<exists>st ended. run_pw_thread w r = Some (st, ended) \<and>
    (closed (producer st) \<longleftrightarrow>
       pw_init (init_error w) \<noteq> None \<or> listener_error w \<noteq> None \<or> connect_error w \<noteq> None \<or>
       (let evs = map StateChanged (connect_events w) @ loop_events w
        in LoopExit \<in> set evs \<or> (\<exists>e. StateChanged (StreamError e) \<in> set evs) \<or>
          (\<exists>a b. evs = a @ StateChanged Unconnected # b \<and> StateChanged Streaming \<in> set a \<and> Quit \<notin> set a)))"
proof (cases "pw_init (init_error w) = None \<and> listener_error w = None \<and> connect_error w = None")
  case True
  let ?evs = "map StateChanged (connect_events w) @ loop_events w"
  have "ring_repr (producer (pw_start r)) h p" using assms(1) by (simp add: pw_start_def)
  from dispatch_all_total [OF this, of ?evs] obtain st where d: "dispatch_all ?evs (pw_start r) = Some st" by blast
  then have "run_pw_thread w r = Some (st, LoopExit \<in> set (loop_events w))"
    using True by (simp add: run_pw_thread_def dispatch_all_append dispatch_all_states)
  moreover have "closed (producer st) \<longleftrightarrow> list_ex fatal ?evs \<or> disconnected_unasked False False ?evs"
    using dispatch_all_closed [OF d] assms(2) by (simp add: pw_start_def)
  moreover have "list_ex fatal ?evs \<longleftrightarrow> LoopExit \<in> set ?evs \<or> (\<exists>e. StateChanged (StreamError e) \<in> set ?evs)"
    unfolding fatal_def list_ex_iff by blast
  moreover have "disconnected_unasked False False ?evs \<longleftrightarrow>
      (\<exists>a b. ?evs = a @ StateChanged Unconnected # b \<and> StateChanged Streaming \<in> set a \<and> Quit \<notin> set a)"
    unfolding disconnected_unasked_def by simp
  ultimately show ?thesis using True unfolding Let_def by (simp only: disj_assoc) blast
next
  case False
  have "\<exists>st. run_pw_thread w r = Some (st, True) \<and> closed (producer st)"
    using False by (cases "pw_init (init_error w)"; cases "listener_error w"; cases "connect_error w")
      (auto simp: run_pw_thread_def Let_def)
  then show ?thesis using False by blast
qed

text \<open>A stream lost while it plays closes the ring; one that the owner quits does not.\<close>

definition demo_stream :: "pw_event list \<Rightarrow> pw_world" where
  "demo_stream evs = \<lparr>init_error = (\<lambda>_. None), listener_error = None, connect_events = [],
     connect_error = None, loop_events = StateChanged Streaming # evs\<rparr>"

theorem pw_thread_closes_witness:
  "(\<exists>st ended. run_pw_thread (demo_stream [StateChanged Unconnected]) (the (channel 4 2)) = Some (st, ended) \<and>
     closed (producer st)) \<and>
   (\<exists>st ended. run_pw_thread (demo_stream [Quit, StateChanged Unconnected]) (the (channel 4 2)) = Some (st, ended) \<and>
     \<not> closed (producer st))"
proof -
  obtain r where r: "channel 4 2 = Some r" and repr: "ring_repr r [] 0" and "chn r = 2" "capn r = 4"
    by (rule small_ring)
  have opn: "\<not> closed r" using r by (auto simp: channel_def Let_def split: if_splits)
  have demo: "pw_init (init_error (demo_stream evs)) = None" "listener_error (demo_stream evs) = None"
      "connect_error (demo_stream evs) = None" "connect_events (demo_stream evs) = []"
      "loop_events (demo_stream evs) = StateChanged Streaming # evs" for evs
    by (simp_all add: demo_stream_def pw_init_def)
  have "(\<exists>a b. [StateChanged Streaming, StateChanged Unconnected] = a @ StateChanged Unconnected # b \<and>
      StateChanged Streaming \<in> set a \<and> Quit \<notin> set a)"
    by (intro exI [of _ "[StateChanged Streaming]"] exI [of _ "[]"]) simp
  moreover have "\<not> (\<exists>a b. [StateChanged Streaming, Quit, StateChanged Unconnected] = a @ StateChanged Unconnected # b \<and>
      StateChanged Streaming \<in> set a \<and> Quit \<notin> set a)"
    by (auto simp: Cons_eq_append_conv)
  ultimately show ?thesis
    using pw_thread_closes [OF repr opn, of "demo_stream [StateChanged Unconnected]"]
      pw_thread_closes [OF repr opn, of "demo_stream [Quit, StateChanged Unconnected]"]
    unfolding r option.sel demo Let_def by auto
qed

end
