(* ===== verification/Virtual_Sink_Windows.thy ===== *)
theory Virtual_Sink_Windows
  imports Complex_Main Sound_Source Audio_Format "HOL-Library.Sublist"
begin

text \<open>
  \<open>src/virtual_sink_windows.rs\<close>: on Windows the ring is fed from a WASAPI loopback capture. The COM
  interfaces are a parameter: what each call returns is the input of the functions below, and the
  calls that change the outside are the values of \<open>com_op\<close>. The float conversion is the
  \<open>f32\<close> arithmetic of the language, written out. \<open>to_lowercase\<close> of the standard library, a table
  of Unicode, is the argument \<open>to_lower\<close>.
\<close>

section \<open>Formats and samples\<close>

definition WAVE_FORMAT_IEEE_FLOAT :: u16 where
  "WAVE_FORMAT_IEEE_FLOAT = 3"

definition BUFFER_HNS :: "64 word" where
  "BUFFER_HNS = 1000000"

definition POLL :: nanos where
  "POLL = millis 3"

definition WIN_RING_CAPACITY_FRAMES :: usize where
  "WIN_RING_CAPACITY_FRAMES = 8192"

record waveformatex =
  wFormatTag :: u16
  nChannels :: u16
  nSamplesPerSec :: u32
  nAvgBytesPerSec :: u32
  nBlockAlign :: u16
  wBitsPerSample :: u16
  cbSize :: u16

definition float_format :: waveformatex where
  "float_format =
     (let block_align = ucast CHANNELS * 4 in
      \<lparr>wFormatTag = WAVE_FORMAT_IEEE_FLOAT, nChannels = ucast CHANNELS, nSamplesPerSec = SAMPLE_RATE,
       nAvgBytesPerSec = SAMPLE_RATE * ucast (block_align :: u16), nBlockAlign = block_align,
       wBitsPerSample = 32, cbSize = 0\<rparr>)"

text \<open>A value of \<open>f32\<close>; \<open>Finite s m e\<close> is \<open>m * 2 ^ e\<close>, negated when \<open>s\<close> is set.\<close>

datatype f32 = Finite bool nat int | Infinite bool | Not_a_number

definition f32_from_bits :: "u32 \<Rightarrow> f32" where
  "f32_from_bits w =
     (let s = bit w 31; e = unat (take_bit 8 (drop_bit 23 w)); m = unat (take_bit 23 w)
      in if e = 255 then (if m = 0 then Infinite s else Not_a_number)
         else if e = 0 then Finite s m (- 149)
         else Finite s (m + 2 ^ 23) (int e - 150))"

text \<open>
  \<open>x * 32768.0\<close>: the factor is a power of two, so the product is exact unless it is too large.
\<close>

definition times_32768 :: "f32 \<Rightarrow> f32" where
  "times_32768 x =
     (case x of
        Finite s m e \<Rightarrow>
          if 0 \<le> e + 15 \<and> 2 ^ 128 \<le> m * 2 ^ nat (e + 15) then Infinite s else Finite s m (e + 15)
      | _ \<Rightarrow> x)"

text \<open>\<open>f32::round\<close>: to the nearest integer, halves away from zero.\<close>

definition f32_round :: "f32 \<Rightarrow> f32" where
  "f32_round x =
     (case x of
        Finite s m e \<Rightarrow>
          if 0 \<le> e then x
          else Finite s ((2 * m + 2 ^ nat (- e)) div 2 ^ Suc (nat (- e))) 0
      | _ \<Rightarrow> x)"

text \<open>\<open>as i16\<close>: towards zero, saturating, \<open>NaN\<close> to 0.\<close>

definition saturate_i16 :: "int \<Rightarrow> int" where
  "saturate_i16 i = max (- 32768) (min 32767 i)"

definition f32_to_int :: "f32 \<Rightarrow> int" where
  "f32_to_int x =
     (case x of
        Finite s m e \<Rightarrow>
          let k = (if 0 \<le> e then m * 2 ^ nat e else m div 2 ^ nat (- e))
          in saturate_i16 (if s then - int k else int k)
      | Infinite s \<Rightarrow> if s then - 32768 else 32767
      | Not_a_number \<Rightarrow> 0)"

definition f32_as_i16 :: "f32 \<Rightarrow> i16" where
  "f32_as_i16 x = word_of_int (f32_to_int x)"

definition sample_of :: "u32 \<Rightarrow> i16" where
  "sample_of w = f32_as_i16 (f32_round (times_32768 (f32_from_bits w)))"

text \<open>\<open>from_le_bytes\<close> of a chunk of four.\<close>

definition f32_bits :: "bytes \<Rightarrow> u32" where
  "f32_bits b = from_be32 (b ! 3) (b ! 2) (b ! 1) (b ! 0)"

definition f32le_to_s16le :: "bytes \<Rightarrow> bytes" where
  "f32le_to_s16le src = concat (map (\<lambda>b. to_le16 (sample_of (f32_bits b))) (chunks_exact 4 src))"

section \<open>Pumping the loopback\<close>

type_synonym com_error = string

text \<open>
  A packet as \<open>GetBuffer\<close> hands it over: the bytes readable at \<open>data\<close> (\<open>None\<close>: a null pointer),
  the frame count and the flags, and whether \<open>ReleaseBuffer\<close> fails. The packet sequence of one
  wake-up ends with a size of 0, or with an error of \<open>GetNextPacketSize\<close> or \<open>GetBuffer\<close>.
\<close>

record packet =
  pkt_data :: "bytes option"
  pkt_frames :: u32
  pkt_flags :: u32
  pkt_release :: "com_error option"

datatype packets_end = NoMore | SizeError com_error | BufferError com_error

record wakeup =
  quit_seen :: bool
  padding :: "com_error + u32"
  render_buffer :: "com_error option"
  render_release :: "com_error option"
  packets :: "packet list"
  packets_end :: packets_end

datatype pump_error =
    Padding com_error | KeepAliveBuffer com_error | KeepAliveRelease com_error
  | PacketSize com_error | LoopbackBuffer com_error | LoopbackRelease com_error

text \<open>\<open>render_frames.saturating_sub(padding)\<close>\<close>

definition free_frames :: "u32 \<Rightarrow> u32 \<Rightarrow> u32" where
  "free_frames render_frames pad = (if pad \<le> render_frames then render_frames - pad else 0)"

text \<open>
  The silence rendered to keep the endpoint running: the frames asked for, if any, and the error.
\<close>

definition keep_alive :: "u32 \<Rightarrow> wakeup \<Rightarrow> u32 option \<times> pump_error option" where
  "keep_alive render_frames i =
     (case padding i of
        Inl e \<Rightarrow> (None, Some (Padding e))
      | Inr pad \<Rightarrow>
          let free = free_frames render_frames pad
          in if free > 0 then
               (case render_buffer i of
                  Some e \<Rightarrow> (None, Some (KeepAliveBuffer e))
                | None \<Rightarrow> (Some free, map_option KeepAliveRelease (render_release i)))
             else (None, None))"

definition frame_bytes_f32 :: nat where
  "frame_bytes_f32 = unat CHANNELS * 4"

text \<open>
  The bytes written for a packet; \<open>None\<close> is a read past the memory behind \<open>data\<close>, which
  \<open>from_raw_parts\<close> leaves undefined.
\<close>

definition packet_bytes :: "u32 \<Rightarrow> packet \<Rightarrow> bytes option" where
  "packet_bytes silent_flag p =
     (let len = unat (pkt_frames p) * frame_bytes_f32
      in if pkt_flags p AND silent_flag \<noteq> 0 then Some (replicate (len div 2) 0)
         else case pkt_data p of
           None \<Rightarrow> Some (replicate (len div 2) 0)
         | Some bs \<Rightarrow> map_option f32le_to_s16le (get_range bs 0 len))"

fun pump_packets :: "u32 \<Rightarrow> packet list \<Rightarrow> packets_end \<Rightarrow> audio_ring \<Rightarrow> (audio_ring \<times> pump_error option) option" where
  "pump_packets silent_flag [] pe r =
     Some (r, case pe of NoMore \<Rightarrow> None | SizeError e \<Rightarrow> Some (PacketSize e)
                       | BufferError e \<Rightarrow> Some (LoopbackBuffer e))"
| "pump_packets silent_flag (p # ps) pe r =
     (case packet_bytes silent_flag p of
        None \<Rightarrow> None
      | Some s16 \<Rightarrow>
          let r' = write_s16le r s16
          in case pkt_release p of
               Some e \<Rightarrow> Some (r', Some (LoopbackRelease e))
             | None \<Rightarrow> pump_packets silent_flag ps pe r')"

text \<open>
  The loop over its wake-ups: the ring, how it ended (\<open>None\<close>: the script ran out, \<open>Some None\<close>:
  the quit flag, with both clients stopped). The outer \<open>None\<close> is undefined behaviour.
\<close>

fun pump_capture ::
  "u32 \<Rightarrow> u32 \<Rightarrow> wakeup list \<Rightarrow> audio_ring \<Rightarrow> (audio_ring \<times> pump_error option option) option" where
  "pump_capture silent_flag render_frames [] r = Some (r, None)"
| "pump_capture silent_flag render_frames (i # is) r =
     (if quit_seen i then Some (r, Some None)
      else case keep_alive render_frames i of
        (_, Some e) \<Rightarrow> Some (r, Some (Some e))
      | (_, None) \<Rightarrow>
          (case pump_packets silent_flag (packets i) (packets_end i) r of
             None \<Rightarrow> None
           | Some (r', Some e) \<Rightarrow> Some (r', Some (Some e))
           | Some (r', None) \<Rightarrow> pump_capture silent_flag render_frames is r'))"

section \<open>The apartment and the capture thread\<close>

text \<open>
  A thread's apartment as the number of its \<open>CoInitializeEx\<close> calls not yet balanced.
  \<open>mta_enter\<close> is \<open>Mta::enter\<close>, \<open>mta_drop\<close> the \<open>Drop\<close> of the guard.
\<close>

definition mta_enter :: "com_error option \<Rightarrow> nat \<Rightarrow> com_error option \<times> nat" where
  "mta_enter co_init n = (case co_init of Some e \<Rightarrow> (Some e, n) | None \<Rightarrow> (None, Suc n))"

definition mta_drop :: "nat \<Rightarrow> nat" where
  "mta_drop n = n - 1"

text \<open>
  \<open>run_wasapi_thread\<close>: the ring, whether the thread has ended, and the thread's apartment count.
  \<open>resolve\<close> is the error of resolving an agile reference, if it fails.
\<close>

datatype loopback_ref = CaptureClientRef | CaptureRef | RenderClientRef | RenderRef

definition agile_resolve :: "(loopback_ref \<Rightarrow> com_error option) \<Rightarrow> (loopback_ref \<times> com_error) option" where
  "agile_resolve resolve = first_error resolve [CaptureClientRef, CaptureRef, RenderClientRef, RenderRef]"

definition agile_new :: "(loopback_ref \<Rightarrow> com_error option) \<Rightarrow> (loopback_ref \<times> com_error) option" where
  "agile_new agile = first_error agile [CaptureClientRef, CaptureRef, RenderClientRef, RenderRef]"

definition run_wasapi_thread ::
  "u32 \<Rightarrow> com_error option \<Rightarrow> (loopback_ref \<Rightarrow> com_error option) \<Rightarrow> u32 \<Rightarrow> wakeup list \<Rightarrow> audio_ring \<Rightarrow>
     (audio_ring \<times> bool \<times> nat) option" where
  "run_wasapi_thread silent_flag co_init resolve render_frames script r =
     (case mta_enter co_init 0 of
        (Some e, n) \<Rightarrow> Some (close r, True, n)
      | (None, n) \<Rightarrow>
          (case agile_resolve resolve of
             Some e \<Rightarrow> Some (close r, True, mta_drop n)
           | None \<Rightarrow>
               (case pump_capture silent_flag render_frames script r of
                  None \<Rightarrow> None
                | Some (r', None) \<Rightarrow> Some (r', False, n)
                | Some (r', Some _) \<Rightarrow> Some (close r', True, mta_drop n))))"

section \<open>Choosing the endpoint\<close>

text \<open>A device is a handle with its friendly name; \<open>'d\<close> is the type of handles.\<close>

datatype endpoint_error =
    NoEnumerator com_error | NoDefault com_error | EnumFailed com_error | ItemFailed com_error
  | NoMatch string "string list" | SeveralMatch string "string list"

text \<open>
  \<open>default_render_endpoint\<close> and \<open>render_endpoints\<close> over the results of the COM calls; each item
  of the collection is fetched and named in turn, and the first failure ends the enumeration.
\<close>

fun named_items :: "(com_error + 'd \<times> string) list \<Rightarrow> ('d \<times> string) list \<Rightarrow> endpoint_error + ('d \<times> string) list" where
  "named_items [] out = Inr out"
| "named_items (Inl e # xs) out = Inl (ItemFailed e)"
| "named_items (Inr d # xs) out = named_items xs (out @ [d])"

record 'd audio_system =
  enumerator :: "com_error option"
  default_endpoint :: "com_error + 'd"
  default_name :: "com_error + string"
  endpoints :: "com_error + (com_error + 'd \<times> string) list"

definition default_render_endpoint :: "'d audio_system \<Rightarrow> endpoint_error + 'd \<times> string" where
  "default_render_endpoint sys =
     (case enumerator sys of
        Some e \<Rightarrow> Inl (NoEnumerator e)
      | None \<Rightarrow>
          (case default_endpoint sys of
             Inl e \<Rightarrow> Inl (NoDefault e)
           | Inr dev \<Rightarrow>
               (case default_name sys of Inl e \<Rightarrow> Inl (ItemFailed e) | Inr name \<Rightarrow> Inr (dev, name))))"

definition render_endpoints :: "'d audio_system \<Rightarrow> endpoint_error + ('d \<times> string) list" where
  "render_endpoints sys =
     (case enumerator sys of
        Some e \<Rightarrow> Inl (NoEnumerator e)
      | None \<Rightarrow>
          (case endpoints sys of Inl e \<Rightarrow> Inl (EnumFailed e) | Inr items \<Rightarrow> named_items items []))"

definition find_render_endpoint ::
  "(string \<Rightarrow> string) \<Rightarrow> 'd audio_system \<Rightarrow> string \<Rightarrow> endpoint_error + 'd \<times> string" where
  "find_render_endpoint to_lower sys wanted =
     (case render_endpoints sys of
        Inl e \<Rightarrow> Inl e
      | Inr all \<Rightarrow>
          let needle = to_lower wanted;
              hits = filter (\<lambda>(_, n). sublist needle (to_lower n)) all
          in case length hits of
               Suc 0 \<Rightarrow> Inr (last hits)
             | 0 \<Rightarrow> Inl (NoMatch wanted (map snd all))
             | _ \<Rightarrow> Inl (SeveralMatch wanted (map snd hits)))"

text \<open>\<open>list_capture_devices\<close>: the result and the apartment count of the thread afterwards.\<close>

definition list_capture_devices ::
  "com_error option \<Rightarrow> 'd audio_system \<Rightarrow> nat \<Rightarrow> ((com_error + endpoint_error) + string list) \<times> nat" where
  "list_capture_devices co_init sys n =
     (case mta_enter co_init n of
        (Some e, n') \<Rightarrow> (Inl (Inl e), n')
      | (None, n') \<Rightarrow>
          (case render_endpoints sys of
             Inl e \<Rightarrow> (Inl (Inr e), mta_drop n')
           | Inr v \<Rightarrow> (Inr (map snd v), mta_drop n')))"

section \<open>Starting the capture\<close>

datatype stream_flag = Loopback_Flag | AutoConvertPcm | SrcDefaultQuality

text \<open>The calls of \<open>start_capture\<close> on the chosen device, in the order they are made.\<close>

datatype com_op =
    ActivateCapture | InitializeCapture "stream_flag list" "64 word" waveformatex | GetCaptureService
  | ActivateRender | InitializeRender "stream_flag list" "64 word" waveformatex | GetRenderService
  | GetBufferSize | StartRender | StartCapture

definition start_ops :: "com_op list" where
  "start_ops =
     (let fmt = float_format in
      [ActivateCapture,
       InitializeCapture [Loopback_Flag, AutoConvertPcm, SrcDefaultQuality] BUFFER_HNS fmt,
       GetCaptureService, ActivateRender,
       InitializeRender [AutoConvertPcm, SrcDefaultQuality] BUFFER_HNS fmt,
       GetRenderService, GetBufferSize, StartRender, StartCapture])"

text \<open>Calls in sequence up to the first that fails: what was called and the error.\<close>

fun com_calls :: "(com_op \<Rightarrow> com_error option) \<Rightarrow> com_op list \<Rightarrow> com_op list \<times> (com_op \<times> com_error) option" where
  "com_calls com [] = ([], None)"
| "com_calls com (c # cs) =
     (case com c of
        Some e \<Rightarrow> ([c], Some (c, e))
      | None \<Rightarrow> (let (done_calls, err) = com_calls com cs in (c # done_calls, err)))"

datatype start_error = NoEndpoint endpoint_error | CallFailed com_op com_error

definition start_capture ::
  "(string \<Rightarrow> string) \<Rightarrow> 'd audio_system \<Rightarrow> (com_op \<Rightarrow> com_error option) \<Rightarrow> string option \<Rightarrow>
     (start_error + string) \<times> com_op list" where
  "start_capture to_lower sys com wanted =
     (case (case wanted of Some w \<Rightarrow> find_render_endpoint to_lower sys w | None \<Rightarrow> default_render_endpoint sys) of
        Inl e \<Rightarrow> (Inl (NoEndpoint e), [])
      | Inr (device, name) \<Rightarrow>
          (case com_calls com start_ops of
             (cs, Some (c, e)) \<Rightarrow> (Inl (CallFailed c e), cs)
           | (cs, None) \<Rightarrow> (Inr name, cs)))"

text \<open>
  The sink: \<open>agile\<close> is the error of building the agile references. Every error path after
  \<open>Mta::enter\<close> drops the guard.
\<close>

record win_sink =
  win_sink_name :: string
  win_consumer :: "audio_ring option"
  win_quit :: bool
  win_thread :: bool

datatype win_error = NoApartment com_error | NoCapture start_error | NotAgile com_error | WinRingAssertion

definition win_sink_new ::
  "(string \<Rightarrow> string) \<Rightarrow> 'd audio_system \<Rightarrow> (com_op \<Rightarrow> com_error option) \<Rightarrow> com_error option \<Rightarrow>
     (loopback_ref \<Rightarrow> com_error option) \<Rightarrow> string option \<Rightarrow> nat \<Rightarrow> (win_error + win_sink) \<times> nat" where
  "win_sink_new to_lower sys com co_init agile capture_device n =
     (case mta_enter co_init n of
        (Some e, n') \<Rightarrow> (Inl (NoApartment e), n')
      | (None, n') \<Rightarrow>
          (case fst (start_capture to_lower sys com capture_device) of
             Inl e \<Rightarrow> (Inl (NoCapture e), mta_drop n')
           | Inr name \<Rightarrow>
               (case agile_new agile of
                  Some (_, e) \<Rightarrow> (Inl (NotAgile e), mta_drop n')
                | None \<Rightarrow>
                    (case channel WIN_RING_CAPACITY_FRAMES (ucast CHANNELS) of
                       None \<Rightarrow> (Inl WinRingAssertion, mta_drop n')
                     | Some r \<Rightarrow>
                         (Inr \<lparr>win_sink_name = name, win_consumer = Some r, win_quit = False,
                            win_thread = True\<rparr>, n')))))"

definition win_take_consumer :: "win_sink \<Rightarrow> audio_ring option \<times> win_sink" where
  "win_take_consumer s = (win_consumer s, s\<lparr>win_consumer := None\<rparr>)"

text \<open>\<open>drop\<close>, and after it the drop of the field \<open>_mta\<close>.\<close>

definition win_drop_sink :: "win_sink \<Rightarrow> nat \<Rightarrow> win_sink \<times> nat" where
  "win_drop_sink s n = (s\<lparr>win_quit := True, win_thread := False\<rparr>, mta_drop n)"

lemma win_sink_apartment:
  assumes "win_sink_new to_lower sys com co_init agile dev n = (res, n')"
  shows "case res of Inl _ \<Rightarrow> n' = n | Inr s \<Rightarrow> snd (win_drop_sink s n') = n"
  using assms
  by (auto simp: win_sink_new_def mta_enter_def mta_drop_def win_drop_sink_def
      split: option.splits sum.splits prod.splits)

section \<open>The conversion is rounding to the nearest sample\<close>

definition f32_value :: "bool \<Rightarrow> nat \<Rightarrow> int \<Rightarrow> real" where
  "f32_value s m e = (if s then - 1 else 1) * real m * 2 powi e"

definition round_away :: "real \<Rightarrow> int" where
  "round_away x = (if x < 0 then - \<lfloor>1 / 2 - x\<rfloor> else \<lfloor>x + 1 / 2\<rfloor>)"

lemma round_half_floor: "int ((2 * m + 2 ^ k) div 2 ^ Suc k) = \<lfloor>real m / 2 ^ k + 1 / 2\<rfloor>"
proof -
  have "real m / 2 ^ k + 1 / 2 = real (2 * m + 2 ^ k) / real (2 ^ Suc k)"
    by (simp add: field_simps)
  then show ?thesis by (simp only: floor_divide_of_nat_eq)
qed

lemma round_away_signed:
  assumes "0 \<le> x"
  shows "round_away (if s then - x else x) = (if s then - \<lfloor>x + 1 / 2\<rfloor> else \<lfloor>x + 1 / 2\<rfloor>)"
proof (cases "x = 0")
  case False
  with assms show ?thesis by (simp add: round_away_def add.commute)
qed (simp add: round_away_def)

lemma round_away_int [simp]: "round_away (of_int i) = i"
  by (simp add: round_away_def)

lemma f32_to_int_rounded:
  "f32_to_int (f32_round (Finite s m e)) = saturate_i16 (round_away (f32_value s m e))"
proof (cases "0 \<le> e")
  case True
  then have "f32_value s m e = of_int (if s then - int (m * 2 ^ nat e) else int (m * 2 ^ nat e))"
    by (simp add: f32_value_def power_int_def)
  then show ?thesis using True by (simp add: f32_round_def f32_to_int_def del: of_int_minus of_int_of_nat_eq)
next
  case False
  then have "f32_value s m e = (if s then - (real m / 2 ^ nat (- e)) else real m / 2 ^ nat (- e))"
    by (simp add: f32_value_def power_int_def field_simps)
  then show ?thesis using False round_half_floor [of m "nat (- e)"]
    by (simp add: round_away_signed f32_round_def f32_to_int_def)
qed

lemma f32_value_scaled: "f32_value s m (e + 15) = 32768 * f32_value s m e"
  by (simp add: f32_value_def power_int_add)

lemma saturate_large: "32767 \<le> i \<Longrightarrow> saturate_i16 i = 32767" "i \<le> - 32768 \<Longrightarrow> saturate_i16 i = - 32768"
  by (simp_all add: saturate_i16_def)

lemma f32_to_int_scaled:
  "f32_to_int (f32_round (times_32768 (Finite s m e))) = saturate_i16 (round_away (32768 * f32_value s m e))"
proof (cases "0 \<le> e + 15 \<and> 2 ^ 128 \<le> m * 2 ^ nat (e + 15)")
  case True
  then have "32768 * f32_value s m e =
      of_int (if s then - int (m * 2 ^ nat (e + 15)) else int (m * 2 ^ nat (e + 15)))"
    unfolding f32_value_scaled [symmetric] by (simp add: f32_value_def power_int_def)
  moreover have "(32768 :: int) \<le> int (m * 2 ^ nat (e + 15))"
  proof -
    have "(32768 :: nat) \<le> 2 ^ 128" by simp
    also have "\<dots> \<le> m * 2 ^ nat (e + 15)" using True by simp
    finally have "int 32768 \<le> int (m * 2 ^ nat (e + 15))" by (simp only: of_nat_le_iff)
    then show ?thesis by (simp only: of_nat_numeral)
  qed
  ultimately have "saturate_i16 (round_away (32768 * f32_value s m e)) = (if s then - 32768 else 32767)"
    by (simp add: saturate_large del: of_int_minus of_int_of_nat_eq)
  then show ?thesis using True by (simp add: times_32768_def f32_round_def f32_to_int_def)
next
  case False
  then have "times_32768 (Finite s m e) = Finite s m (e + 15)" by (simp add: times_32768_def)
  then show ?thesis by (simp add: f32_to_int_rounded f32_value_scaled)
qed

lemma sint_i16: "- 32768 \<le> i \<Longrightarrow> i \<le> 32767 \<Longrightarrow> sint (word_of_int i :: i16) = i"
  by (simp add: signed_of_int signed_take_bit_int_eq_self)

lemma f32_to_int_range: "- 32768 \<le> f32_to_int x" "f32_to_int x \<le> 32767"
  by (auto simp: f32_to_int_def saturate_i16_def Let_def split: f32.split)

text \<open>
  C40: A captured sample is the float times 32768, rounded to the nearest integer with halves away
  from zero and clamped to the range of \<open>i16\<close>, for every bit pattern: infinities saturate and
  \<open>NaN\<close> is silence. The three float operations of the code lose nothing on the way.
\<close>

theorem sample_is_nearest:
  "sint (sample_of w) =
    (case f32_from_bits w of
       Finite s m e \<Rightarrow> max (- 32768) (min 32767 (round_away (32768 * f32_value s m e)))
     | Infinite s \<Rightarrow> if s then - 32768 else 32767
     | Not_a_number \<Rightarrow> 0)"
proof -
  have "sint (sample_of w) = f32_to_int (f32_round (times_32768 (f32_from_bits w)))"
    by (simp add: sample_of_def f32_as_i16_def sint_i16 f32_to_int_range)
  moreover have "f32_to_int (f32_round (times_32768 x)) = (if x = Not_a_number then 0 else if x = Infinite True then - 32768 else 32767)"
    if "\<forall>s m e. x \<noteq> Finite s m e" for x
  proof (cases x)
    case (Infinite s)
    then show ?thesis by (cases s) (simp_all add: times_32768_def f32_round_def f32_to_int_def)
  qed (use that in \<open>simp_all add: times_32768_def f32_round_def f32_to_int_def\<close>)
  ultimately show ?thesis
    by (cases "f32_from_bits w") (simp_all add: f32_to_int_scaled saturate_i16_def)
qed

section \<open>The ring holds what was captured\<close>

text \<open>What \<open>GetBuffer\<close> promises: \<open>data\<close> spans \<open>frames * nBlockAlign\<close> bytes of the format asked for.\<close>

definition packet_documented :: "packet \<Rightarrow> bool" where
  "packet_documented p \<longleftrightarrow>
     (\<forall>bs. pkt_data p = Some bs \<longrightarrow> unat (pkt_frames p) * unat (nBlockAlign float_format) \<le> length bs)"

definition packet_samples :: "u32 \<Rightarrow> packet \<Rightarrow> i16 list" where
  "packet_samples silent_flag p =
     (if pkt_flags p AND silent_flag \<noteq> 0 \<or> pkt_data p = None then replicate (2 * unat (pkt_frames p)) 0
      else map (sample_of \<circ> f32_bits)
        (chunks_exact 4 (take (unat (pkt_frames p) * 8) (the (pkt_data p)))))"

lemma frame_bytes_f32_eq: "frame_bytes_f32 = 8" "unat (nBlockAlign float_format) = 8"
  by (simp_all add: frame_bytes_f32_def float_format_def CHANNELS_def Let_def)

lemma s16le_samples_concat: "s16le_samples (concat (map to_le16 ws)) = ws"
  by (induction ws) (simp_all add: to_le16_def from_le16_bytes)

lemma s16le_samples_f32le: "s16le_samples (f32le_to_s16le bs) = map (sample_of \<circ> f32_bits) (chunks_exact 4 bs)"
  using s16le_samples_concat [of "map (sample_of \<circ> f32_bits) (chunks_exact 4 bs)"]
  by (simp add: f32le_to_s16le_def comp_def)

lemma length_f32le: "length (f32le_to_s16le bs) = 2 * (length bs div 4)"
proof -
  have "length (concat (map to_le16 ws)) = 2 * length ws" for ws
    by (induction ws) simp_all
  from this [of "map (sample_of \<circ> f32_bits) (chunks_exact 4 bs)"] show ?thesis
    by (simp add: f32le_to_s16le_def length_chunks_exact comp_def)
qed

lemma s16le_samples_zeros: "s16le_samples (replicate (2 * n) 0) = replicate n 0"
proof (induction n)
  case (Suc n)
  then show ?case by (simp add: from_le16_def from_be16_def)
qed simp

lemma packet_bytes_ok:
  assumes "packet_documented p"
  obtains bs where "packet_bytes flag p = Some bs" and "s16le_samples bs = packet_samples flag p"
    and "length bs = 4 * unat (pkt_frames p)"
proof (cases "pkt_flags p AND flag \<noteq> 0 \<or> pkt_data p = None")
  case True
  let ?z = "replicate (4 * unat (pkt_frames p)) 0 :: bytes"
  have "packet_bytes flag p = Some ?z"
    using True by (auto simp: packet_bytes_def frame_bytes_f32_eq Let_def mult.commute)
  moreover have "s16le_samples ?z = packet_samples flag p"
    using True s16le_samples_zeros [of "2 * unat (pkt_frames p)"] by (simp add: packet_samples_def)
  ultimately show ?thesis using that [of ?z] by simp
next
  case False
  then obtain d where d: "pkt_data p = Some d" by auto
  let ?n = "unat (pkt_frames p) * 8"
  have len: "?n \<le> length d" using assms d by (simp add: packet_documented_def frame_bytes_f32_eq)
  have "packet_bytes flag p = Some (f32le_to_s16le (take ?n d))"
    using False d len by (simp add: packet_bytes_def frame_bytes_f32_eq get_range_def Let_def)
  moreover have "s16le_samples (f32le_to_s16le (take ?n d)) = packet_samples flag p"
    using False d by (simp add: packet_samples_def s16le_samples_f32le)
  ultimately show ?thesis using that [of "f32le_to_s16le (take ?n d)"] len
    by (simp add: length_f32le min_def)
qed

text \<open>
  The packets written before the thread ends: those of every wake-up, up to a quit or a failing
  call; a packet whose release fails was written.
\<close>

fun written_packets :: "packet list \<Rightarrow> packet list" where
  "written_packets [] = []"
| "written_packets (p # ps) = p # (if pkt_release p = None then written_packets ps else [])"

fun heard :: "u32 \<Rightarrow> wakeup list \<Rightarrow> packet list" where
  "heard render_frames [] = []"
| "heard render_frames (i # is) =
     (if quit_seen i \<or> snd (keep_alive render_frames i) \<noteq> None then []
      else written_packets (packets i) @
        (if packets_end i = NoMore \<and> list_all (\<lambda>p. pkt_release p = None) (packets i)
         then heard render_frames is else []))"

definition kept_samples :: "u32 \<Rightarrow> nat \<Rightarrow> packet \<Rightarrow> i16 list" where
  "kept_samples flag cap_n p = drop ((unat (pkt_frames p) - cap_n) * 2) (packet_samples flag p)"

text \<open>A wake-up as the ring sees it, and the chunks it writes.\<close>

definition packet_chunks :: "u32 \<Rightarrow> wakeup \<Rightarrow> bytes list" where
  "packet_chunks flag i = map (the \<circ> packet_bytes flag) (written_packets (packets i))"

definition wasapi_wake :: "u32 \<Rightarrow> wakeup \<Rightarrow> audio_ring \<Rightarrow> audio_ring option" where
  "wasapi_wake flag i r = map_option fst (pump_packets flag (packets i) (packets_end i) r)"

definition documented :: "wakeup \<Rightarrow> bool" where
  "documented i \<longleftrightarrow> list_all packet_documented (packets i)"

lemma pump_packets_writes:
  assumes "list_all packet_documented ps"
  shows "\<exists>err. pump_packets flag ps pe r =
      Some (producer_writes (map (the \<circ> packet_bytes flag) (written_packets ps)) r, err) \<and>
    (err = None \<longleftrightarrow> pe = NoMore \<and> list_all (\<lambda>p. pkt_release p = None) ps)"
  using assms
proof (induction ps arbitrary: r)
  case Nil
  then show ?case by (cases pe) simp_all
next
  case (Cons q ps)
  from Cons(2) have "packet_documented q" by simp
  then obtain bs where "packet_bytes flag q = Some bs" by (rule packet_bytes_ok)
  with Cons show ?case by (cases "pkt_release q") auto
qed

interpretation wasapi: sound_source "wasapi_wake flag" "packet_chunks flag" documented for flag
proof
  show "wasapi_wake flag i r = Some (producer_writes (packet_chunks flag i) r)" if "documented i" for i r
    using that pump_packets_writes [of "packets i" flag "packets_end i" r]
    by (auto simp: wasapi_wake_def packet_chunks_def documented_def)
qed

lemma chunk_samples_packet:
  assumes "packet_documented q"
  shows "chunk_samples 2 c (the (packet_bytes flag q)) = kept_samples flag c q"
proof -
  obtain bs where bs: "packet_bytes flag q = Some bs" "s16le_samples bs = packet_samples flag q"
      "length bs = 4 * unat (pkt_frames q)"
    by (rule packet_bytes_ok [OF assms])
  have "length (packet_samples flag q) = 2 * unat (pkt_frames q)"
    using bs(2,3) length_s16le_samples [of bs] by simp
  then show ?thesis using bs by (simp add: chunk_samples_def kept_samples_def)
qed

lemma written_documented: "list_all packet_documented ps \<Longrightarrow> list_all packet_documented (written_packets ps)"
  by (induction ps) auto

lemma samples_of_packets:
  assumes "documented i" and "chn r = 2"
  shows "samples_of r (packet_chunks flag i) = concat (map (kept_samples flag (capn r)) (written_packets (packets i)))"
proof -
  have "concat (map (chunk_samples 2 c) (map (the \<circ> packet_bytes flag) qs)) = concat (map (kept_samples flag c) qs)"
    if "list_all packet_documented qs" for c qs
    using that by (induction qs) (simp_all add: chunk_samples_packet)
  then show ?thesis
    using assms written_documented by (simp add: samples_of_def packet_chunks_def documented_def)
qed

lemma pump_packets_repr:
  assumes "ring_repr r h p" and "chn r = 2" and "list_all packet_documented ps"
  shows "\<exists>r' err. pump_packets flag ps pe r = Some (r', err) \<and>
    ring_repr r' (h @ concat (map (kept_samples flag (capn r)) (written_packets ps))) p \<and>
    chn r' = 2 \<and> capn r' = capn r \<and> is_closed r' = is_closed r \<and>
    (err = None \<longleftrightarrow> pe = NoMore \<and> list_all (\<lambda>p. pkt_release p = None) ps)"
proof -
  let ?i = "\<lparr>quit_seen = False, padding = Inr 0, render_buffer = None, render_release = None, packets = ps,
      packets_end = pe\<rparr>"
  let ?r = "producer_writes (packet_chunks flag ?i) r"
  obtain err where "pump_packets flag ps pe r = Some (?r, err)"
      "err = None \<longleftrightarrow> pe = NoMore \<and> list_all (\<lambda>p. pkt_release p = None) ps"
    using pump_packets_writes [OF assms(3), of flag pe r] by (auto simp: packet_chunks_def)
  moreover have "ring_repr ?r (h @ concat (map (kept_samples flag (capn r)) (written_packets ps))) p"
    using producer_writes_repr [OF assms(1), of "packet_chunks flag ?i"] samples_of_packets [of ?i r flag] assms(2,3)
    by (simp add: documented_def)
  ultimately show ?thesis using assms(2) by (simp add: is_closed_def)
qed

lemma pump_capture_repr:
  assumes "ring_repr r h p" and "chn r = 2" and "list_all (list_all packet_documented \<circ> packets) script"
  shows "\<exists>r' fin. pump_capture flag rf script r = Some (r', fin) \<and>
    ring_repr r' (h @ concat (map (kept_samples flag (capn r)) (heard rf script))) p \<and>
    is_closed r' = is_closed r"
  using assms
proof (induction script arbitrary: r h)
  case (Cons i "is")
  obtain a err where ka: "keep_alive rf i = (a, err)" by (cases "keep_alive rf i") auto
  show ?case
  proof (cases "quit_seen i \<or> err \<noteq> None")
    case True
    then show ?thesis using Cons(2) ka by auto
  next
    case False
    have doc: "list_all packet_documented (packets i)" using Cons(4) by simp
    obtain r' err' where pp: "pump_packets flag (packets i) (packets_end i) r = Some (r', err')"
        "ring_repr r' (h @ concat (map (kept_samples flag (capn r)) (written_packets (packets i)))) p"
        "chn r' = 2" "capn r' = capn r" "is_closed r' = is_closed r"
        "err' = None \<longleftrightarrow> packets_end i = NoMore \<and> list_all (\<lambda>p. pkt_release p = None) (packets i)"
      using pump_packets_repr [OF Cons(2,3) doc, of flag "packets_end i"] by blast
    show ?thesis
    proof (cases err')
      case None
      then have more: "packets_end i = NoMore \<and> list_all (\<lambda>p. pkt_release p = None) (packets i)"
        using pp(6) by simp
      from Cons(4) have "list_all (list_all packet_documented \<circ> packets) is" by (simp add: comp_def)
      from Cons(1) [OF pp(2,3) this] show ?thesis
        using False ka pp(1,4,5) None more by simp
    next
      case (Some e)
      then have "\<not> (packets_end i = NoMore \<and> list_all (\<lambda>p. pkt_release p = None) (packets i))"
        using pp(6) by simp
      then show ?thesis using False ka pp(1,2,5) Some by auto
    qed
  qed
qed simp

text \<open>
  C39: With buffers as long as WASAPI documents, the capture thread never reads outside them; the
  ring's history grows by exactly the packets captured, in order (a packet without data or flagged
  silent as silence, a packet larger than the ring as its newest part); and when the thread ends,
  on any path, the ring is closed and the thread has left its apartment.
\<close>

theorem wasapi_thread_captures:
  assumes "ring_repr r h p" and "chn r = 2" and "list_all (list_all packet_documented \<circ> packets) script"
  shows "\<exists>r' ended n. run_wasapi_thread flag co_init resolve rf script r = Some (r', ended, n) \<and>
    (if co_init = None \<and> agile_resolve resolve = None
     then ring_repr r' (h @ concat (map (kept_samples flag (capn r)) (heard rf script))) p
     else ended \<and> ring_repr r' h p) \<and>
    (if ended then is_closed r' \<and> n = 0 else is_closed r' = is_closed r)"
proof -
  have cl: "ring_repr (close r0) h0 p0" if "ring_repr r0 h0 p0" for r0 h0 p0
    using that ring_ok_cong [of r0 "close r0"] by (auto simp: ring_repr_def close_def)
  have ic: "is_closed (close r0)" for r0 by (simp add: is_closed_def close_def)
  obtain r' fin where pc: "pump_capture flag rf script r = Some (r', fin)"
      "ring_repr r' (h @ concat (map (kept_samples flag (capn r)) (heard rf script))) p"
      "is_closed r' = is_closed r"
    using pump_capture_repr [OF assms] by blast
  show ?thesis
  proof (cases "co_init = None \<and> agile_resolve resolve = None")
    case True
    show ?thesis
    proof (cases fin)
      case None
      with True pc have "run_wasapi_thread flag co_init resolve rf script r = Some (r', False, 1)"
        by (simp add: run_wasapi_thread_def mta_enter_def)
      then show ?thesis using True pc(2,3) by (intro exI conjI) auto
    next
      case (Some e)
      with True pc have "run_wasapi_thread flag co_init resolve rf script r = Some (close r', True, 0)"
        by (simp add: run_wasapi_thread_def mta_enter_def mta_drop_def)
      then show ?thesis using True cl [OF pc(2)] ic by (intro exI conjI) auto
    qed
  next
    case False
    with cl [OF assms(1)] ic show ?thesis
      by (auto simp: run_wasapi_thread_def mta_enter_def mta_drop_def split: option.split)
  qed
qed

lemma agile_resolve_ok [simp]: "agile_resolve (\<lambda>_. None) = None"
  by (simp add: agile_resolve_def)

theorem wasapi_thread_captures_witness:
  "\<exists>r r'. channel 4 2 = Some r \<and>
     run_wasapi_thread 2 None (\<lambda>_. None) 10
       [\<lparr>quit_seen = False, padding = Inr 4, render_buffer = None, render_release = None,
         packets = [\<lparr>pkt_data = Some [0, 0, 0, 0x3F, 0, 0, 0x80, 0xBF], pkt_frames = 1, pkt_flags = 0, pkt_release = None\<rparr>,
                    \<lparr>pkt_data = None, pkt_frames = 1, pkt_flags = 0, pkt_release = Some ''gone''\<rparr>],
         packets_end = NoMore\<rparr>] r = Some (r', True, 0) \<and>
     ring_repr r' [16384, - 32768, 0, 0] 0 \<and> is_closed r'"
proof -
  obtain r where r: "channel 4 2 = Some r" "ring_repr r [] 0" "chn r = 2" "capn r = 4"
    by (rule small_ring)
  let ?p = "\<lparr>pkt_data = Some [0, 0, 0, 0x3F, 0, 0, 0x80, 0xBF], pkt_frames = 1, pkt_flags = 0, pkt_release = None\<rparr>"
  let ?q = "\<lparr>pkt_data = None, pkt_frames = 1, pkt_flags = 0, pkt_release = Some ''gone''\<rparr>"
  let ?i = "\<lparr>quit_seen = False, padding = Inr 4, render_buffer = None, render_release = None,
    packets = [?p, ?q], packets_end = NoMore\<rparr>"
  have ka: "keep_alive 10 ?i = (Some 6, None)" by code_simp
  have s1: "chunks_exact 4 [a, b, c, d, e, f, g, h] = [[a, b, c, d], [e, f, g, h]]" for a b c d e f g h :: u8
    using chunks_exact_append [of "[a, b, c, d]" 4 "[e, f, g, h]"] chunks_exact_append [of "[e, f, g, h]" 4 "[]"]
    by simp
  have s2: "f32_bits [0, 0, 0, 0x3F] = 0x3F000000" "f32_bits [0, 0, 0x80, 0xBF] = 0xBF800000"
    by (simp_all add: f32_bits_def from_be32_def)
  have s3: "f32_from_bits 0x3F000000 = Finite False 8388608 (- 24)"
    "f32_from_bits 0xBF800000 = Finite True 8388608 (- 23)"
    by (simp_all add: f32_from_bits_def Let_def)
  have s4: "sample_of 0x3F000000 = 16384" "sample_of 0xBF800000 = - 32768"
    by (simp_all add: sample_of_def s3 times_32768_def f32_round_def f32_as_i16_def f32_to_int_def saturate_i16_def)
  have "packet_samples 2 ?p = [16384, - 32768]"
    by (simp add: packet_samples_def s1 s2 s4)
  moreover have "packet_samples 2 ?q = [0, 0]" by (simp add: packet_samples_def numeral_2_eq_2)
  ultimately have "concat (map (kept_samples 2 4) (heard 10 [?i])) = [16384, - 32768, 0, 0]"
    by (simp add: ka kept_samples_def)
  moreover have "list_all (list_all packet_documented \<circ> packets) [?i]"
    by (simp add: packet_documented_def frame_bytes_f32_eq)
  moreover have "\<exists>r'. run_wasapi_thread 2 None (\<lambda>_. None) 10 [?i] r = Some (r', True, 0)"
    by (simp add: run_wasapi_thread_def agile_resolve_def mta_enter_def mta_drop_def ka packet_bytes_def get_range_def
        frame_bytes_f32_eq Let_def)
  ultimately show ?thesis
    using wasapi_thread_captures [OF r(2,3), of "[?i]" 2 None "\<lambda>_. None" 10] r(1,4) by auto
qed

text \<open>
  \<open>--capture-device\<close> selects a device when exactly one active endpoint's name contains the given
  text, case aside, and then that device.
\<close>

lemma filter_singleton:
  "filter P xs = [d] \<longleftrightarrow> (\<exists>as bs. xs = as @ d # bs \<and> P d \<and> (\<forall>d' \<in> set (as @ bs). \<not> P d'))"
proof -
  have "[] = filter P ys \<longleftrightarrow> (\<forall>y \<in> set ys. \<not> P y)" for ys by (auto simp: filter_empty_conv dest: sym)
  then show ?thesis unfolding filter_eq_Cons_iff by (auto 4 4)
qed

lemma endpoint_is_unique:
  assumes "render_endpoints sys = Inr all"
  shows "find_render_endpoint to_lower sys wanted = Inr d \<longleftrightarrow>
    (\<exists>as bs. all = as @ d # bs \<and> sublist (to_lower wanted) (to_lower (snd d)) \<and>
       (\<forall>d' \<in> set (as @ bs). \<not> sublist (to_lower wanted) (to_lower (snd d'))))"
proof -
  let ?hits = "filter (\<lambda>(_, n). sublist (to_lower wanted) (to_lower n)) all"
  have "find_render_endpoint to_lower sys wanted = Inr d \<longleftrightarrow> ?hits = [d]"
    using assms by (cases ?hits; cases "tl ?hits") (auto simp: find_render_endpoint_def Let_def)
  then show ?thesis by (simp only: filter_singleton) (auto simp: case_prod_beta)
qed

lemma named_items_all: "named_items items out = Inr all \<Longrightarrow> map Inr all = map Inr out @ items"
  by (induction items out rule: named_items.induct) auto

end
