(* ===== verification/Sound_Path.thy ===== *)
theory Sound_Path
  imports Capture Virtual_Sink Virtual_Sink_Windows "HOL-Library.Sublist"
begin

text \<open>
  The sound path from a sink to the receiver, for any sink that is a \<open>sound_source\<close>: what it is
  handed goes through the ring, the capture loop, the encoder and the sender, and is decoded at the
  receiver.
\<close>

text \<open>The PCM frame and the Opus frame of every turn that sent.\<close>

fun sent_pairs :: "'e opus_lib \<Rightarrow> cipher \<Rightarrow> capture_input list \<Rightarrow> 'e capture \<Rightarrow> (i16 list \<times> bytes) list" where
  "sent_pairs lib cipher [] s = []"
| "sent_pairs lib cipher (i # is) s =
     (let (s', a) = capture_turn lib cipher i s
      in (if a = SentFrame then [(pcm s', encoding lib s s')] else []) @
         (if going_on a then sent_pairs lib cipher is s' else []))"

lemma sent_pairs_opus: "map snd (sent_pairs lib cipher is s) = sent_opus lib cipher is s"
  by (induction "is" arbitrary: s) (simp_all add: case_prod_beta Let_def)

lemma sent_pairs_encoded: "subseq (map fst (sent_pairs lib cipher is s)) (encoded lib cipher is s)"
  by (induction "is" arbitrary: s) (auto simp: case_prod_beta Let_def)

lemma segments_subseq: "subseq xs ys \<Longrightarrow> segments_from h p ys \<Longrightarrow> segments_from h p xs"
proof (induction arbitrary: p rule: list_emb.induct)
  case (list_emb_Cons xs ys y)
  then obtain q where q: "p \<le> q" "segments_from h (q + 480) ys" by auto
  then have "segments_from h (q + 480) xs" using list_emb_Cons(2) by simp
  then show ?case using q(1) by (auto intro: segments_mono)
next
  case (list_emb_Cons2 x y xs ys)
  then show ?case by auto
qed simp

lemma sent_pairs_count:
  "capture_loop lib cipher is s = (s', as) \<Longrightarrow> length (sent_pairs lib cipher is s) = count_list as SentFrame"
  by (induction "is" arbitrary: s as) (auto simp: going_on_def split: prod.splits if_splits)

text \<open>A sent frame is the encoder's output on its PCM frame.\<close>

definition opus_of :: "'e opus_lib \<Rightarrow> i16 list \<times> bytes \<Rightarrow> bool" where
  "opus_of lib p \<longleftrightarrow> (\<exists>e. fst (opus_encode lib (fst p) e) = Inr (snd p))"

lemma turn_opus_of:
  assumes "capture_turn lib cipher i s = (s', SentFrame)"
  shows "opus_of lib (pcm s', encoding lib s s')"
proof -
  have enc: "opus_of lib (pcm s2, encoding lib s1 s2)" if "encode_and_send lib cipher i s1 = (s2, SentFrame)" for s1 s2
    using that
    by (auto simp: encode_and_send_def opus_of_def encoding_def note_failure_def Let_def
        split: sum.splits prod.splits if_splits capture_action.splits intro!: exI [of _ "encoder s1"])
  show ?thesis using assms
    by (auto simp: capture_turn_def Let_def encoding_def split: if_splits prod.splits bool.splits dest!: enc)
qed

lemma sent_pairs_opus_of: "p \<in> set (sent_pairs lib cipher is s) \<Longrightarrow> opus_of lib p"
proof (induction "is" arbitrary: s)
  case (Cons i "is")
  obtain s' a where t: "capture_turn lib cipher i s = (s', a)" by fastforce
  with Cons show ?case using turn_opus_of [of lib cipher i s s'] by (auto split: if_splits)
qed simp

lemma originals_decode:
  assumes "rtp_reachable cipher peer c y" and "\<And>k n d. cipher k n (cipher k n d) = d"
    and "k < length (frames y)" and "unat (newest - of_nat k) < 256"
  shows "receive cipher c newest (originals y ! k) = (of_nat k, frames y ! k)"
proof -
  have "originals y ! k = frame_packet cipher c (frames y) k"
    by (rule originals_nth [OF rtp_counters [OF assms(1)] assms(3)])
  then have "originals y ! k = build_packet c (encrypt cipher c (frames y ! k) (of_nat k)) (of_nat k)"
    by (simp add: frame_packet_def)
  then show ?thesis
    using receive_packet [of cipher newest "of_nat k" "originals y ! k" c "frames y ! k"] assms(2,4) by simp
qed

text \<open>
  What a turn of the capture loop sees when the sink wakes up as given, before the turn looks at
  the ring and after that.
\<close>

definition fed_by :: "('c \<Rightarrow> bytes list) \<Rightarrow> 'c list \<times> 'c list \<times> capture_input \<Rightarrow> capture_input" where
  "fed_by handed x =
     (case x of (before, during, i) \<Rightarrow>
        i\<lparr>written := concat (map handed before), racing := concat (map handed during)\<rparr>)"

definition wakes_of :: "('c list \<times> 'c list \<times> capture_input) list \<Rightarrow> 'c list" where
  "wakes_of turns = concat (map (\<lambda>(before, during, i). before @ during) turns)"

lemma run_samples_wakes:
  "run_samples r (map (fed_by handed) turns) = samples_of r (concat (map handed (wakes_of turns)))"
proof (induction turns)
  case (Cons t ts)
  then show ?case
    by (cases t) (simp add: run_samples_def turn_samples_def samples_of_def fed_by_def wakes_of_def)
qed (simp add: run_samples_def wakes_of_def samples_of_def)

context sound_source
begin

text \<open>
  The frames sent are made of disjoint segments of what the sink was handed, in order, each of 10
  ms; the \<open>k\<close>-th datagram is decoded to frame id \<open>k\<close> and the encoder's output for its segment.
\<close>

lemma arrives:
  fixes turns r h
  defines "inputs \<equiv> map (fed_by handed) turns"
    and "all \<equiv> h @ samples_of r (concat (map handed (wakes_of turns)))"
  assumes "list_all sane (wakes_of turns)" and "capture_start lib br r (new c) now = Inr s"
    and "ring_repr r h p" and "chn r = 2" and "capture_loop lib cipher inputs s = (s', as)"
    and "length all div 2 < 2 ^ 64" and "\<And>k n d. cipher k n (cipher k n d) = d"
  shows "\<exists>r' y pairs. wake_all wake (wakes_of turns) r = Some r' \<and> ring_repr r' all p \<and>
      rtp_reachable cipher peer c y \<and> snder y = rtp s' \<and> frames y = map snd pairs \<and>
      length pairs = count_list as SentFrame \<and> segments_from all (length h div 2) (map fst pairs) \<and>
      (\<forall>k < length pairs. opus_of lib (pairs ! k) \<and>
        (\<forall>newest. unat (newest - of_nat k) < 256 \<longrightarrow>
          receive cipher c newest (originals y ! k) = (of_nat k, snd (pairs ! k))))"
proof -
  let ?pairs = "sent_pairs lib cipher inputs s"
  have all: "all = h @ run_samples r inputs" by (simp add: all_def inputs_def run_samples_wakes)
  have "length h div 2 \<le> length all div 2" by (intro div_le_mono) (simp add: all_def)
  then have lag: "length h div 2 - p < 2 ^ 64" using assms(8) by linarith
  note s = capture_start_ok [OF assms(4-6) lag]
  then have rs: "run_samples (ring s) inputs = run_samples r inputs"
    by (simp add: run_samples_def turn_samples_def [abs_def] samples_of_def)
  have seg: "segments_from all (length h div 2) (map fst ?pairs)"
    using encoded_segments [of s h "length h div 2" inputs lib cipher] s assms(8) rs all
    by (auto intro: segments_subseq [OF sent_pairs_encoded])
  have "snder (rtp_init c) = rtp s" "frames (rtp_init c) = []" using s by (simp_all add: rtp_init_def)
  then obtain y where y: "rtp_reachable cipher peer c y" "snder y = rtp s'" "frames y = map snd ?pairs"
    using loop_drives [OF assms(7) rtp_reachable.init, of c peer] by (auto simp: sent_pairs_opus)
  have "receive cipher c newest (originals y ! k) = (of_nat k, snd (?pairs ! k))"
    if "k < length ?pairs" "unat (newest - of_nat k) < 256" for k newest
    using originals_decode [OF y(1) assms(9), of k newest] that y(3) by simp
  moreover have "opus_of lib (?pairs ! k)" if "k < length ?pairs" for k
    using sent_pairs_opus_of that by (meson nth_mem)
  moreover obtain r' where "wake_all wake (wakes_of turns) r = Some r'" "ring_repr r' all p"
    using wake_all_repr [OF assms(3,5)] by (auto simp: all_def)
  ultimately show ?thesis using y seg sent_pairs_count [OF assms(7)] by blast
qed

end

end
