(* ===== verification/Pipeline.thy ===== *)
theory Pipeline
  imports Capture Discovery Mirroring Virtual_Sink
begin

text \<open>
  \<open>src/pipeline.rs\<close>: the run of the program from discovery to the end of a session.
  \<open>run_with_device\<close> is modelled with the components of the other theories and with Rust's scopes: an early return drops the locals built so far in the reverse of their order. The trace
  lists what was acquired and released; the objects stay in the state after their drop so that
  their end can be inspected. What the outside does is the record \<open>world\<close>. The sink is the
  PipeWire one; on Windows \<open>Virtual_Sink_Windows\<close> takes its place. Printing is left out.
\<close>

section \<open>Choosing the device\<close>

datatype ip_addr = V4 u8 u8 u8 u8 | V6 "u16 list"

datatype resolve_error = ResolveHost string | NoIpv4 string

text \<open>\<open>filter_map\<close> to the IPv4 addresses and \<open>next\<close>; \<open>addrs\<close> is what the resolver returned.\<close>

definition resolve_ipv4 :: "string \<Rightarrow> ip_addr list option \<Rightarrow> resolve_error + ip_addr" where
  "resolve_ipv4 hostname addrs =
     (case addrs of
        None \<Rightarrow> Inl (ResolveHost hostname)
      | Some as \<Rightarrow>
          (case filter (\<lambda>a. case a of V4 _ _ _ _ \<Rightarrow> True | V6 _ \<Rightarrow> False) as of
             [] \<Rightarrow> Inl (NoIpv4 hostname)
           | a # _ \<Rightarrow> Inr a))"

definition ip_string :: "ip_addr \<Rightarrow> string" where
  "ip_string a =
     (case a of
        V4 x y z w \<Rightarrow> digits (unat x) @ ''.'' @ digits (unat y) @ ''.'' @ digits (unat z) @ ''.'' @ digits (unat w)
      | V6 _ \<Rightarrow> [])"

datatype pick_error = SelectionRequired

definition pick_device :: "device list \<Rightarrow> pick_error + device" where
  "pick_device devs = (if length devs = 1 then Inr (last devs) else Inl SelectionRequired)"

section \<open>The session monitor\<close>

datatype monitor_reason = ConnectionLostReason | ReceiverClosed

text \<open>
  The monitor's loop over what \<open>recv\<close> returns (\<open>None\<close>: all senders are gone). No result:
  it is still blocked when the script ends.
\<close>

fun monitor_loop :: "'v serde \<Rightarrow> string \<Rightarrow> cast_message option list \<Rightarrow> monitor_reason option" where
  "monitor_loop js transport [] = None"
| "monitor_loop js transport (None # rs) = Some ConnectionLostReason"
| "monitor_loop js transport (Some msg # rs) =
     (if namespace msg = NS_CONNECTION \<and> source msg = transport \<and> payload_type_is js (payload msg) ''CLOSE''
      then Some ReceiverClosed
      else monitor_loop js transport rs)"

section \<open>The world and the state\<close>

datatype stage = AtLaunch | AtConnectTransport | AtOffer | AtTeardown

record ('v, 'a, 'e) world =
  w_json :: "'v serde"
  w_sender_id :: string
  w_version :: string
  w_hex :: "bytes \<Rightarrow> string"
  w_addrs :: "'a list option"
  w_dial :: "'a \<Rightarrow> nat option"
  w_tls :: "tls_step \<Rightarrow> bool"
  w_fates :: "nat option list"
  w_connect_at :: nanos
  w_sink_ready :: ready_wait
  w_serving :: "stage \<Rightarrow> bool"
  w_launch_at :: nanos
  w_launch_script :: "(nanos \<times> recv_event) list"
  w_key :: bytes
  w_iv_mask :: bytes
  w_ssrc_draw :: u32
  w_offer_at :: nanos
  w_offer_script :: "(nanos \<times> recv_event) list"
  w_bind_error :: "io_error option"
  w_is_ip :: "string \<Rightarrow> bool"
  w_handler_error :: "string option"
  w_monitor_msgs :: "cast_message list"
  w_monitor_early :: bool
  w_interrupted :: bool
  w_played :: "bytes list"
  w_opus :: "'e opus_lib"
  w_cipher :: cipher
  w_capture_at :: nanos
  w_capture_script :: "capture_input list"

datatype effect =
    Opened | SinkCreated | Launched | SenderStarted | MonitorSpawned
  | SenderStopped | SessionDropped | ChannelDropped | MonitorJoined | SinkDropped
  | SenderDropped | IncomingDropped

record pipeline =
  pl_chan :: "channel_end option"
  pl_incoming :: bool
  pl_sink :: "virtual_sink option"
  pl_session :: "mirroring_session option"
  pl_sender :: "sender option"
  pl_answer :: "stream_answer option"
  pl_requests :: u64
  pl_stop :: bool
  pl_monitor_done :: bool
  pl_reports :: "monitor_reason list"
  pl_trace :: "effect list"

datatype pipeline_error =
    ConnectError connect_error | SinkError sink_error | LaunchError mirror_error
  | TransportError string | OfferError mirror_error | NotAccepted "u64 list" | BindError io_error
  | HandlerError string | CaptureError capture_error

text \<open>
  How a run ends: \<open>Unfinished\<close> when the script of the world ends first, \<open>Hung\<close> when a join never
  returns, \<open>Panicked\<close>, or returned with or without an error.
\<close>

datatype outcome = Unfinished | Hung | Panicked | Returned "pipeline_error option"

type_synonym phase = "(outcome \<times> pipeline) + pipeline"

definition pl_start :: "u64 \<Rightarrow> pipeline" where
  "pl_start requests = \<lparr>pl_chan = None, pl_incoming = False, pl_sink = None, pl_session = None,
     pl_sender = None, pl_answer = None, pl_requests = requests, pl_stop = False,
     pl_monitor_done = False, pl_reports = [], pl_trace = []\<rparr>"

definition note_effect :: "effect \<Rightarrow> pipeline \<Rightarrow> pipeline" where
  "note_effect ef st = st\<lparr>pl_trace := pl_trace st @ [ef]\<rparr>"

text \<open>The dispatcher may have died by the time of a stage; then the channel refuses messages.\<close>

definition attend :: "('v, 'a, 'e) world \<Rightarrow> stage \<Rightarrow> channel_end \<Rightarrow> channel_end" where
  "attend w stg c = c\<lparr>alive := alive c \<and> w_serving w stg\<rparr>"

section \<open>Drops\<close>

definition drop_pl_sender :: "pipeline \<Rightarrow> pipeline" where
  "drop_pl_sender st =
     (case pl_sender st of
        None \<Rightarrow> st
      | Some s \<Rightarrow> note_effect SenderDropped (st\<lparr>pl_sender := Some (drop_sender s)\<rparr>))"

definition drop_pl_session :: "('v, 'a, 'e) world \<Rightarrow> pipeline \<Rightarrow> pipeline" where
  "drop_pl_session w st =
     (case (pl_session st, pl_chan st) of
        (Some s, Some c) \<Rightarrow>
          let (c', requests') = drop_session (w_json w) (w_sender_id w) s (attend w AtTeardown c) (pl_requests st)
          in note_effect SessionDropped (st\<lparr>pl_chan := Some c', pl_requests := requests'\<rparr>)
      | _ \<Rightarrow> st)"

definition drop_pl_sink :: "pipeline \<Rightarrow> pipeline" where
  "drop_pl_sink st =
     (case pl_sink st of
        None \<Rightarrow> st
      | Some s \<Rightarrow> note_effect SinkDropped (st\<lparr>pl_sink := Some (drop_sink s)\<rparr>))"

definition drop_pl_incoming :: "pipeline \<Rightarrow> pipeline" where
  "drop_pl_incoming st =
     (if pl_incoming st then note_effect IncomingDropped (st\<lparr>pl_incoming := False\<rparr>) else st)"

definition drop_pl_chan :: "pipeline \<Rightarrow> pipeline" where
  "drop_pl_chan st =
     (case pl_chan st of
        None \<Rightarrow> st
      | Some c \<Rightarrow> note_effect ChannelDropped (st\<lparr>pl_chan := Some (drop_channel c)\<rparr>))"

text \<open>An early return: the locals are dropped in the reverse of their declaration.\<close>

definition early_return :: "('v, 'a, 'e) world \<Rightarrow> pipeline_error \<Rightarrow> pipeline \<Rightarrow> outcome \<times> pipeline" where
  "early_return w e st =
     (Returned (Some e),
       drop_pl_chan (drop_pl_incoming (drop_pl_sink (drop_pl_session w (drop_pl_sender st)))))"

definition bail_out :: "('v, 'a, 'e) world \<Rightarrow> pipeline_error \<Rightarrow> pipeline \<Rightarrow> phase" where
  "bail_out w e st = Inl (early_return w e st)"

section \<open>The phases of run_with_device\<close>

definition TIMEOUT :: nanos where
  "TIMEOUT = secs 10"

definition open_device :: "('v, 'a, 'e) world \<Rightarrow> device \<Rightarrow> pipeline \<Rightarrow> phase" where
  "open_device w dev st0 =
     (case connect (w_json w) False (w_version w) (w_sender_id w) (w_addrs w) (w_dial w) (w_tls w)
             (w_fates w) (w_connect_at w) of
        Inl e \<Rightarrow> bail_out w (ConnectError e) st0
      | Inr (_, c, _) \<Rightarrow>
          let st1 = note_effect Opened (st0\<lparr>pl_chan := Some c, pl_incoming := True\<rparr>)
          in case sink_new (friendly_name dev) (w_sink_ready w) of
               (Inl e, _) \<Rightarrow> bail_out w (SinkError e) st1
             | (Inr s, _) \<Rightarrow> Inr (note_effect SinkCreated (st1\<lparr>pl_sink := Some s\<rparr>)))"

definition launch_session :: "('v, 'a, 'e) world \<Rightarrow> device \<Rightarrow> channel_end \<Rightarrow> pipeline \<Rightarrow> phase" where
  "launch_session w dev c st0 =
     (let mode = (if is_audio_only dev then AudioOnly else AudioVideo)
      in case launch_mirroring (w_json w) (w_sender_id w) mode TIMEOUT (w_launch_at w)
                (w_launch_script w) (attend w AtLaunch c) (pl_requests st0) of
           (None, c', n) \<Rightarrow> Inl (Unfinished, st0\<lparr>pl_chan := Some c', pl_requests := n\<rparr>)
         | (Some (Inl e, _), c', n) \<Rightarrow>
             bail_out w (LaunchError e) (st0\<lparr>pl_chan := Some c', pl_requests := n\<rparr>)
         | (Some (Inr sess, _), c', n) \<Rightarrow>
             let st1 = note_effect Launched
                   (st0\<lparr>pl_chan := Some c', pl_requests := n, pl_session := Some sess\<rparr>)
             in case connect_transport (w_json w) False (w_version w) (w_sender_id w)
                       (transport_id sess) (attend w AtConnectTransport c') of
                  (Inl e, c'') \<Rightarrow> bail_out w (TransportError e) (st1\<lparr>pl_chan := Some c''\<rparr>)
                | (Inr _, c'') \<Rightarrow> Inr (st1\<lparr>pl_chan := Some c''\<rparr>))"

definition sender_config :: "device \<Rightarrow> stream_offer \<Rightarrow> stream_answer \<Rightarrow> config" where
  "sender_config dev offer answer =
     \<lparr>chromecast_host = host dev, udp_port = answer_port answer, ssrc = offer_ssrc offer,
      payload_type = RTP_PAYLOAD_TYPE, aes_key = offer_key offer, aes_iv_mask = offer_iv_mask offer\<rparr>"

definition negotiate :: "('v, 'a, 'e) world \<Rightarrow> device \<Rightarrow> mirroring_session \<Rightarrow> channel_end \<Rightarrow> pipeline \<Rightarrow> phase" where
  "negotiate w dev sess c st0 =
     (let offer = default_offer (w_key w) (w_iv_mask w) (w_ssrc_draw w)
      in case send_offer (w_json w) (w_hex w) (w_sender_id w) (transport_id sess) offer TIMEOUT
                (w_offer_at w) (w_offer_script w) (attend w AtOffer c) (pl_requests st0) of
           (None, c', n) \<Rightarrow> Inl (Unfinished, st0\<lparr>pl_chan := Some c', pl_requests := n\<rparr>)
         | (Some (Inl e, _), c', n) \<Rightarrow>
             bail_out w (OfferError e) (st0\<lparr>pl_chan := Some c', pl_requests := n\<rparr>)
         | (Some (Inr answer, _), c', n) \<Rightarrow>
             let st1 = st0\<lparr>pl_chan := Some c', pl_requests := n, pl_answer := Some answer\<rparr>
             in if 0 \<notin> set (send_indexes answer) then
                  bail_out w (NotAccepted (send_indexes answer)) st1
                else case w_bind_error w of
                  Some e \<Rightarrow> bail_out w (BindError e) st1
                | None \<Rightarrow>
                    let s = start (w_is_ip w) (new (sender_config dev offer answer))
                    in Inr (note_effect SenderStarted (st1\<lparr>pl_sender := Some s\<rparr>)))"

text \<open>
  \<open>if !stop.swap(true) { eprintln!(..) }\<close> at the end of the monitor.
\<close>

definition monitor_report :: "monitor_reason \<Rightarrow> pipeline \<Rightarrow> pipeline" where
  "monitor_report reason st =
     st\<lparr>pl_monitor_done := True, pl_stop := True,
        pl_reports := (if pl_stop st then pl_reports st else pl_reports st @ [reason])\<rparr>"

text \<open>What the monitor can receive: the forwarded messages, and the disconnect once the dispatcher ended.\<close>

definition monitor_events :: "('v, 'a, 'e) world \<Rightarrow> channel_end \<Rightarrow> cast_message option list" where
  "monitor_events w c = map Some (w_monitor_msgs w) @ (if alive c then [] else [None])"

text \<open>\<open>capture::run\<close>: \<open>None\<close> when the script ends first, else its result and the sender.\<close>

definition capture_run ::
  "('v, 'a, 'e) world \<Rightarrow> audio_ring \<Rightarrow> sender \<Rightarrow> (capture_error option \<times> sender) option" where
  "capture_run w r s =
     (case capture_start (w_opus w) OPUS_BITRATE r s (w_capture_at w) of
        Inl e \<Rightarrow> Some (Some e, s)
      | Inr cs \<Rightarrow>
          let (cs', as) = capture_loop (w_opus w) (w_cipher w) (w_capture_script w) cs
          in case as of
               [] \<Rightarrow> None
             | _ \<Rightarrow> (case last as of
                 Stopped \<Rightarrow> Some (None, rtp cs')
               | Failed e \<Rightarrow> Some (Some e, rtp cs')
               | _ \<Rightarrow> None))"

text \<open>
  From the signal handler to the end of the capture. The monitor may end on its own while audio is
  captured (\<open>w_monitor_early\<close>), and a signal may have set the flag before that.
\<close>

definition stream_audio ::
  "('v, 'a, 'e) world \<Rightarrow> mirroring_session \<Rightarrow> channel_end \<Rightarrow> virtual_sink \<Rightarrow> sender \<Rightarrow> pipeline \<Rightarrow>
     (outcome \<times> pipeline) + capture_error option \<times> pipeline" where
  "stream_audio w sess c sk s st0 =
     (case w_handler_error w of
        Some e \<Rightarrow> Inl (early_return w (HandlerError e) st0)
      | None \<Rightarrow>
          let st1 = note_effect MonitorSpawned (st0\<lparr>pl_incoming := False, pl_stop := w_interrupted w\<rparr>)
          in case take_consumer sk of
               (None, _) \<Rightarrow> Inl (Panicked, st1)
             | (Some r, sk') \<Rightarrow>
                 case capture_run w (producer_writes (w_played w) r) s of
                   None \<Rightarrow> Inl (Unfinished, st1\<lparr>pl_sink := Some sk'\<rparr>)
                 | Some (result, s') \<Rightarrow>
                     let st2 = st1\<lparr>pl_sink := Some sk', pl_sender := Some s'\<rparr>;
                         st3 = (case (w_monitor_early w,
                                      monitor_loop (w_json w) (transport_id sess)
                                        (monitor_events w (attend w AtTeardown c))) of
                                  (True, Some reason) \<Rightarrow> monitor_report reason st2
                                | _ \<Rightarrow> st2);
                         st4 = (if result \<noteq> None then st3\<lparr>pl_stop := True\<rparr> else st3)
                     in Inr (result, st4))"

text \<open>\<open>monitor.join()\<close>: \<open>None\<close> when the monitor stays blocked.\<close>

definition join_monitor :: "('v, 'a, 'e) world \<Rightarrow> mirroring_session \<Rightarrow> pipeline \<Rightarrow> pipeline option" where
  "join_monitor w sess st =
     (if pl_monitor_done st then Some (note_effect MonitorJoined st)
      else case pl_chan st of
        None \<Rightarrow> None
      | Some c \<Rightarrow>
          map_option (\<lambda>reason. note_effect MonitorJoined (monitor_report reason st))
            (monitor_loop (w_json w) (transport_id sess) (monitor_events w c)))"

definition stop_pl_sender :: "pipeline \<Rightarrow> pipeline" where
  "stop_pl_sender st = note_effect SenderStopped (st\<lparr>pl_sender := map_option stop (pl_sender st)\<rparr>)"

definition tear_down ::
  "('v, 'a, 'e) world \<Rightarrow> mirroring_session \<Rightarrow> capture_error option \<Rightarrow> pipeline \<Rightarrow> outcome \<times> pipeline" where
  "tear_down w sess result st0 =
     (let st1 = drop_pl_chan (drop_pl_session w (stop_pl_sender st0))
      in case join_monitor w sess st1 of
           None \<Rightarrow> (Hung, st1)
         | Some st2 \<Rightarrow> (Returned (map_option CaptureError result), drop_pl_sender (drop_pl_sink st2)))"

definition run_with_device :: "('v, 'a, 'e) world \<Rightarrow> u64 \<Rightarrow> device \<Rightarrow> outcome \<times> pipeline" where
  "run_with_device w requests dev =
     (case open_device w dev (pl_start requests) of
        Inl x \<Rightarrow> x
      | Inr st1 \<Rightarrow>
          (case launch_session w dev (the (pl_chan st1)) st1 of
             Inl x \<Rightarrow> x
           | Inr st2 \<Rightarrow>
               let sess = the (pl_session st2)
               in case negotiate w dev sess (the (pl_chan st2)) st2 of
                    Inl x \<Rightarrow> x
                  | Inr st3 \<Rightarrow>
                      (case stream_audio w sess (the (pl_chan st3)) (the (pl_sink st3)) (the (pl_sender st3)) st3 of
                         Inl x \<Rightarrow> x
                       | Inr (result, st4) \<Rightarrow> tear_down w sess result st4)))"

section \<open>The entry points\<close>

datatype run_error =
    DiscoverFailed discover_error | NoDevices | PickFailed pick_error | HostFailed resolve_error

text \<open>What ends a run before \<open>run_with_device\<close>, or its outcome; \<open>None\<close>: still browsing.\<close>

definition run ::
  "('v, 'a, 'e) world \<Rightarrow> u64 \<Rightarrow> bool \<Rightarrow> nanos \<Rightarrow> (nanos \<times> service_event \<times> nanos) list \<Rightarrow> string option \<Rightarrow>
     (run_error + outcome \<times> pipeline) option" where
  "run w requests daemon_ok now browse_script device_name =
     (case discover daemon_ok device_name TIMEOUT now browse_script of
        None \<Rightarrow> None
      | Some (Inl e) \<Rightarrow> Some (Inl (DiscoverFailed e))
      | Some (Inr devs) \<Rightarrow>
          if devs = [] then Some (Inl NoDevices)
          else (case pick_device devs of
             Inl e \<Rightarrow> Some (Inl (PickFailed e))
           | Inr dev \<Rightarrow> Some (Inr (run_with_device w requests dev))))"

definition host_device :: "string \<Rightarrow> u16 \<Rightarrow> ip_addr \<Rightarrow> device" where
  "host_device hostname port_no ip =
     \<lparr>friendly_name = hostname @ '':'' @ digits (unat port_no), model = None, host = ip_string ip,
      port = port_no, is_audio_only = True\<rparr>"

definition run_with_host ::
  "('v, 'a, 'e) world \<Rightarrow> u64 \<Rightarrow> ip_addr list option \<Rightarrow> string \<Rightarrow> u16 \<Rightarrow> run_error + outcome \<times> pipeline" where
  "run_with_host w requests resolved hostname port_no =
     (case resolve_ipv4 hostname resolved of
        Inl e \<Rightarrow> Inl (HostFailed e)
      | Inr ip \<Rightarrow> Inr (run_with_device w requests (host_device hostname port_no ip)))"

text \<open>The exit code \<open>main\<close> makes of a result; \<open>None\<close>: the run has not ended, panicked or hangs.\<close>

definition exit_code :: "run_error + outcome \<times> pipeline \<Rightarrow> nat option" where
  "exit_code r =
     (case r of
        Inl _ \<Rightarrow> Some 1
      | Inr (Returned None, _) \<Rightarrow> Some 0
      | Inr (Returned (Some _), _) \<Rightarrow> Some 1
      | Inr _ \<Rightarrow> None)"

end
