(* ===== verification/Run_Properties.thy ===== *)
theory Run_Properties
  imports Pipeline
begin

text \<open>
  What a run of the program guarantees: each phase of \<open>run_with_device\<close> leaves the locals in a known
  shape or ends with everything released (\<open>phase_ok\<close>), the tear-down cannot hang, and the theorems at
  the end put the phases together. \<open>demo_world\<close> is a complete run for the witnesses.
\<close>

section \<open>What an early return does\<close>

text \<open>
  What is acquired so far, in order, and what the drops of the locals then release. \<open>locals_ok\<close> is
  the shape of the state between the steps of \<open>run_with_device\<close>.
\<close>

definition acquired :: "pipeline \<Rightarrow> effect list" where
  "acquired st =
     (if pl_chan st = None then [] else [Opened]) @ (if pl_sink st = None then [] else [SinkCreated]) @
     (if pl_session st = None then [] else [Launched]) @ (if pl_sender st = None then [] else [SenderStarted])"

definition to_release :: "pipeline \<Rightarrow> effect list" where
  "to_release st =
     (if pl_sender st = None then [] else [SenderDropped]) @ (if pl_session st = None then [] else [SessionDropped]) @
     (if pl_sink st = None then [] else [SinkDropped]) @
     (if pl_chan st = None then [] else [IncomingDropped, ChannelDropped])"

definition locals_ok :: "pipeline \<Rightarrow> bool" where
  "locals_ok st \<longleftrightarrow> pl_trace st = acquired st \<and> pl_incoming st = (pl_chan st \<noteq> None) \<and>
     (pl_session st \<noteq> None \<longrightarrow> pl_chan st \<noteq> None) \<and> pl_reports st = [] \<and>
     (\<forall>s. pl_sink st = Some s \<longrightarrow> quit_tx s \<and> consumer s = channel RING_CAPACITY_FRAMES (ucast CHANNELS)) \<and>
     (\<forall>s. pl_sender st = Some s \<longrightarrow> rtcp_thread s)"

definition sender_down :: "sender \<Rightarrow> bool" where
  "sender_down s \<longleftrightarrow> \<not> stop_tx s \<and> \<not> rtcp_thread s \<and> nack_stop s \<and> \<not> nack_thread s"

text \<open>Everything the run acquired is released: threads joined, sockets and queues closed.\<close>

definition released :: "pipeline \<Rightarrow> bool" where
  "released st \<longleftrightarrow> \<not> pl_incoming st \<and>
     (\<forall>c. pl_chan st = Some c \<longrightarrow> stop_set c \<and> joined c \<and> \<not> alive c) \<and>
     (\<forall>s. pl_sink st = Some s \<longrightarrow> quit_sent s \<and> \<not> sink_thread s) \<and>
     (\<forall>s. pl_sender st = Some s \<longrightarrow> sender_down s)"

text \<open>The messages that unload the application and close both virtual connections.\<close>

definition goodbye :: "('v, 'a, 'e) world \<Rightarrow> mirroring_session \<Rightarrow> u64 \<Rightarrow> cast_message list" where
  "goodbye w s n =
     [\<lparr>source = w_sender_id w, destination = PLATFORM_RECEIVER_ID, namespace = NS_RECEIVER,
        payload = to_text (w_json w) (stop_payload (w_json w) n (session_id s))\<rparr>,
      \<lparr>source = w_sender_id w, destination = transport_id s, namespace = NS_CONNECTION,
        payload = to_text (w_json w) (close_payload (w_json w))\<rparr>,
      \<lparr>source = w_sender_id w, destination = PLATFORM_RECEIVER_ID, namespace = NS_CONNECTION,
        payload = to_text (w_json w) (close_payload (w_json w))\<rparr>]"

definition said_goodbye :: "('v, 'a, 'e) world \<Rightarrow> pipeline \<Rightarrow> bool" where
  "said_goodbye w st \<longleftrightarrow>
     (case pl_session st of
        None \<Rightarrow> True
      | Some s \<Rightarrow> (\<exists>c pre n. pl_chan st = Some c \<and> outbound c = pre @ goodbye w s n))"

lemma drop_sender_down: "rtcp_thread s \<Longrightarrow> sender_down (drop_sender s)"
  by (simp add: drop_sender_def stop_def sender_down_def)

lemma drop_pl_sender_fields [simp]:
  "pl_chan (drop_pl_sender st) = pl_chan st" "pl_incoming (drop_pl_sender st) = pl_incoming st"
  "pl_sink (drop_pl_sender st) = pl_sink st" "pl_session (drop_pl_sender st) = pl_session st"
  "pl_sender (drop_pl_sender st) = map_option drop_sender (pl_sender st)"
  "pl_answer (drop_pl_sender st) = pl_answer st" "pl_reports (drop_pl_sender st) = pl_reports st"
  "pl_trace (drop_pl_sender st) = pl_trace st @ (if pl_sender st = None then [] else [SenderDropped])"
  by (simp_all add: drop_pl_sender_def note_effect_def split: option.split)

lemma drop_pl_sink_fields [simp]:
  "pl_chan (drop_pl_sink st) = pl_chan st" "pl_incoming (drop_pl_sink st) = pl_incoming st"
  "pl_sink (drop_pl_sink st) = map_option drop_sink (pl_sink st)" "pl_session (drop_pl_sink st) = pl_session st"
  "pl_sender (drop_pl_sink st) = pl_sender st" "pl_answer (drop_pl_sink st) = pl_answer st"
  "pl_reports (drop_pl_sink st) = pl_reports st"
  "pl_trace (drop_pl_sink st) = pl_trace st @ (if pl_sink st = None then [] else [SinkDropped])"
  by (simp_all add: drop_pl_sink_def note_effect_def split: option.split)

lemma drop_pl_incoming_fields [simp]:
  "pl_chan (drop_pl_incoming st) = pl_chan st" "\<not> pl_incoming (drop_pl_incoming st)"
  "pl_sink (drop_pl_incoming st) = pl_sink st" "pl_session (drop_pl_incoming st) = pl_session st"
  "pl_sender (drop_pl_incoming st) = pl_sender st" "pl_answer (drop_pl_incoming st) = pl_answer st"
  "pl_reports (drop_pl_incoming st) = pl_reports st"
  "pl_trace (drop_pl_incoming st) = pl_trace st @ (if pl_incoming st then [IncomingDropped] else [])"
  by (simp_all add: drop_pl_incoming_def note_effect_def)

lemma drop_pl_chan_fields [simp]:
  "pl_chan (drop_pl_chan st) = map_option drop_channel (pl_chan st)"
  "pl_incoming (drop_pl_chan st) = pl_incoming st"
  "pl_sink (drop_pl_chan st) = pl_sink st" "pl_session (drop_pl_chan st) = pl_session st"
  "pl_sender (drop_pl_chan st) = pl_sender st" "pl_answer (drop_pl_chan st) = pl_answer st"
  "pl_reports (drop_pl_chan st) = pl_reports st" "pl_stop (drop_pl_chan st) = pl_stop st"
  "pl_monitor_done (drop_pl_chan st) = pl_monitor_done st"
  "pl_trace (drop_pl_chan st) = pl_trace st @ (if pl_chan st = None then [] else [ChannelDropped])"
  by (simp_all add: drop_pl_chan_def note_effect_def split: option.split)

lemma drop_pl_session_fields [simp]:
  "pl_incoming (drop_pl_session w st) = pl_incoming st"
  "pl_sink (drop_pl_session w st) = pl_sink st" "pl_session (drop_pl_session w st) = pl_session st"
  "pl_sender (drop_pl_session w st) = pl_sender st" "pl_answer (drop_pl_session w st) = pl_answer st"
  "pl_reports (drop_pl_session w st) = pl_reports st" "pl_stop (drop_pl_session w st) = pl_stop st"
  "pl_monitor_done (drop_pl_session w st) = pl_monitor_done st"
  "(pl_chan (drop_pl_session w st) = None) = (pl_chan st = None)"
  "pl_trace (drop_pl_session w st) =
     pl_trace st @ (if pl_session st = None \<or> pl_chan st = None then [] else [SessionDropped])"
  by (simp_all add: drop_pl_session_def note_effect_def case_prod_beta split: option.split)

lemma drop_pl_session_goodbye:
  assumes "pl_session st = Some s" and "pl_chan st = Some c"
  obtains c' where "pl_chan (drop_pl_session w st) = Some c'"
    and "outbound c' = outbound c @
      (if alive c \<and> w_serving w AtTeardown then goodbye w s (pl_requests st) else [])"
  using assms drop_session_outbound [of "w_json w" "w_sender_id w" s "attend w AtTeardown c" "pl_requests st"]
  by (auto simp: drop_pl_session_def attend_def goodbye_def note_effect_def case_prod_beta)

lemma drop_channel_fields [simp]:
  "stop_set (drop_channel c)" "joined (drop_channel c)" "\<not> alive (drop_channel c)"
  "outbound (drop_channel c) = outbound c"
  by (simp_all add: drop_channel_def)

lemma drop_sink_quits [simp]:
  "quit_tx s \<Longrightarrow> quit_sent (drop_sink s)" "\<not> sink_thread (drop_sink s)"
  by (simp_all add: drop_sink_def)

lemma early_return_effect:
  assumes "early_return w e st = (out, st')" and "locals_ok st"
  shows "out = Returned (Some e)" and "released st'" and "pl_trace st' = acquired st @ to_release st"
    and "pl_answer st' = pl_answer st" and "pl_reports st' = []" and "pl_session st' = pl_session st"
    and "\<forall>c. pl_chan st = Some c \<longrightarrow> alive c \<and> w_serving w AtTeardown \<Longrightarrow> said_goodbye w st'"
proof -
  from assms(1) have eq: "out = Returned (Some e)"
      "st' = drop_pl_chan (drop_pl_incoming (drop_pl_sink (drop_pl_session w (drop_pl_sender st))))"
    by (simp_all add: early_return_def)
  show "out = Returned (Some e)" by (rule eq(1))
  show "released st'"
    using assms(2) unfolding released_def eq(2) by (auto simp: locals_ok_def drop_sender_down)
  show "pl_trace st' = acquired st @ to_release st"
    using assms(2) unfolding eq(2) by (auto simp: locals_ok_def to_release_def)
  show "pl_answer st' = pl_answer st" "pl_session st' = pl_session st" by (simp_all add: eq(2))
  show "pl_reports st' = []" using assms(2) by (simp add: eq(2) locals_ok_def)
  assume a: "\<forall>c. pl_chan st = Some c \<longrightarrow> alive c \<and> w_serving w AtTeardown"
  show "said_goodbye w st'"
  proof (cases "pl_session st")
    case (Some s)
    then obtain c where c: "pl_chan st = Some c" using assms(2) by (auto simp: locals_ok_def)
    obtain c' where "pl_chan (drop_pl_session w (drop_pl_sender st)) = Some c'"
        "outbound c' = outbound c @ goodbye w s (pl_requests (drop_pl_sender st))"
      using drop_pl_session_goodbye [of "drop_pl_sender st" s c w] Some c a by auto
    then show ?thesis by (auto simp: said_goodbye_def eq(2) Some)
  qed (simp add: said_goodbye_def eq(2))
qed

section \<open>The phases\<close>

text \<open>What is acquired and released when the run returns, by its result.\<close>

fun release_trace :: "pipeline_error option \<Rightarrow> effect list" where
  "release_trace (Some (ConnectError e)) = []"
| "release_trace (Some (SinkError e)) = [Opened, IncomingDropped, ChannelDropped]"
| "release_trace (Some (LaunchError e)) = [Opened, SinkCreated, SinkDropped, IncomingDropped, ChannelDropped]"
| "release_trace (Some (HandlerError e)) =
     [Opened, SinkCreated, Launched, SenderStarted, SenderDropped, SessionDropped, SinkDropped,
      IncomingDropped, ChannelDropped]"
| "release_trace (Some (CaptureError e)) =
     [Opened, SinkCreated, Launched, SenderStarted, MonitorSpawned, SenderStopped, SessionDropped,
      ChannelDropped, MonitorJoined, SinkDropped, SenderDropped]"
| "release_trace None =
     [Opened, SinkCreated, Launched, SenderStarted, MonitorSpawned, SenderStopped, SessionDropped,
      ChannelDropped, MonitorJoined, SinkDropped, SenderDropped]"
| "release_trace (Some _) =
     [Opened, SinkCreated, Launched, SessionDropped, SinkDropped, IncomingDropped, ChannelDropped]"

definition serves :: "('v, 'a, 'e) world \<Rightarrow> bool" where
  "serves w \<longleftrightarrow> w_serving w AtLaunch \<and> w_serving w AtConnectTransport \<and> w_serving w AtOffer \<and>
     w_serving w AtTeardown"

definition negotiated :: "device \<Rightarrow> ('v, 'a, 'e) world \<Rightarrow> pipeline \<Rightarrow> bool" where
  "negotiated dev w st \<longleftrightarrow>
     (\<forall>s. pl_sender st = Some s \<longrightarrow>
        (\<exists>answer. pl_answer st = Some answer \<and> 0 \<in> set (send_indexes answer) \<and>
           conf s = sender_config dev (default_offer (w_key w) (w_iv_mask w) (w_ssrc_draw w)) answer))"

definition ended_with :: "device \<Rightarrow> ('v, 'a, 'e) world \<Rightarrow> pipeline_error option \<Rightarrow> pipeline \<Rightarrow> bool" where
  "ended_with dev w err st \<longleftrightarrow>
     released st \<and> pl_trace st = release_trace err \<and> negotiated dev w st \<and> (serves w \<longrightarrow> said_goodbye w st)"

definition between :: "device \<Rightarrow> ('v, 'a, 'e) world \<Rightarrow> pipeline \<Rightarrow> bool" where
  "between dev w st \<longleftrightarrow> locals_ok st \<and> negotiated dev w st \<and>
     (serves w \<longrightarrow> (\<forall>c. pl_chan st = Some c \<longrightarrow> alive c))"

lemma drop_sender_conf [simp]: "conf (drop_sender s) = conf s"
  by (simp add: drop_sender_def stop_def)

lemma early_return_ended:
  assumes "between dev w st" and "acquired st @ to_release st = release_trace (Some e)"
  shows "\<exists>st'. early_return w e st = (Returned (Some e), st') \<and> ended_with dev w (Some e) st' \<and> pl_reports st' = []"
proof -
  obtain st' where er: "early_return w e st = (Returned (Some e), st')" by (simp add: early_return_def)
  have ok: "locals_ok st" using assms(1) by (simp add: between_def)
  note ef = early_return_effect [OF er ok]
  have "negotiated dev w st'"
    using assms(1) er by (auto simp: between_def negotiated_def early_return_def)
  moreover have "serves w \<longrightarrow> said_goodbye w st'"
    using assms(1) ef(7) by (auto simp: between_def serves_def)
  ultimately show ?thesis using er ef(2,3,5) assms(2) by (simp add: ended_with_def)
qed

lemma launch_mirroring_alive:
  "launch_mirroring js me mode t now sc c n = (r, c', n') \<Longrightarrow> alive c' = alive c"
  by (auto simp: launch_mirroring_def new_request_id_def send_json_cases Let_def split: if_splits)

lemma send_offer_alive:
  "send_offer js hex me tr offer t now sc c n = (r, c', n') \<Longrightarrow> alive c' = alive c"
  by (auto simp: send_offer_def new_request_id_def send_json_cases Let_def split: if_splits)

lemma connect_transport_alive:
  "connect_transport js win ver me dst c = (r, c') \<Longrightarrow> alive c' = alive c"
  by (auto simp: connect_transport_def send_json_cases split: if_splits)

lemma connect_alive: "connect js win ver me addrs dial a fs t = Inr (x, c, d) \<Longrightarrow> alive c"
  by (auto simp: connect_def Let_def split: option.splits prod.splits if_splits)

lemma sink_new_ok:
  "sink_new nm rdy = (Inr s, x) \<Longrightarrow> quit_tx s \<and> consumer s = channel RING_CAPACITY_FRAMES (ucast CHANNELS)"
  by (auto simp: sink_new_def Let_def split: option.splits ready_wait.splits ready_message.splits)

text \<open>The result of a phase: unfinished, ended as it should, or the shape for the next phase.\<close>

definition phase_ok :: "device \<Rightarrow> ('v, 'a, 'e) world \<Rightarrow> effect list \<Rightarrow> phase \<Rightarrow> bool" where
  "phase_ok dev w effs ph \<longleftrightarrow>
     (case ph of
        Inl (out, st) \<Rightarrow> out = Unfinished \<or>
          (\<exists>e. out = Returned (Some e) \<and> ended_with dev w (Some e) st \<and> pl_reports st = [] \<and>
             e \<notin> range CaptureError)
      | Inr st \<Rightarrow> between dev w st \<and> acquired st = effs)"

lemma phase_ok_early:
  assumes "between dev w st" and "acquired st @ to_release st = release_trace (Some e)"
  shows "phase_ok dev w effs (bail_out w e st)"
proof -
  have "MonitorSpawned \<notin> set (release_trace (Some e))"
    unfolding assms(2) [symmetric] by (auto simp: acquired_def to_release_def)
  then have "e \<notin> range CaptureError" by auto
  then show ?thesis using early_return_ended [OF assms] by (auto simp: phase_ok_def bail_out_def)
qed

lemma phase_ok_unfinished [simp]: "phase_ok dev w effs (Inl (Unfinished, st))"
  by (simp add: phase_ok_def)

lemma note_effect_fields [simp]:
  "pl_chan (note_effect ef st) = pl_chan st" "pl_incoming (note_effect ef st) = pl_incoming st"
  "pl_sink (note_effect ef st) = pl_sink st" "pl_session (note_effect ef st) = pl_session st"
  "pl_sender (note_effect ef st) = pl_sender st" "pl_answer (note_effect ef st) = pl_answer st"
  "pl_requests (note_effect ef st) = pl_requests st" "pl_stop (note_effect ef st) = pl_stop st"
  "pl_monitor_done (note_effect ef st) = pl_monitor_done st" "pl_reports (note_effect ef st) = pl_reports st"
  "pl_trace (note_effect ef st) = pl_trace st @ [ef]"
  by (simp_all add: note_effect_def)

lemma pl_start_fields [simp]:
  "pl_chan (pl_start n) = None" "\<not> pl_incoming (pl_start n)" "pl_sink (pl_start n) = None"
  "pl_session (pl_start n) = None" "pl_sender (pl_start n) = None" "pl_answer (pl_start n) = None"
  "pl_reports (pl_start n) = []" "pl_trace (pl_start n) = []" "pl_requests (pl_start n) = n"
  by (simp_all add: pl_start_def)

lemmas shape_defs = between_def locals_ok_def negotiated_def acquired_def to_release_def

lemma attend_alive [simp]: "alive (attend w g c) = (alive c \<and> w_serving w g)"
  by (simp add: attend_def)

lemma open_device_ok: "phase_ok dev w [Opened, SinkCreated] (open_device w dev (pl_start n))"
proof (cases "connect (w_json w) False (w_version w) (w_sender_id w) (w_addrs w) (w_dial w) (w_tls w)
             (w_fates w) (w_connect_at w)")
  case (Inl e)
  then show ?thesis by (simp add: open_device_def phase_ok_early shape_defs)
next
  case (Inr acd)
  then obtain a c d where cn: "connect (w_json w) False (w_version w) (w_sender_id w) (w_addrs w) (w_dial w)
      (w_tls w) (w_fates w) (w_connect_at w) = Inr (a, c, d)"
    by (cases acd) auto
  note al = connect_alive [OF cn]
  define st1 where "st1 = note_effect Opened ((pl_start n)\<lparr>pl_chan := Some c, pl_incoming := True\<rparr>)"
  have b1: "between dev w st1" "acquired st1 = [Opened]" "to_release st1 = [IncomingDropped, ChannelDropped]"
    using al by (simp_all add: st1_def shape_defs)
  obtain sr x where sn: "sink_new (friendly_name dev) (w_sink_ready w) = (sr, x)" by (metis surj_pair)
  show ?thesis
  proof (cases sr)
    case (Inl e)
    then have "open_device w dev (pl_start n) = bail_out w (SinkError e) st1"
      using cn sn by (simp add: open_device_def st1_def Let_def)
    then show ?thesis using phase_ok_early [OF b1(1)] b1(2,3) by simp
  next
    case (Inr s)
    note sk = sink_new_ok [OF sn [unfolded Inr]]
    then show ?thesis using cn sn Inr al
      by (simp add: open_device_def phase_ok_def shape_defs Let_def)
  qed
qed

lemma launch_session_ok:
  assumes "between dev w st0" and "acquired st0 = [Opened, SinkCreated]" and "pl_chan st0 = Some c"
  shows "phase_ok dev w [Opened, SinkCreated, Launched] (launch_session w dev c st0)"
proof -
  let ?mode = "if is_audio_only dev then AudioOnly else AudioVideo"
  obtain lr c' n' where lm: "launch_mirroring (w_json w) (w_sender_id w) ?mode TIMEOUT (w_launch_at w)
      (w_launch_script w) (attend w AtLaunch c) (pl_requests st0) = (lr, c', n')"
    by (metis prod_cases3)
  note al = launch_mirroring_alive [OF lm]
  define st1 where "st1 = st0\<lparr>pl_chan := Some c', pl_requests := n'\<rparr>"
  have b1: "between dev w st1" "acquired st1 = acquired st0" "to_release st1 = to_release st0"
    using assms al by (auto simp: st1_def shape_defs serves_def)
  have none: "pl_session st0 = None" "pl_sender st0 = None" "pl_sink st0 \<noteq> None"
    using assms(2) by (auto simp: acquired_def split: if_splits)
  show ?thesis
  proof (cases lr)
    case None
    then show ?thesis using lm by (simp add: launch_session_def)
  next
    case (Some l)
    then obtain lres rest where l: "lr = Some (lres, rest)" by (cases l) auto
    show ?thesis
    proof (cases lres)
      case (Inl e)
      then have "launch_session w dev c st0 = bail_out w (LaunchError e) st1"
        using lm l by (simp add: launch_session_def st1_def)
      then show ?thesis using phase_ok_early [OF b1(1)] b1(2,3) assms none
        by (simp add: to_release_def)
    next
      case (Inr sess)
      obtain tr c'' where ct: "connect_transport (w_json w) False (w_version w) (w_sender_id w)
          (transport_id sess) (attend w AtConnectTransport c') = (tr, c'')" by (metis surj_pair)
      note al' = connect_transport_alive [OF ct]
      define st2 where "st2 = (note_effect Launched (st1\<lparr>pl_session := Some sess\<rparr>))\<lparr>pl_chan := Some c''\<rparr>"
      have eq: "launch_session w dev c st0 =
          (case tr of Inl e \<Rightarrow> bail_out w (TransportError e) st2 | Inr _ \<Rightarrow> Inr st2)"
        using lm l Inr ct by (simp add: launch_session_def st1_def st2_def Let_def split: sum.split)
      have b2: "between dev w st2" "acquired st2 = [Opened, SinkCreated, Launched]"
          "to_release st2 = [SessionDropped, SinkDropped, IncomingDropped, ChannelDropped]"
        using assms al al' none by (auto simp: st2_def st1_def shape_defs serves_def)
      show ?thesis using phase_ok_early [OF b2(1)] b2
        by (cases tr) (simp_all add: eq phase_ok_def [of _ _ _ "Inr st2"])
    qed
  qed
qed

lemma negotiate_ok:
  assumes "between dev w st0" and "acquired st0 = [Opened, SinkCreated, Launched]" and "pl_chan st0 = Some c"
  shows "phase_ok dev w [Opened, SinkCreated, Launched, SenderStarted] (negotiate w dev sess c st0)"
proof -
  let ?offer = "default_offer (w_key w) (w_iv_mask w) (w_ssrc_draw w)"
  obtain r c' n' where so: "send_offer (w_json w) (w_hex w) (w_sender_id w) (transport_id sess) ?offer TIMEOUT
      (w_offer_at w) (w_offer_script w) (attend w AtOffer c) (pl_requests st0) = (r, c', n')"
    by (metis prod_cases3)
  note al = send_offer_alive [OF so]
  have none: "pl_sender st0 = None" "pl_sink st0 \<noteq> None" "pl_session st0 \<noteq> None"
    using assms(2) by (auto simp: acquired_def split: if_splits)
  define st1 where "st1 a = st0\<lparr>pl_chan := Some c', pl_requests := n', pl_answer := a\<rparr>" for a
  have b1: "between dev w (st1 a)" "acquired (st1 a) = [Opened, SinkCreated, Launched]"
      "to_release (st1 a) = [SessionDropped, SinkDropped, IncomingDropped, ChannelDropped]" for a
    using assms al none by (auto simp: st1_def shape_defs serves_def)
  have upd: "st0\<lparr>pl_chan := Some c', pl_requests := n'\<rparr> = st1 (pl_answer st0)" by (simp add: st1_def)
  show ?thesis
  proof (cases r)
    case None
    then show ?thesis using so by (simp add: negotiate_def Let_def)
  next
    case (Some l)
    then obtain res rest where l: "r = Some (res, rest)" by (cases l) auto
    show ?thesis
    proof (cases res)
      case (Inl e)
      then have "negotiate w dev sess c st0 = bail_out w (OfferError e) (st1 (pl_answer st0))"
        using so l upd by (simp add: negotiate_def)
      then show ?thesis using phase_ok_early [OF b1(1)] b1(2,3) by simp
    next
      case (Inr answer)
      let ?s = "start (w_is_ip w) (new (sender_config dev ?offer answer))"
      have eq: "negotiate w dev sess c st0 =
          (if 0 \<notin> set (send_indexes answer) then bail_out w (NotAccepted (send_indexes answer)) (st1 (Some answer))
           else case w_bind_error w of
             Some e \<Rightarrow> bail_out w (BindError e) (st1 (Some answer))
           | None \<Rightarrow> Inr (note_effect SenderStarted ((st1 (Some answer))\<lparr>pl_sender := Some ?s\<rparr>)))"
        using so l Inr by (simp add: negotiate_def st1_def Let_def split: option.split)
      have st: "rtcp_thread ?s" "conf ?s = sender_config dev ?offer answer"
        by (simp_all add: start_def new_def Let_def)
      have "phase_ok dev w [Opened, SinkCreated, Launched, SenderStarted]
          (Inr (note_effect SenderStarted ((st1 (Some answer))\<lparr>pl_sender := Some ?s\<rparr>)))"
        if "0 \<in> set (send_indexes answer)"
        using that assms al none st by (auto simp: phase_ok_def st1_def shape_defs serves_def)
      then show ?thesis using phase_ok_early [OF b1(1)] b1(2,3)
        by (simp add: eq split: option.split)
    qed
  qed
qed

lemma send_frame_conf: "send_frame cipher oc now data s = (r, s', d) \<Longrightarrow> conf s' = conf s"
  by (auto simp: send_frame_def Let_def split: option.splits)

lemma encode_and_send_conf: "encode_and_send lib cipher i s = (s', a) \<Longrightarrow> conf (rtp s') = conf (rtp s)"
  by (auto simp: encode_and_send_def note_failure_def Let_def dest!: send_frame_conf
      split: sum.splits prod.splits if_splits capture_action.splits)

lemma capture_turn_conf: "capture_turn lib cipher i s = (s', a) \<Longrightarrow> conf (rtp s') = conf (rtp s)"
  by (auto simp: capture_turn_def Let_def dest!: encode_and_send_conf split: if_splits prod.splits bool.splits)

lemma capture_loop_conf: "capture_loop lib cipher is s = (s', as) \<Longrightarrow> conf (rtp s') = conf (rtp s)"
proof (induction "is" arbitrary: s s' as)
  case (Cons i "is")
  obtain s1 a where t: "capture_turn lib cipher i s = (s1, a)" by (metis surj_pair)
  obtain s2 bs where l: "capture_loop lib cipher is s1 = (s2, bs)" by (metis surj_pair)
  from Cons(2) t l Cons(1) [OF l] capture_turn_conf [OF t] show ?case
    by (auto split: if_splits)
qed simp

lemma capture_run_conf:
  assumes "capture_run w r s = Some (res, s')"
  shows "conf s' = conf s"
proof (cases "capture_start (w_opus w) OPUS_BITRATE r s (w_capture_at w)")
  case (Inl e)
  then show ?thesis using assms by (simp add: capture_run_def)
next
  case (Inr cs)
  obtain cs' as where l: "capture_loop (w_opus w) (w_cipher w) (w_capture_script w) cs = (cs', as)"
    by (metis surj_pair)
  have "rtp cs = s" using Inr by (auto simp: capture_start_def split: if_splits sum.splits)
  then show ?thesis using assms Inr l capture_loop_conf [OF l]
    by (auto simp: capture_run_def split: list.splits capture_action.splits)
qed

text \<open>The ring of the sink exists and is large enough for the capture loop.\<close>

lemma sink_ring:
  obtains r where "channel RING_CAPACITY_FRAMES (ucast CHANNELS) = Some r" and "capacity r = 8192"
proof -
  have "is_power_of_two 8192" unfolding is_power_of_two_iff by (intro exI [of _ 13]) simp
  moreover have "is_power_of_two 2" unfolding is_power_of_two_iff by (intro exI [of _ 1]) simp
  ultimately show ?thesis using that
    by (auto simp: channel_def RING_CAPACITY_FRAMES_def CHANNELS_def Let_def)
qed

lemma capture_turn_no_assertion:
  "capture_turn lib cipher i x = (y, a) \<Longrightarrow> a \<noteq> Failed CapacityAssertion"
  by (auto simp: capture_turn_def encode_and_send_def note_failure_def Let_def
      split: if_splits prod.splits bool.splits sum.splits capture_action.splits)

lemma capture_loop_no_assertion:
  "capture_loop lib cipher is x = (y, as) \<Longrightarrow> Failed CapacityAssertion \<notin> set as"
proof (induction "is" arbitrary: x y as)
  case (Cons i "is")
  obtain s1 a where t: "capture_turn lib cipher i x = (s1, a)" by (metis surj_pair)
  obtain s2 bs where l: "capture_loop lib cipher is s1 = (s2, bs)" by (metis surj_pair)
  from Cons(2) t l Cons(1) [OF l] capture_turn_no_assertion [OF t] show ?case
    by (auto split: if_splits)
qed simp

lemma capture_run_fits:
  assumes "channel RING_CAPACITY_FRAMES (ucast CHANNELS) = Some r"
    and "capture_run w (producer_writes bs r) s = Some (Some e, s')"
  shows "e \<noteq> CapacityAssertion"
proof (cases "capture_start (w_opus w) OPUS_BITRATE (producer_writes bs r) s (w_capture_at w)")
  case (Inl e')
  have c: "capacity_frames (producer_writes bs r) = 8192"
    using sink_ring assms(1) by (metis capacity_frames_def option.inject producer_writes_dims(2))
  have "threshold + frame_size + MAX_EXPECTED_QUANTUM \<le> 8192"
    by (simp add: threshold_def frame_size_def frames_for_ms_def DRAIN_THRESHOLD_MS_def
        OPUS_SAMPLES_PER_FRAME_def SAMPLE_RATE_def MAX_EXPECTED_QUANTUM_def)
  then have "e' \<noteq> CapacityAssertion"
    using Inl c by (auto simp: capture_start_def split: sum.splits if_splits)
  then show ?thesis using Inl assms(2) by (simp add: capture_run_def)
next
  case (Inr cs)
  obtain cs' as where l: "capture_loop (w_opus w) (w_cipher w) (w_capture_script w) cs = (cs', as)"
    by (metis surj_pair)
  with assms(2) Inr have "as \<noteq> []" "last as = Failed e"
    by (auto simp: capture_run_def split: list.splits capture_action.splits)
  then have "Failed e \<in> set as" by (metis last_in_set)
  then show ?thesis using capture_loop_no_assertion [OF l] by auto
qed

section \<open>The end of a run\<close>

lemma monitor_loop_ends: "None \<in> set rs \<Longrightarrow> \<exists>reason. monitor_loop js transport rs = Some reason"
proof (induction rs)
  case (Cons r rs)
  then show ?case by (cases r) auto
qed simp

text \<open>The state when the capture is over: \<open>pl_chan\<close> is alive when the world serves.\<close>

definition streamed :: "device \<Rightarrow> ('v, 'a, 'e) world \<Rightarrow> pipeline \<Rightarrow> bool" where
  "streamed dev w st \<longleftrightarrow> negotiated dev w st \<and> \<not> pl_incoming st \<and>
     pl_chan st \<noteq> None \<and> pl_session st \<noteq> None \<and> pl_sender st \<noteq> None \<and>
     (\<exists>s. pl_sink st = Some s \<and> quit_tx s) \<and>
     pl_trace st = [Opened, SinkCreated, Launched, SenderStarted, MonitorSpawned] \<and>
     (serves w \<longrightarrow> (\<forall>c. pl_chan st = Some c \<longrightarrow> alive c))"

lemma acquired_parts:
  "acquired st = [Opened, SinkCreated] \<Longrightarrow> pl_chan st \<noteq> None"
  "acquired st = [Opened, SinkCreated, Launched] \<Longrightarrow> pl_chan st \<noteq> None \<and> pl_session st \<noteq> None"
  "acquired st = [Opened, SinkCreated, Launched, SenderStarted] \<Longrightarrow>
     pl_chan st \<noteq> None \<and> pl_sink st \<noteq> None \<and> pl_session st \<noteq> None \<and> pl_sender st \<noteq> None"
  by (auto simp: acquired_def split: if_splits)

lemma stream_audio_ok:
  assumes "between dev w st0" and "acquired st0 = [Opened, SinkCreated, Launched, SenderStarted]"
    and "pl_chan st0 = Some c" and "pl_sink st0 = Some sk" and "pl_sender st0 = Some s"
  shows "case stream_audio w sess c sk s st0 of
      Inl (out, st) \<Rightarrow> out = Unfinished \<or>
        (\<exists>e. out = Returned (Some (HandlerError e)) \<and> ended_with dev w (Some (HandlerError e)) st \<and> pl_reports st = [])
    | Inr (res, st) \<Rightarrow> streamed dev w st \<and> res \<noteq> Some CapacityAssertion \<and> pl_session st = pl_session st0"
proof (cases "w_handler_error w")
  case (Some e)
  have "to_release st0 = [SenderDropped, SessionDropped, SinkDropped, IncomingDropped, ChannelDropped]"
    using assms(2) by (auto simp: acquired_def to_release_def split: if_splits)
  then show ?thesis using early_return_ended [OF assms(1), of "HandlerError e"] assms(2) Some
    by (auto simp: stream_audio_def)
next
  case None
  obtain r where r: "channel RING_CAPACITY_FRAMES (ucast CHANNELS) = Some r" by (rule sink_ring)
  have sk: "consumer sk = Some r" using assms(1,4) r by (simp add: between_def locals_ok_def)
  show ?thesis
  proof (cases "capture_run w (producer_writes (w_played w) r) s")
    case None
    with \<open>w_handler_error w = None\<close> sk show ?thesis
      by (simp add: stream_audio_def take_consumer_def Let_def)
  next
    case (Some rs)
    then obtain res s' where cr: "capture_run w (producer_writes (w_played w) r) s = Some (res, s')"
      by (cases rs) auto
    note cf = capture_run_conf [OF cr]
    have fits: "res \<noteq> Some CapacityAssertion" using capture_run_fits [OF r, of w "w_played w" s] cr by auto
    have "\<exists>st4. stream_audio w sess c sk s st0 = Inr (res, st4) \<and> pl_chan st4 = pl_chan st0 \<and>
        pl_sink st4 = Some (sk\<lparr>consumer := None\<rparr>) \<and> pl_session st4 = pl_session st0 \<and>
        pl_sender st4 = Some s' \<and> pl_answer st4 = pl_answer st0 \<and> \<not> pl_incoming st4 \<and>
        pl_trace st4 = pl_trace st0 @ [MonitorSpawned]"
      using \<open>w_handler_error w = None\<close> sk cr
      by (simp add: stream_audio_def take_consumer_def monitor_report_def Let_def split: option.split bool.split)
    then obtain st4 where st4: "stream_audio w sess c sk s st0 = Inr (res, st4)"
        "pl_chan st4 = pl_chan st0" "pl_sink st4 = Some (sk\<lparr>consumer := None\<rparr>)" "pl_session st4 = pl_session st0"
        "pl_sender st4 = Some s'" "pl_answer st4 = pl_answer st0" "\<not> pl_incoming st4"
        "pl_trace st4 = pl_trace st0 @ [MonitorSpawned]"
      by blast
    have "pl_session st0 \<noteq> None" using acquired_parts(3) [OF assms(2)] by simp
    then have "streamed dev w st4"
      using assms st4 cf by (simp add: streamed_def between_def locals_ok_def negotiated_def)
    then show ?thesis using st4(1,4) fits by simp
  qed
qed

lemma join_monitor_returns:
  assumes "pl_chan st = Some c" and "\<not> alive c"
  shows "join_monitor w sess st \<noteq> None"
proof -
  have "None \<in> set (monitor_events w c)" using assms(2) by (simp add: monitor_events_def)
  from monitor_loop_ends [OF this] obtain reason where
    "monitor_loop (w_json w) (transport_id sess) (monitor_events w c) = Some reason" by blast
  then show ?thesis using assms(1) by (simp add: join_monitor_def)
qed

lemma join_monitor_fields:
  assumes "join_monitor w sess st = Some st2"
  shows "pl_chan st2 = pl_chan st" "pl_sink st2 = pl_sink st" "pl_session st2 = pl_session st"
    "pl_sender st2 = pl_sender st" "pl_answer st2 = pl_answer st" "pl_incoming st2 = pl_incoming st"
    "pl_trace st2 = pl_trace st @ [MonitorJoined]"
  using assms by (auto simp: join_monitor_def monitor_report_def split: if_splits option.splits)

lemma tear_down_ok:
  assumes "streamed dev w st0" and "pl_session st0 = Some sess"
  obtains st where "tear_down w sess res st0 = (Returned (map_option CaptureError res), st)"
    and "ended_with dev w (map_option CaptureError res) st" and "pl_session st = pl_session st0"
    and "pl_sender st \<noteq> None"
proof -
  let ?st1 = "drop_pl_chan (drop_pl_session w (stop_pl_sender st0))"
  have "pl_chan (drop_pl_session w (stop_pl_sender st0)) \<noteq> None"
    using assms by (simp add: streamed_def stop_pl_sender_def)
  then obtain c1 where "pl_chan (drop_pl_session w (stop_pl_sender st0)) = Some c1" by blast
  then have c1: "pl_chan ?st1 = Some (drop_channel c1)" by simp
  have "join_monitor w sess ?st1 \<noteq> None"
    by (rule join_monitor_returns [OF c1]) simp
  then obtain st2 where st2: "join_monitor w sess ?st1 = Some st2" by blast
  note same = join_monitor_fields [OF st2]
  let ?st = "drop_pl_sender (drop_pl_sink st2)"
  have eq: "tear_down w sess res st0 = (Returned (map_option CaptureError res), ?st)"
    using st2 by (simp add: tear_down_def)
  have down: "sender_down (drop_sender (stop s))" for s
    by (simp add: drop_sender_def stop_def sender_down_def)
  have "released ?st" using assms c1 same
    by (auto simp: released_def streamed_def stop_pl_sender_def down)
  moreover have "pl_trace ?st = release_trace (map_option CaptureError res)"
    using assms same by (cases res) (auto simp: streamed_def stop_pl_sender_def)
  moreover have "negotiated dev w ?st" using assms(1) same
    by (auto simp: negotiated_def streamed_def stop_pl_sender_def stop_def)
  moreover have "serves w \<longrightarrow> said_goodbye w ?st"
  proof
    assume sv: "serves w"
    obtain c where c: "pl_chan st0 = Some c" "alive c"
      using assms(1) sv by (auto simp: streamed_def)
    then obtain c' where "pl_chan (drop_pl_session w (stop_pl_sender st0)) = Some c'"
        "outbound c' = outbound c @ goodbye w sess (pl_requests (stop_pl_sender st0))"
      using drop_pl_session_goodbye [of "stop_pl_sender st0" sess c w] sv assms(2)
      by (auto simp: stop_pl_sender_def serves_def)
    then show "said_goodbye w ?st" using same assms(2)
      by (auto simp: said_goodbye_def stop_pl_sender_def)
  qed
  moreover have "pl_session ?st = pl_session st0" "pl_sender ?st \<noteq> None"
    using same assms(1) by (auto simp: stop_pl_sender_def streamed_def)
  ultimately show ?thesis using that [OF eq] by (simp add: ended_with_def)
qed

lemma negotiate_session: "negotiate w dev sess c st = Inr st' \<Longrightarrow> pl_session st' = pl_session st"
  by (auto simp: negotiate_def bail_out_def Let_def split: option.splits prod.splits sum.splits if_splits)

section \<open>What the user is told\<close>

text \<open>
  At most one report, and only the early monitor of an uninterrupted run makes one before the
  capture result is claimed.
\<close>

definition quiet :: "('v, 'a, 'e) world \<Rightarrow> capture_error option \<Rightarrow> pipeline \<Rightarrow> bool" where
  "quiet w res st \<longleftrightarrow>
     (pl_reports st = [] \<or> w_monitor_early w \<and> \<not> w_interrupted w \<and> pl_stop st \<and> length (pl_reports st) = 1) \<and>
     (res \<noteq> None \<or> w_interrupted w \<longrightarrow> pl_stop st)"

lemma stream_audio_quiet:
  assumes "stream_audio w sess c sk s st0 = Inr (res, st)" and "pl_reports st0 = []"
  shows "quiet w res st"
proof -
  from assms(1) obtain r sk' s' where h: "w_handler_error w = None" "take_consumer sk = (Some r, sk')"
      and cr: "capture_run w (producer_writes (w_played w) r) s = Some (res, s')"
    by (cases "w_handler_error w"; cases "take_consumer sk"; cases "fst (take_consumer sk)")
      (auto simp: stream_audio_def Let_def split: option.splits)
  define st2 where "st2 = (note_effect MonitorSpawned (st0\<lparr>pl_incoming := False, pl_stop := w_interrupted w\<rparr>))
      \<lparr>pl_sink := Some sk', pl_sender := Some s'\<rparr>"
  define st3 where "st3 = (case (w_monitor_early w,
      monitor_loop (w_json w) (transport_id sess) (monitor_events w (attend w AtTeardown c))) of
        (True, Some reason) \<Rightarrow> monitor_report reason st2 | _ \<Rightarrow> st2)"
  have eq: "st = (if res \<noteq> None then st3\<lparr>pl_stop := True\<rparr> else st3)"
    using assms(1) h cr unfolding stream_audio_def st3_def st2_def Let_def by auto
  have "pl_reports st2 = []" "pl_stop st2 = w_interrupted w" using assms(2) by (simp_all add: st2_def)
  then have "quiet w None st3"
    by (auto simp: st3_def quiet_def monitor_report_def split: option.split bool.split)
  then show ?thesis by (auto simp: eq quiet_def)
qed

lemma join_monitor_quiet:
  assumes "join_monitor w sess st = Some st2" and "quiet w res st"
  shows "length (pl_reports st2) \<le> 1" and "w_interrupted w \<Longrightarrow> pl_reports st2 = []"
    and "res \<noteq> None \<Longrightarrow> \<not> w_monitor_early w \<Longrightarrow> pl_reports st2 = []"
proof -
  from assms(1) consider "st2 = note_effect MonitorJoined st"
    | reason where "st2 = note_effect MonitorJoined (monitor_report reason st)"
    by (auto simp: join_monitor_def split: if_splits option.splits)
  then have "pl_reports st2 = pl_reports st \<or> \<not> pl_stop st \<and> (\<exists>reason. pl_reports st2 = pl_reports st @ [reason])"
    by cases (simp_all add: monitor_report_def)
  with assms(2) show "length (pl_reports st2) \<le> 1" "w_interrupted w \<Longrightarrow> pl_reports st2 = []"
      "res \<noteq> None \<Longrightarrow> \<not> w_monitor_early w \<Longrightarrow> pl_reports st2 = []"
    unfolding quiet_def by auto
qed

lemma tear_down_quiet:
  assumes "tear_down w sess res st0 = (Returned err, st)" and "quiet w res st0"
  shows "length (pl_reports st) \<le> 1 \<and> (w_interrupted w \<longrightarrow> pl_reports st = []) \<and>
    (res \<noteq> None \<and> \<not> w_monitor_early w \<longrightarrow> pl_reports st = []) \<and> err = map_option CaptureError res"
proof -
  let ?st1 = "drop_pl_chan (drop_pl_session w (stop_pl_sender st0))"
  obtain st2 where j: "join_monitor w sess ?st1 = Some st2"
      and st: "st = drop_pl_sender (drop_pl_sink st2)" "err = map_option CaptureError res"
    using assms(1) by (auto simp: tear_down_def Let_def split: option.splits)
  have "quiet w res ?st1" using assms(2) by (simp add: quiet_def stop_pl_sender_def)
  note q = join_monitor_quiet [OF j this]
  have "pl_reports st = pl_reports st2" by (simp add: st)
  with q st(2) show ?thesis by auto
qed

definition told_once :: "('v, 'a, 'e) world \<Rightarrow> pipeline_error option \<Rightarrow> pipeline \<Rightarrow> bool" where
  "told_once w err st \<longleftrightarrow> length (pl_reports st) \<le> 1 \<and> (w_interrupted w \<longrightarrow> pl_reports st = []) \<and>
     (err \<noteq> None \<and> \<not> w_monitor_early w \<longrightarrow> pl_reports st = [])"

section \<open>The whole run\<close>

text \<open>Every run is unfinished or ends as its result says, and never for want of a ring.\<close>

definition good_end :: "device \<Rightarrow> ('v, 'a, 'e) world \<Rightarrow> outcome \<times> pipeline \<Rightarrow> bool" where
  "good_end dev w r \<longleftrightarrow>
     (case r of (out, st) \<Rightarrow> out = Unfinished \<or>
        (\<exists>err. out = Returned err \<and> ended_with dev w err st \<and> told_once w err st \<and>
           err \<noteq> Some (CaptureError CapacityAssertion)))"

lemma phase_ok_end: "phase_ok dev w effs (Inl r) \<Longrightarrow> good_end dev w r"
  by (auto simp: phase_ok_def good_end_def told_once_def)

lemma run_ends: "good_end dev w (run_with_device w n dev)"
proof (cases "open_device w dev (pl_start n)")
  case (Inl r)
  then show ?thesis using open_device_ok [of dev w n] by (simp add: run_with_device_def phase_ok_end)
next
  case (Inr st1)
  note r1 = Inr
  from open_device_ok [of dev w n] Inr have b1: "between dev w st1" "acquired st1 = [Opened, SinkCreated]"
    by (simp_all add: phase_ok_def)
  then obtain c1 where c1: "pl_chan st1 = Some c1" using acquired_parts(1) by auto
  note p2 = launch_session_ok [OF b1 c1]
  show ?thesis
  proof (cases "launch_session w dev c1 st1")
    case (Inl r)
    then show ?thesis using p2 r1 c1 by (simp add: run_with_device_def phase_ok_end)
  next
    case (Inr st2)
    note r2 = Inr
    from p2 Inr have b2: "between dev w st2" "acquired st2 = [Opened, SinkCreated, Launched]"
      by (simp_all add: phase_ok_def)
    then obtain c2 sess where c2: "pl_chan st2 = Some c2" "pl_session st2 = Some sess"
      using acquired_parts(2) by blast
    note p3 = negotiate_ok [OF b2 c2(1), of sess]
    show ?thesis
    proof (cases "negotiate w dev sess c2 st2")
      case (Inl r)
      then show ?thesis using p3 r1 r2 c1 c2 by (simp add: run_with_device_def phase_ok_end)
    next
      case (Inr st3)
      from p3 Inr have b3: "between dev w st3" "acquired st3 = [Opened, SinkCreated, Launched, SenderStarted]"
        by (simp_all add: phase_ok_def)
      then obtain c3 sk s where c3: "pl_chan st3 = Some c3" "pl_sink st3 = Some sk" "pl_sender st3 = Some s"
        using acquired_parts(3) by blast
      have eq: "run_with_device w n dev =
          (case stream_audio w sess c3 sk s st3 of Inl x \<Rightarrow> x | Inr (res, st4) \<Rightarrow> tear_down w sess res st4)"
        using r1 r2 Inr c1 c2 c3 by (simp add: run_with_device_def)
      have se: "pl_session st3 = Some sess" using negotiate_session [OF Inr] c2 by simp
      note p4 = stream_audio_ok [OF b3 c3, of sess]
      show ?thesis
      proof (cases "stream_audio w sess c3 sk s st3")
        case (Inl r)
        with p4 eq show ?thesis by (cases r) (auto simp: good_end_def told_once_def)
      next
        case (Inr rs)
        then obtain res st4 where rs: "stream_audio w sess c3 sk s st3 = Inr (res, st4)" by (cases rs) auto
        with p4 have b4: "streamed dev w st4" "res \<noteq> Some CapacityAssertion" "pl_session st4 = Some sess"
          using se by simp_all
        obtain st where t: "tear_down w sess res st4 = (Returned (map_option CaptureError res), st)"
            "ended_with dev w (map_option CaptureError res) st"
          by (rule tear_down_ok [OF b4(1,3)])
        have "pl_reports st3 = []" using b3(1) by (simp add: between_def locals_ok_def)
        from tear_down_quiet [OF t(1) stream_audio_quiet [OF rs this]]
        have "told_once w (map_option CaptureError res) st" by (simp add: told_once_def)
        with eq rs b4(2) t show ?thesis by (auto simp: good_end_def)
      qed
    qed
  qed
qed

section \<open>A run for the witnesses\<close>

definition demo_device :: device where
  "demo_device = \<lparr>friendly_name = ''Kitchen'', model = None, host = ''10.0.0.7'', port = 8009, is_audio_only = True\<rparr>"

definition demo_session :: mirroring_session where
  "demo_session = \<lparr>transport_id = ''t-1'', session_id = ''s-1''\<rparr>"

text \<open>One captured turn, then Ctrl+C.\<close>

definition demo_world :: "(json_tree, nat, unit) world" where
  "demo_world = \<lparr>w_json = demo_texts, w_sender_id = ''me'', w_version = ''1.0'', w_hex = (\<lambda>_. ''00''),
     w_addrs = Some [0], w_dial = (\<lambda>_. None), w_tls = (\<lambda>_. True), w_fates = [],
     w_connect_at = 0, w_sink_ready = ReadyGot ReadyOk, w_serving = (\<lambda>_. True), w_launch_at = 0,
     w_launch_script = demo_script, w_key = replicate 16 7, w_iv_mask = replicate 16 9, w_ssrc_draw = 42,
     w_offer_at = 3,
     w_offer_script = [(4, Msg \<lparr>source = ''t-1'', destination = ''me'', namespace = NS_WEBRTC, payload = ''ANSWER''\<rparr>)],
     w_bind_error = None, w_is_ip = (\<lambda>_. True), w_handler_error = None, w_monitor_msgs = [],
     w_monitor_early = False, w_interrupted = True, w_played = [], w_opus = demo_lib,
     w_cipher = (\<lambda>_ _ d. d), w_capture_at = 5,
     w_capture_script = [demo_tick 6 None\<lparr>stop_requested := True\<rparr>]\<rparr>"

lemma demo_open:
  obtains st c where "open_device demo_world demo_device (pl_start 7) = Inr st" and "pl_chan st = Some c"
    and "alive c" and "pl_requests st = 7"
proof -
  have wm: "write_message m \<lparr>wire = [], fates = []\<rparr> = (True, \<lparr>wire = frame_bytes m, fates = []\<rparr>)" for m
    by (simp add: write_message_def write_all_def flush_def next_fate_def Let_def frame_bytes_def)
  obtain c d where cn: "connect demo_texts False ''1.0'' ''me'' (Some [0]) (\<lambda>_. None) (\<lambda>_. True) [] 0 = Inr (0 :: nat, c, d)"
    by (simp add: connect_def tls_steps_def wm Let_def)
  obtain r where r: "channel RING_CAPACITY_FRAMES (ucast CHANNELS) = Some r" by (rule sink_ring)
  show ?thesis
    by (rule that [where c = c]) (simp add: open_device_def demo_world_def cn sink_new_def r Let_def, simp_all add: connect_alive [OF cn])
qed

lemma demo_launch:
  assumes "alive c" and "pl_requests st = 7"
  obtains st' c' where "launch_session demo_world demo_device c st = Inr st'" and "pl_chan st' = Some c'"
    and "alive c'" and "pl_session st' = Some demo_session"
proof -
  have w: "wait_for_json_message demo_texts NS_RECEIVER (0 + TIMEOUT)
      (launch_reply demo_texts 7 (app_id AudioOnly)) demo_script = Some (Inr demo_session, [])"
    by (simp add: demo_script_def demo_texts_def demo_serde_def launch_reply_def get_str_def get_u64_def
        demo_status_def tree_pointer_def session_of_app_def APP_MIRRORING_AUDIO_ONLY_def secs_def TIMEOUT_def
        demo_session_def)
  have dw: "w_json demo_world = demo_texts" "w_launch_at demo_world = 0" "w_launch_script demo_world = demo_script"
      "is_audio_only demo_device" "w_serving demo_world g" for g
    by (simp_all add: demo_world_def demo_device_def)
  have "\<exists>st'. launch_session demo_world demo_device c st = Inr st' \<and> (\<exists>c'. pl_chan st' = Some c' \<and> alive c') \<and>
      pl_session st' = Some demo_session"
    using assms by (simp add: launch_session_def launch_mirroring_def new_request_id_def dw
        w [simplified] send_json_cases connect_transport_def Let_def)
  then show ?thesis using that by blast
qed

lemma demo_negotiate:
  assumes "alive c"
  obtains st' where "negotiate demo_world demo_device demo_session c st = Inr st'"
proof -
  have w: "wait_for_json_message demo_texts NS_WEBRTC (3 + TIMEOUT) (answer_reply demo_texts)
      [(4, Msg \<lparr>source = ''t-1'', destination = ''me'', namespace = NS_WEBRTC, payload = ''ANSWER''\<rparr>)] =
      Some (Inr \<lparr>answer_port = 44321, send_indexes = [0]\<rparr>, [])"
    by (simp add: demo_texts_def demo_serde_def answer_reply_def get_str_def get_u64_def demo_answer_def
        parse_answer_def secs_def TIMEOUT_def)
  have dw: "w_json demo_world = demo_texts" "w_offer_at demo_world = 3" "w_serving demo_world g"
      "w_offer_script demo_world =
         [(4, Msg \<lparr>source = ''t-1'', destination = ''me'', namespace = NS_WEBRTC, payload = ''ANSWER''\<rparr>)]"
      "w_bind_error demo_world = None" for g
    by (simp_all add: demo_world_def)
  let ?offer = "default_offer (w_key demo_world) (w_iv_mask demo_world) (w_ssrc_draw demo_world)"
  have "\<exists>c' n. send_offer (w_json demo_world) (w_hex demo_world) (w_sender_id demo_world) (transport_id demo_session)
      ?offer TIMEOUT (w_offer_at demo_world) (w_offer_script demo_world) (attend demo_world AtOffer c) (pl_requests st) =
      (Some (Inr \<lparr>answer_port = 44321, send_indexes = [0]\<rparr>, []), c', n)"
    unfolding send_offer_def new_request_id_def Let_def prod.case dw w
    using assms by (simp add: send_json_cases dw)
  then obtain c' n where so: "send_offer (w_json demo_world) (w_hex demo_world) (w_sender_id demo_world)
      (transport_id demo_session) ?offer TIMEOUT (w_offer_at demo_world) (w_offer_script demo_world)
      (attend demo_world AtOffer c) (pl_requests st) =
      (Some (Inr \<lparr>answer_port = 44321, send_indexes = [0]\<rparr>, []), c', n)" by blast
  show ?thesis by (rule that) (simp add: negotiate_def so dw(5) Let_def)
qed

lemma demo_stream:
  assumes "consumer sk = channel RING_CAPACITY_FRAMES (ucast CHANNELS)"
  obtains st' where "stream_audio demo_world sess c sk s st = Inr (None, st')"
proof -
  obtain r where r: "channel RING_CAPACITY_FRAMES (ucast CHANNELS) = Some r" "capacity r = 8192" by (rule sink_ring)
  have "threshold + frame_size + MAX_EXPECTED_QUANTUM \<le> 8192"
    by (simp add: threshold_def frame_size_def frames_for_ms_def DRAIN_THRESHOLD_MS_def
        OPUS_SAMPLES_PER_FRAME_def SAMPLE_RATE_def MAX_EXPECTED_QUANTUM_def)
  then obtain cs where cs: "capture_start demo_lib OPUS_BITRATE r s 5 = Inr cs"
    using r(2) by (simp add: capture_start_def capacity_frames_def opus_new_def CHANNELS_def demo_lib_def)
  have dw: "w_opus demo_world = demo_lib" "w_capture_at demo_world = 5" "w_handler_error demo_world = None"
      "w_capture_script demo_world = [demo_tick 6 None\<lparr>stop_requested := True\<rparr>]"
      "w_played demo_world = []" "w_monitor_early demo_world = False"
    by (simp_all add: demo_world_def)
  obtain cs' where "capture_turn demo_lib (w_cipher demo_world) (demo_tick 6 None\<lparr>stop_requested := True\<rparr>) cs
      = (cs', Stopped)"
    by (simp add: capture_turn_def Let_def)
  then have "capture_run demo_world (producer_writes [] r) s = Some (None, rtp cs')"
    using cs by (simp add: capture_run_def dw producer_writes_def going_on_def Let_def)
  with assms r(1) that show ?thesis
    by (simp add: stream_audio_def take_consumer_def dw Let_def)
qed

lemma demo_run:
  obtains st where "run_with_device demo_world 7 demo_device = (Returned None, st)" and "pl_session st = Some demo_session"
    and "pl_sender st \<noteq> None"
proof -
  obtain st1 c1 where o: "open_device demo_world demo_device (pl_start 7) = Inr st1" "pl_chan st1 = Some c1"
      "alive c1" "pl_requests st1 = 7" by (rule demo_open)
  obtain st2 c2 where l: "launch_session demo_world demo_device c1 st1 = Inr st2" "pl_chan st2 = Some c2"
      "alive c2" "pl_session st2 = Some demo_session" by (rule demo_launch [OF o(3,4)])
  obtain st3 where n: "negotiate demo_world demo_device demo_session c2 st2 = Inr st3"
    by (rule demo_negotiate [OF l(3)])
  have b1: "between demo_device demo_world st1" "acquired st1 = [Opened, SinkCreated]"
    using open_device_ok [of demo_device demo_world 7] o(1) by (simp_all add: phase_ok_def)
  have b2: "between demo_device demo_world st2" "acquired st2 = [Opened, SinkCreated, Launched]"
    using launch_session_ok [OF b1 o(2)] l(1) by (simp_all add: phase_ok_def)
  have b3: "between demo_device demo_world st3" "acquired st3 = [Opened, SinkCreated, Launched, SenderStarted]"
    using negotiate_ok [OF b2 l(2), of demo_session] n by (simp_all add: phase_ok_def)
  obtain c3 sk s where c3: "pl_chan st3 = Some c3" "pl_sink st3 = Some sk" "pl_sender st3 = Some s"
    using acquired_parts(3) [OF b3(2)] by blast
  have "consumer sk = channel RING_CAPACITY_FRAMES (ucast CHANNELS)"
    using b3(1) c3(2) by (simp add: between_def locals_ok_def)
  then obtain st4 where s: "stream_audio demo_world demo_session c3 sk s st3 = Inr (None, st4)" by (rule demo_stream)
  have se: "pl_session st3 = Some demo_session" using negotiate_session [OF n] l(4) by simp
  have b4: "streamed demo_device demo_world st4" "pl_session st4 = Some demo_session"
    using stream_audio_ok [OF b3 c3, of demo_session] s se by simp_all
  obtain st where t: "tear_down demo_world demo_session None st4 = (Returned None, st)"
      "pl_session st = pl_session st4" "pl_sender st \<noteq> None"
    by (rule tear_down_ok [OF b4, of None, simplified option.map])
  have "run_with_device demo_world 7 demo_device = (Returned None, st)"
    using o l n c3 s t by (simp add: run_with_device_def)
  moreover have "pl_session st = Some demo_session"
    using t(2) b4(2) by simp
  ultimately show ?thesis using t(3) by (rule that)
qed

section \<open>Properties\<close>

text \<open>
  C33: Whatever the world does, a run that comes to an end has not panicked and not hung, has
  released everything it acquired, and in the right order: threads are joined, the sink is told to
  quit, the session is dropped before the channel it speaks over, and the channel before the
  monitor is joined. Which releases happen is determined by the result alone. The capture loop
  never finds the ring of the sink too small.
\<close>

theorem run_releases_everything:
  "case run_with_device w requests dev of (out, st) \<Rightarrow>
     out = Unfinished \<or>
     (\<exists>err. out = Returned err \<and> released st \<and> pl_trace st = release_trace err \<and>
        err \<noteq> Some (CaptureError CapacityAssertion))"
  using run_ends [of dev w requests] by (auto simp: good_end_def ended_with_def)

text \<open>
  C34: Once the application is launched, every way out of the run unloads it: while the dispatcher
  serves the channel, the last three messages sent are STOP for the launched session and the CLOSE
  of both virtual connections.
\<close>

theorem every_exit_unloads:
  assumes "run_with_device w requests dev = (Returned err, st)" and "pl_session st = Some s"
    and "\<forall>stg. w_serving w stg"
  shows "\<exists>c pre n. pl_chan st = Some c \<and> outbound c = pre @
    [\<lparr>source = w_sender_id w, destination = PLATFORM_RECEIVER_ID, namespace = NS_RECEIVER,
       payload = to_text (w_json w) (stop_payload (w_json w) n (session_id s))\<rparr>,
     \<lparr>source = w_sender_id w, destination = transport_id s, namespace = NS_CONNECTION,
       payload = to_text (w_json w) (close_payload (w_json w))\<rparr>,
     \<lparr>source = w_sender_id w, destination = PLATFORM_RECEIVER_ID, namespace = NS_CONNECTION,
       payload = to_text (w_json w) (close_payload (w_json w))\<rparr>]"
proof -
  have "said_goodbye w st"
    using run_ends [of dev w requests] assms by (auto simp: good_end_def ended_with_def serves_def)
  with assms(2) show ?thesis by (simp add: said_goodbye_def goodbye_def)
qed

theorem every_exit_unloads_witness:
  "\<exists>st c pre. run_with_device demo_world 7 demo_device = (Returned None, st) \<and> pl_chan st = Some c \<and>
     last (outbound c) = \<lparr>source = ''me'', destination = PLATFORM_RECEIVER_ID, namespace = NS_CONNECTION,
       payload = to_text demo_texts (close_payload demo_texts)\<rparr>"
proof -
  obtain st where st: "run_with_device demo_world 7 demo_device = (Returned None, st)" "pl_session st = Some demo_session"
    by (rule demo_run)
  have sv: "\<forall>stg. w_serving demo_world stg" and dw: "w_json demo_world = demo_texts" "w_sender_id demo_world = ''me''"
    by (simp_all add: demo_world_def)
  from every_exit_unloads [OF st sv] st(1) show ?thesis by (auto simp: dw)
qed

text \<open>
  The user hears one cause at most. The monitor prints at most once; not at all when a signal
  stopped the run, nor when the capture failed before the monitor had noticed anything, although
  the shutdown itself then ends the connection the monitor listens on.
\<close>

theorem one_cause_reported:
  assumes "run_with_device w requests dev = (Returned err, st)"
  shows "length (pl_reports st) \<le> 1 \<and> (w_interrupted w \<longrightarrow> pl_reports st = []) \<and>
    (err \<noteq> None \<and> \<not> w_monitor_early w \<longrightarrow> pl_reports st = [])"
  using run_ends [of dev w requests] assms by (auto simp: good_end_def told_once_def)

theorem one_cause_reported_witness:
  "\<exists>st. run_with_device demo_world 7 demo_device = (Returned None, st) \<and> pl_reports st = []"
proof -
  obtain st where st: "run_with_device demo_world 7 demo_device = (Returned None, st)" "pl_session st = Some demo_session"
    by (rule demo_run)
  have "w_interrupted demo_world" by (simp add: demo_world_def)
  with one_cause_reported [OF st(1)] st(1) show ?thesis by auto
qed

text \<open>
  C35: Audio is sent only as negotiated. A run that came to have a sender got an answer that accepts
  stream 0, and the sender goes to the device's address and the answer's port, with the key, mask
  and ssrc of the offer it made; the payload type is the crate's.
\<close>

theorem sends_as_negotiated:
  assumes "run_with_device w requests dev = (Returned err, st)" and "pl_sender st = Some s"
  shows "\<exists>answer. pl_answer st = Some answer \<and> 0 \<in> set (send_indexes answer) \<and>
    conf s = \<lparr>chromecast_host = host dev, udp_port = answer_port answer,
      ssrc = w_ssrc_draw w AND 0x7FFFFFFF OR 1, payload_type = 127,
      aes_key = w_key w, aes_iv_mask = w_iv_mask w\<rparr>"
proof -
  have "negotiated dev w st"
    using run_ends [of dev w requests] assms by (auto simp: good_end_def ended_with_def)
  with assms(2) show ?thesis
    by (auto simp: negotiated_def sender_config_def default_offer_def RTP_PAYLOAD_TYPE_def)
qed

theorem sends_as_negotiated_witness:
  "\<exists>st s. run_with_device demo_world 7 demo_device = (Returned None, st) \<and> pl_sender st = Some s \<and>
     ssrc (conf s) = 43 \<and> chromecast_host (conf s) = ''10.0.0.7''"
proof -
  obtain st where st: "run_with_device demo_world 7 demo_device = (Returned None, st)" "pl_sender st \<noteq> None"
    by (rule demo_run)
  then obtain s where s: "pl_sender st = Some s" by blast
  from sends_as_negotiated [OF st(1) s] st(1) s show ?thesis
    by (auto simp: demo_world_def demo_device_def)
qed

lemma exit_code_zero:
  "exit_code r = Some 0 \<longleftrightarrow> (\<exists>st. r = Inr (Returned None, st))"
  by (auto simp: exit_code_def split: sum.splits prod.splits outcome.splits option.splits)

lemma filter_Cons_first:
  "filter P xs = y # ys \<Longrightarrow> \<exists>us vs. xs = us @ y # vs \<and> list_all (\<lambda>x. \<not> P x) us \<and> P y"
  unfolding filter_eq_Cons_iff by (auto simp: list_all_iff)

lemma resolve_ipv4_first:
  "resolve_ipv4 hostname resolved = Inr ip \<longleftrightarrow>
     (\<exists>v6 rest. resolved = Some (v6 @ ip # rest) \<and> list_all (\<lambda>a. \<exists>gs. a = V6 gs) v6 \<and>
        (\<exists>x y z t. ip = V4 x y z t))"
proof -
  define v4 where "v4 a = (case a of V4 _ _ _ _ \<Rightarrow> True | V6 _ \<Rightarrow> False)" for a
  have v4: "v4 a \<longleftrightarrow> (\<exists>x y z t. a = V4 x y z t)" "\<not> v4 a \<longleftrightarrow> (\<exists>gs. a = V6 gs)" for a
    by (cases a; simp add: v4_def)+
  have "resolve_ipv4 hostname resolved = Inr ip \<longleftrightarrow> (\<exists>as ys. resolved = Some as \<and> filter v4 as = ip # ys)"
    by (auto simp: resolve_ipv4_def v4_def [abs_def] split: option.splits list.splits)
  also have "\<dots> \<longleftrightarrow> (\<exists>us vs. resolved = Some (us @ ip # vs) \<and> list_all (\<lambda>x. \<not> v4 x) us \<and> v4 ip)"
    by (auto dest!: filter_Cons_first) (auto simp: list_all_iff filter_empty_conv)
  finally have "resolve_ipv4 hostname resolved = Inr ip \<longleftrightarrow>
      (\<exists>us vs. resolved = Some (us @ ip # vs) \<and> list_all (\<lambda>x. \<not> v4 x) us \<and> v4 ip)" .
  then show ?thesis unfolding v4(2) unfolding v4(1) .
qed

end
