(* ===== verification/Command_Line.thy ===== *)
theory Command_Line
  imports Run_Properties Virtual_Sink_Windows
begin

text \<open>
  \<open>src/main.rs\<close>: the parsed command line and what \<open>main\<close> does with it. \<open>clap\<close> parses the options and
  enforces their constraints. Two options exist only in a Windows build. \<open>--list-devices\<close> lists the
  playback devices, with the model of \<open>Virtual_Sink_Windows\<close>, and starts no session.
  \<open>--capture-device\<close> names the device whose sound is cast; the world of a session depends on it
  (\<open>None\<close>: the default playback device, and the only case of the other builds).
\<close>

record windows_options =
  opt_capture_device :: "string option"
  opt_list_devices :: bool

text \<open>\<open>cli_windows\<close> is \<open>None\<close> in a build for another system, which has no such options.\<close>

record cli =
  cli_device :: "string option"
  cli_host :: "string option"
  cli_port :: u16
  cli_windows :: "windows_options option"
  cli_verbose :: bool

definition log_level :: "cli \<Rightarrow> string" where
  "log_level args = (if cli_verbose args then ''debug'' else ''warn'')"

definition list_devices_exit :: "(com_error + endpoint_error) + string list \<Rightarrow> nat" where
  "list_devices_exit r = (case r of Inl _ \<Rightarrow> 1 | Inr names \<Rightarrow> 0)"

definition lists_devices :: "cli \<Rightarrow> bool" where
  "lists_devices args = (case cli_windows args of None \<Rightarrow> False | Some opts \<Rightarrow> opt_list_devices opts)"

definition capture_device :: "cli \<Rightarrow> string option" where
  "capture_device args = Option.bind (cli_windows args) opt_capture_device"

text \<open>
  \<open>main\<close>: the exit code, \<open>None\<close> while the program runs (or when it panicked or hangs). \<open>co_init\<close> and
  \<open>sys\<close> are the answers of COM, \<open>n\<close> the apartments the thread has entered before.
\<close>

definition main ::
  "(string option \<Rightarrow> ('v, 'a, 'e) world) \<Rightarrow> u64 \<Rightarrow> bool \<Rightarrow> nanos \<Rightarrow> (nanos \<times> service_event \<times> nanos) list \<Rightarrow>
     ip_addr list option \<Rightarrow> com_error option \<Rightarrow> 'd audio_system \<Rightarrow> nat \<Rightarrow> cli \<Rightarrow> nat option" where
  "main w requests daemon_ok now browse_script resolved co_init sys n args =
     (if lists_devices args then Some (list_devices_exit (fst (list_capture_devices co_init sys n)))
      else case cli_host args of
        Some hostname \<Rightarrow>
          exit_code (run_with_host (w (capture_device args)) requests resolved hostname (cli_port args))
      | None \<Rightarrow>
          Option.bind (run (w (capture_device args)) requests daemon_ok now browse_script (cli_device args))
            exit_code)"

text \<open>
  C36: The program exits with 0 exactly when it did what it was asked for. Asked to list the playback
  devices (Windows): when the list could be had. Otherwise: when it settled on one device and a
  session with it ended without an error. With \<open>--host\<close> the device is the first IPv4 address the host
  resolves to, as an audio-only receiver on the given port; without it discovery must come back with
  a single device.
\<close>

theorem exits_with_zero:
  "main w requests daemon_ok now browse_script resolved co_init sys n args = Some 0 \<longleftrightarrow>
   (if lists_devices args then co_init = None \<and> (\<exists>found. render_endpoints sys = Inr found)
    else \<exists>dev st. run_with_device (w (capture_device args)) requests dev = (Returned None, st) \<and>
     (case cli_host args of
        None \<Rightarrow> discover daemon_ok (cli_device args) (secs 10) now browse_script = Some (Inr [dev])
      | Some hostname \<Rightarrow> \<exists>v6 ip rest. resolved = Some (v6 @ ip # rest) \<and>
          list_all (\<lambda>a. \<exists>gs. a = V6 gs) v6 \<and> (\<exists>x y z t. ip = V4 x y z t) \<and>
          dev = \<lparr>friendly_name = hostname @ '':'' @ digits (unat (cli_port args)), model = None,
            host = ip_string ip, port = cli_port args, is_audio_only = True\<rparr>))"
proof (cases "lists_devices args")
  case True
  then show ?thesis
    by (auto simp: main_def list_devices_exit_def list_capture_devices_def mta_enter_def
        split: option.splits sum.splits)
next
  case False
  let ?w = "w (capture_device args)"
  show ?thesis
  proof (cases "cli_host args")
    case None
    have one: "run ?w requests daemon_ok now browse_script name = Some r \<and> exit_code r = Some 0 \<longleftrightarrow>
        (\<exists>dev st. discover daemon_ok name TIMEOUT now browse_script = Some (Inr [dev]) \<and>
           run_with_device ?w requests dev = (Returned None, st) \<and> r = Inr (Returned None, st))" for name r
      by (auto simp: run_def pick_device_def exit_code_zero length_Suc_conv split: option.splits sum.splits if_splits)
    show ?thesis using None False by (auto simp: main_def bind_eq_Some_conv one TIMEOUT_def)
  next
    case (Some hostname)
    have "exit_code (run_with_host ?w requests resolved hostname p) = Some 0 \<longleftrightarrow>
        (\<exists>ip. resolve_ipv4 hostname resolved = Inr ip \<and>
          (\<exists>st. run_with_device ?w requests (host_device hostname p ip) = (Returned None, st)))" for p
      by (cases "resolve_ipv4 hostname resolved") (simp_all add: run_with_host_def exit_code_zero)
    then show ?thesis using Some False unfolding resolve_ipv4_first by (simp add: main_def host_device_def) blast
  qed
qed

end
