(* ===== verification/Session_Threads.thy ===== *)
theory Session_Threads
  imports Run_Properties
begin

text \<open>
  The streaming part of \<open>run_with_device\<close> in \<open>src/pipeline.rs\<close> as the threads run it: the main
  thread, which captures and then tears the session down, and the session monitor, which meet in
  the flag \<open>stop\<close>, with the outside (the signal handler, and the dispatcher that forwards messages
  or ends) interleaved at will. \<open>Pipeline\<close> runs the same code with the monitor's timing as part
  of the script of the world; \<open>interleavings_are_scripted\<close> shows that these scripts miss nothing.

  A turn of the capture loop is one step, at its load of the flag: it does not look at the flag
  again. \<open>heard\<close>, \<open>signalled\<close> and \<open>died\<close> are ghost fields, which no guard reads: what the monitor
  took out of the channel, whether a signal came, and whether the dispatcher ended by itself, not by
  the main thread's drop of the channel.
\<close>

section \<open>Threads\<close>

text \<open>What the main thread does next, and the capture result from its return on.\<close>

datatype 'e main_pc =
    AtTake | AtStart audio_ring | InLoop "'e capture" | AtClaim "capture_error option"
  | AtSenderStop "capture_error option" | AtSessionDrop "capture_error option"
  | AtChannelDrop "capture_error option" | AtJoin "capture_error option"
  | AtSinkDrop "capture_error option" | Ended "capture_error option" | Crashed

datatype monitor_pc = Listening | Found monitor_reason | MonitorEnded

record 'e threads =
  pl :: pipeline
  main_at :: "'e main_pc"
  monitor_at :: monitor_pc
  forwarded :: "cast_message list"
  heard :: "cast_message list"
  signalled :: bool
  died :: bool

datatype thread = Main | Monitor | Outside

text \<open>The dispatcher is alive: it holds the sender of the monitor's channel.\<close>

definition dispatching :: "pipeline \<Rightarrow> bool" where
  "dispatching st = (case pl_chan st of Some c \<Rightarrow> alive c | None \<Rightarrow> False)"

definition closes_session :: "'v serde \<Rightarrow> string \<Rightarrow> cast_message \<Rightarrow> bool" where
  "closes_session js transport msg \<longleftrightarrow>
     namespace msg = NS_CONNECTION \<and> source msg = transport \<and> payload_type_is js (payload msg) ''CLOSE''"

text \<open>The world whose dispatcher dies only by the steps below.\<close>

definition serving :: "('v, 'a, 'e) world \<Rightarrow> ('v, 'a, 'e) world" where
  "serving w = w\<lparr>w_serving := \<lambda>_. True\<rparr>"

inductive session_step ::
  "('v, 'a, 'e) world \<Rightarrow> mirroring_session \<Rightarrow> thread \<Rightarrow> 'e threads \<Rightarrow> 'e threads \<Rightarrow> bool" for w sess where
  m_take: "main_at s = AtTake \<Longrightarrow> pl_sink (pl s) = Some sk \<Longrightarrow> take_consumer sk = (Some r, sk') \<Longrightarrow>
    session_step w sess Main s (s\<lparr>pl := (pl s)\<lparr>pl_sink := Some sk'\<rparr>, main_at := AtStart r\<rparr>)"
| m_take_twice: "main_at s = AtTake \<Longrightarrow> pl_sink (pl s) = Some sk \<Longrightarrow> take_consumer sk = (None, sk') \<Longrightarrow>
    session_step w sess Main s (s\<lparr>main_at := Crashed\<rparr>)"
| m_start: "main_at s = AtStart r \<Longrightarrow> pl_sender (pl s) = Some snd0 \<Longrightarrow>
    capture_start (w_opus w) OPUS_BITRATE (producer_writes chunks r) snd0 now = Inr cs \<Longrightarrow>
    session_step w sess Main s (s\<lparr>main_at := InLoop cs\<rparr>)"
| m_start_fails: "main_at s = AtStart r \<Longrightarrow> pl_sender (pl s) = Some snd0 \<Longrightarrow>
    capture_start (w_opus w) OPUS_BITRATE (producer_writes chunks r) snd0 now = Inl e \<Longrightarrow>
    session_step w sess Main s (s\<lparr>main_at := AtClaim (Some e)\<rparr>)"
| m_turn: "main_at s = InLoop cs \<Longrightarrow> stop_requested i = pl_stop (pl s) \<Longrightarrow>
    capture_turn (w_opus w) (w_cipher w) i cs = (cs', a) \<Longrightarrow> going_on a \<Longrightarrow>
    session_step w sess Main s (s\<lparr>main_at := InLoop cs'\<rparr>)"
| m_stopped: "main_at s = InLoop cs \<Longrightarrow> stop_requested i = pl_stop (pl s) \<Longrightarrow>
    capture_turn (w_opus w) (w_cipher w) i cs = (cs', Stopped) \<Longrightarrow>
    session_step w sess Main s (s\<lparr>pl := (pl s)\<lparr>pl_sender := Some (rtp cs')\<rparr>, main_at := AtClaim None\<rparr>)"
| m_failed: "main_at s = InLoop cs \<Longrightarrow> stop_requested i = pl_stop (pl s) \<Longrightarrow>
    capture_turn (w_opus w) (w_cipher w) i cs = (cs', Failed e) \<Longrightarrow>
    session_step w sess Main s (s\<lparr>pl := (pl s)\<lparr>pl_sender := Some (rtp cs')\<rparr>, main_at := AtClaim (Some e)\<rparr>)"
| m_claim: "main_at s = AtClaim res \<Longrightarrow>
    session_step w sess Main s
      (s\<lparr>pl := (if res \<noteq> None then (pl s)\<lparr>pl_stop := True\<rparr> else pl s), main_at := AtSenderStop res\<rparr>)"
| m_sender_stop: "main_at s = AtSenderStop res \<Longrightarrow>
    session_step w sess Main s (s\<lparr>pl := stop_pl_sender (pl s), main_at := AtSessionDrop res\<rparr>)"
| m_session_drop: "main_at s = AtSessionDrop res \<Longrightarrow>
    session_step w sess Main s (s\<lparr>pl := drop_pl_session (serving w) (pl s), main_at := AtChannelDrop res\<rparr>)"
| m_channel_drop: "main_at s = AtChannelDrop res \<Longrightarrow>
    session_step w sess Main s (s\<lparr>pl := drop_pl_chan (pl s), main_at := AtJoin res\<rparr>)"
| m_join: "main_at s = AtJoin res \<Longrightarrow> monitor_at s = MonitorEnded \<Longrightarrow>
    session_step w sess Main s (s\<lparr>pl := note_effect MonitorJoined (pl s), main_at := AtSinkDrop res\<rparr>)"
| m_sink_drop: "main_at s = AtSinkDrop res \<Longrightarrow>
    session_step w sess Main s (s\<lparr>pl := drop_pl_sender (drop_pl_sink (pl s)), main_at := Ended res\<rparr>)"
| n_recv_close: "monitor_at s = Listening \<Longrightarrow> forwarded s = msg # rest \<Longrightarrow>
    closes_session (w_json w) (transport_id sess) msg \<Longrightarrow>
    session_step w sess Monitor s
      (s\<lparr>monitor_at := Found ReceiverClosed, forwarded := rest, heard := heard s @ [msg]\<rparr>)"
| n_recv_other: "monitor_at s = Listening \<Longrightarrow> forwarded s = msg # rest \<Longrightarrow>
    \<not> closes_session (w_json w) (transport_id sess) msg \<Longrightarrow>
    session_step w sess Monitor s (s\<lparr>forwarded := rest, heard := heard s @ [msg]\<rparr>)"
| n_recv_lost: "monitor_at s = Listening \<Longrightarrow> forwarded s = [] \<Longrightarrow> \<not> dispatching (pl s) \<Longrightarrow>
    session_step w sess Monitor s (s\<lparr>monitor_at := Found ConnectionLostReason\<rparr>)"
| n_report: "monitor_at s = Found reason \<Longrightarrow>
    session_step w sess Monitor s (s\<lparr>pl := monitor_report reason (pl s), monitor_at := MonitorEnded\<rparr>)"
| o_signal:
    "session_step w sess Outside s (s\<lparr>pl := (pl s)\<lparr>pl_stop := True\<rparr>, signalled := True\<rparr>)"
| o_message: "dispatching (pl s) \<Longrightarrow>
    session_step w sess Outside s (s\<lparr>forwarded := forwarded s @ [msg]\<rparr>)"
| o_dies: "pl_chan (pl s) = Some c \<Longrightarrow> alive c \<Longrightarrow>
    session_step w sess Outside s (s\<lparr>pl := (pl s)\<lparr>pl_chan := Some (c\<lparr>alive := False\<rparr>)\<rparr>, died := True\<rparr>)"

text \<open>
  Everything before the streaming, and the state in which the monitor has just been spawned. The
  messages the dispatcher forwarded during the negotiation and that nobody took are still queued.
\<close>

definition set_up :: "('v, 'a, 'e) world \<Rightarrow> u64 \<Rightarrow> device \<Rightarrow> phase" where
  "set_up w requests dev =
     (case open_device w dev (pl_start requests) of
        Inl x \<Rightarrow> Inl x
      | Inr st1 \<Rightarrow>
          (case launch_session w dev (the (pl_chan st1)) st1 of
             Inl x \<Rightarrow> Inl x
           | Inr st2 \<Rightarrow> negotiate w dev (the (pl_session st2)) (the (pl_chan st2)) st2))"

definition spawned :: "pipeline \<Rightarrow> cast_message list \<Rightarrow> 'e threads" where
  "spawned st queued =
     \<lparr>pl = note_effect MonitorSpawned (st\<lparr>pl_incoming := False, pl_stop := False\<rparr>), main_at = AtTake,
      monitor_at = Listening, forwarded = queued, heard = [], signalled = False,
      died = (\<not> dispatching st)\<rparr>"

inductive session_reachable ::
  "('v, 'a, 'e) world \<Rightarrow> mirroring_session \<Rightarrow> pipeline \<Rightarrow> 'e threads \<Rightarrow> bool" for w sess st0 where
  spawned_first: "session_reachable w sess st0 (spawned st0 queued)"
| then_step: "session_reachable w sess st0 s \<Longrightarrow> session_step w sess t s s' \<Longrightarrow> session_reachable w sess st0 s'"

section \<open>Pipelines that differ in what the monitor and the outside touch\<close>

text \<open>Up to the stop flag, the monitor's part and the life of the dispatcher.\<close>

definition agrees :: "pipeline \<Rightarrow> pipeline \<Rightarrow> bool" where
  "agrees p q \<longleftrightarrow>
     pl_incoming p = pl_incoming q \<and> pl_sink p = pl_sink q \<and> pl_session p = pl_session q \<and>
     pl_sender p = pl_sender q \<and> pl_answer p = pl_answer q \<and> pl_requests p = pl_requests q \<and>
     pl_trace p = pl_trace q \<and>
     map_option (alive_update (\<lambda>_. False)) (pl_chan p) = map_option (alive_update (\<lambda>_. False)) (pl_chan q)"

lemma agrees_refl [simp]: "agrees p p"
  by (simp add: agrees_def)

lemma agrees_left [simp]:
  "agrees (p\<lparr>pl_stop := b\<rparr>) q = agrees p q" "agrees (monitor_report reason p) q = agrees p q"
  "pl_chan p = Some c \<Longrightarrow> agrees (p\<lparr>pl_chan := Some (c\<lparr>alive := b\<rparr>)\<rparr>) q = agrees p q"
  by (simp_all add: agrees_def monitor_report_def)

lemma agrees_note: "agrees p q \<Longrightarrow> agrees (note_effect ef p) (note_effect ef q)"
  by (simp add: agrees_def)

lemma agrees_sender: "agrees p q \<Longrightarrow> agrees (p\<lparr>pl_sender := x\<rparr>) (q\<lparr>pl_sender := x\<rparr>)"
  by (simp add: agrees_def)

lemma agrees_sink: "agrees p q \<Longrightarrow> agrees (p\<lparr>pl_sink := x\<rparr>) (q\<lparr>pl_sink := x\<rparr>)"
  by (simp add: agrees_def)

lemma agrees_stop: "agrees p q \<Longrightarrow> agrees (stop_pl_sender p) (stop_pl_sender q)"
  unfolding stop_pl_sender_def by (intro agrees_note) (simp add: agrees_def)

lemma agrees_chan:
  assumes "agrees p q"
  shows "agrees (drop_pl_chan p) (drop_pl_chan q)"
proof -
  have "map_option drop_channel x = map_option drop_channel (map_option (alive_update (\<lambda>_. False)) x)" for x
    by (cases x) (simp_all add: drop_channel_def)
  then have "map_option drop_channel (pl_chan p) = map_option drop_channel (pl_chan q)"
    using assms unfolding agrees_def by metis
  moreover have "pl_requests (drop_pl_chan x) = pl_requests x" for x
    by (simp add: drop_pl_chan_def split: option.split)
  moreover have "(pl_chan p = None) = (pl_chan q = None)"
    using assms unfolding agrees_def by (metis map_option_is_None)
  ultimately show ?thesis using assms by (simp add: agrees_def)
qed

lemma agrees_locals:
  assumes "agrees p q"
  shows "agrees (drop_pl_sender (drop_pl_sink p)) (drop_pl_sender (drop_pl_sink q))"
proof -
  have "pl_requests (drop_pl_sender (drop_pl_sink x)) = pl_requests x" for x
    by (simp add: drop_pl_sender_def drop_pl_sink_def split: option.split)
  then show ?thesis using assms by (auto simp: agrees_def)
qed

text \<open>The world of a script whose dispatcher lives at the tear-down when \<open>b\<close> says so.\<close>

definition teardown_at :: "bool \<Rightarrow> ('v, 'a, 'e) world \<Rightarrow> ('v, 'a, 'e) world" where
  "teardown_at b w = w\<lparr>w_serving := (w_serving w)(AtTeardown := b)\<rparr>"

lemma drop_session_alive: "alive (fst (drop_session js me s c n)) = alive c"
  by (simp add: drop_session_def send_stop_def new_request_id_def send_json_cases close_transport_def)

lemma agrees_session:
  assumes "agrees p q" and "pl_chan p = Some c" and "pl_chan q = Some d" and "alive c \<longrightarrow> alive d"
  shows "agrees (drop_pl_session (serving w) p) (drop_pl_session (teardown_at (alive c) w) q)"
proof -
  have "c\<lparr>alive := False\<rparr> = d\<lparr>alive := False\<rparr>" using assms(1-3) by (simp add: agrees_def)
  then have same: "attend (teardown_at (alive c) w) AtTeardown d = attend (serving w) AtTeardown c"
    using assms(4) by (cases c; cases d) (auto simp: attend_def teardown_at_def serving_def)
  have q: "pl_session p = pl_session q" "pl_requests p = pl_requests q" using assms(1) by (simp_all add: agrees_def)
  show ?thesis
  proof (cases "pl_session q")
    case None
    with q assms show ?thesis by (simp add: drop_pl_session_def)
  next
    case (Some ss)
    with q assms same show ?thesis
      by (simp add: drop_pl_session_def case_prod_beta teardown_at_def serving_def agrees_def)
  qed
qed

lemma dispatching_session: "dispatching (drop_pl_session (serving w) st) = dispatching st"
  by (auto simp: dispatching_def drop_pl_session_def case_prod_beta drop_session_alive attend_def serving_def
      split: option.split)

lemma dispatching_simps [simp]:
  "dispatching (note_effect ef st) = dispatching st" "dispatching (stop_pl_sender st) = dispatching st"
  "dispatching (monitor_report reason st) = dispatching st" "\<not> dispatching (drop_pl_chan st)"
  "dispatching (drop_pl_sink st) = dispatching st" "dispatching (drop_pl_sender st) = dispatching st"
  "dispatching (st\<lparr>pl_stop := b\<rparr>) = dispatching st" "dispatching (st\<lparr>pl_sink := x\<rparr>) = dispatching st"
  "dispatching (st\<lparr>pl_sender := y\<rparr>) = dispatching st"
  "\<not> dispatching (st\<lparr>pl_chan := Some (c\<lparr>alive := False\<rparr>)\<rparr>)"
  by (auto simp: dispatching_def stop_pl_sender_def monitor_report_def split: option.split)

lemma drop_flags [simp]:
  "pl_stop (stop_pl_sender st) = pl_stop st" "pl_monitor_done (stop_pl_sender st) = pl_monitor_done st"
  "pl_reports (stop_pl_sender st) = pl_reports st"
  "pl_stop (drop_pl_sink st) = pl_stop st" "pl_monitor_done (drop_pl_sink st) = pl_monitor_done st"
  "pl_stop (drop_pl_sender st) = pl_stop st" "pl_monitor_done (drop_pl_sender st) = pl_monitor_done st"
  by (auto simp: stop_pl_sender_def drop_pl_sink_def drop_pl_sender_def split: option.split)

section \<open>The flag and the reports\<close>

text \<open>The main thread has claimed the shutdown, or found the flag set.\<close>

definition shutting :: "'e main_pc \<Rightarrow> bool" where
  "shutting pc =
     (case pc of AtTake \<Rightarrow> False | AtStart _ \<Rightarrow> False | InLoop _ \<Rightarrow> False | Crashed \<Rightarrow> False
      | AtClaim res \<Rightarrow> res = None | _ \<Rightarrow> True)"

definition claimed :: "'e main_pc \<Rightarrow> bool" where
  "claimed pc =
     (case pc of AtSenderStop res \<Rightarrow> res \<noteq> None | AtSessionDrop res \<Rightarrow> res \<noteq> None
      | AtChannelDrop res \<Rightarrow> res \<noteq> None | AtJoin res \<Rightarrow> res \<noteq> None | AtSinkDrop res \<Rightarrow> res \<noteq> None
      | Ended res \<Rightarrow> res \<noteq> None | _ \<Rightarrow> False)"

text \<open>What the monitor has heard is the reason it gives.\<close>

definition heard_reason :: "'v serde \<Rightarrow> string \<Rightarrow> 'e threads \<Rightarrow> monitor_reason \<Rightarrow> bool" where
  "heard_reason js transport s reason \<longleftrightarrow>
     (case reason of
        ReceiverClosed \<Rightarrow> monitor_loop js transport (map Some (heard s)) = Some ReceiverClosed
      | ConnectionLostReason \<Rightarrow>
          monitor_loop js transport (map Some (heard s)) = None \<and> \<not> dispatching (pl s))"

definition flag_inv :: "'v serde \<Rightarrow> string \<Rightarrow> 'e threads \<Rightarrow> bool" where
  "flag_inv js transport s \<longleftrightarrow>
     pl_monitor_done (pl s) = (monitor_at s = MonitorEnded) \<and>
     (case monitor_at s of
        Listening \<Rightarrow> monitor_loop js transport (map Some (heard s)) = None
      | Found reason \<Rightarrow> heard_reason js transport s reason
      | MonitorEnded \<Rightarrow> pl_stop (pl s)) \<and>
     (pl_reports (pl s) \<noteq> [] \<longrightarrow> monitor_at s = MonitorEnded \<and>
        (\<exists>reason. pl_reports (pl s) = [reason] \<and> heard_reason js transport s reason)) \<and>
     (shutting (main_at s) \<longrightarrow> pl_stop (pl s)) \<and>
     (pl_stop (pl s) \<longrightarrow> signalled s \<or> pl_reports (pl s) \<noteq> [] \<or> claimed (main_at s))"

lemma monitor_loop_snoc:
  "monitor_loop js tr (map Some ms) = None \<Longrightarrow> monitor_loop js tr (map Some (ms @ [msg])) =
     (if closes_session js tr msg then Some ReceiverClosed else None)"
  by (induction ms) (auto simp: closes_session_def split: if_splits)

lemma monitor_loop_prefix:
  "monitor_loop js tr (map Some ms) = Some reason \<Longrightarrow> monitor_loop js tr (map Some ms @ rs) = Some reason"
  by (induction ms) (auto split: if_splits)

lemma monitor_loop_lost:
  "monitor_loop js tr (map Some ms) = None \<Longrightarrow> monitor_loop js tr (map Some ms @ [None]) = Some ConnectionLostReason"
  by (induction ms) (auto split: if_splits)

lemma heard_reason_cong:
  "heard s' = heard s \<Longrightarrow> (dispatching (pl s') \<longrightarrow> dispatching (pl s)) \<Longrightarrow> heard_reason js tr s r \<Longrightarrow>
     heard_reason js tr s' r"
  by (auto simp: heard_reason_def split: monitor_reason.splits)

lemma stop_ends_turn:
  "capture_turn lib cipher i cs = (cs', a) \<Longrightarrow> stop_requested i \<Longrightarrow> a = Stopped"
  by (auto simp: capture_turn_def Let_def)

lemma only_stop_stops:
  assumes "capture_turn lib cipher i cs = (cs', Stopped)"
  shows "stop_requested i"
proof (rule ccontr)
  have "snd (encode_and_send lib cipher i x) \<noteq> Stopped" for x
    by (auto simp: encode_and_send_def note_failure_def Let_def split: prod.splits sum.splits option.splits if_splits)
  moreover assume "\<not> stop_requested i"
  ultimately show False using assms
    by (auto simp: capture_turn_def Let_def prod_eq_iff split: prod.splits if_splits bool.splits)
qed

text \<open>A step of the main thread or of the outside leaves the monitor and what it heard alone.\<close>

lemma flag_inv_main:
  assumes "flag_inv js tr s" and "monitor_at s' = monitor_at s" and "heard s' = heard s"
    and "signalled s \<longrightarrow> signalled s'" and "dispatching (pl s') \<longrightarrow> dispatching (pl s)"
    and "pl_reports (pl s') = pl_reports (pl s)" and "pl_monitor_done (pl s') = pl_monitor_done (pl s)"
    and "pl_stop (pl s) \<longrightarrow> pl_stop (pl s')" and "shutting (main_at s') \<longrightarrow> pl_stop (pl s')"
    and "claimed (main_at s) \<longrightarrow> claimed (main_at s')"
    and "pl_stop (pl s') \<longrightarrow> pl_stop (pl s) \<or> signalled s' \<or> claimed (main_at s')"
  shows "flag_inv js tr s'"
proof -
  have hr: "heard_reason js tr s r \<Longrightarrow> heard_reason js tr s' r" for r
    by (rule heard_reason_cong [OF assms(3,5)])
  then have "pl_reports (pl s') \<noteq> [] \<longrightarrow> monitor_at s' = MonitorEnded \<and>
      (\<exists>reason. pl_reports (pl s') = [reason] \<and> heard_reason js tr s' reason)"
    using assms(1,2,6) unfolding flag_inv_def by metis
  moreover have "case monitor_at s' of
        Listening \<Rightarrow> monitor_loop js tr (map Some (heard s')) = None
      | Found reason \<Rightarrow> heard_reason js tr s' reason
      | MonitorEnded \<Rightarrow> pl_stop (pl s')"
    using assms(1,2,3,8) hr unfolding flag_inv_def by (cases "monitor_at s") simp_all
  moreover have "pl_stop (pl s') \<longrightarrow> signalled s' \<or> pl_reports (pl s') \<noteq> [] \<or> claimed (main_at s')"
    using assms(1,4,6,10,11) unfolding flag_inv_def by metis
  ultimately show ?thesis using assms(1,2,7,9) unfolding flag_inv_def by simp
qed

lemma flag_inv_step:
  assumes "session_step w sess t s s'" and "flag_inv (w_json w) (transport_id sess) s"
  shows "flag_inv (w_json w) (transport_id sess) s'"
  using assms
proof (cases rule: session_step.cases)
  case (m_stopped cs i cs')
  then have "pl_stop (pl s)" using only_stop_stops by metis
  with m_stopped show ?thesis by (intro flag_inv_main [OF assms(2)]) (simp_all add: claimed_def)
next
  case (n_recv_close msg rest)
  then show ?thesis using assms(2)
    by (auto simp: flag_inv_def heard_reason_def monitor_loop_snoc simp del: map_append)
next
  case (n_recv_other msg rest)
  then show ?thesis using assms(2)
    by (auto simp: flag_inv_def heard_reason_def monitor_loop_snoc simp del: map_append)
next
  case n_recv_lost
  then show ?thesis using assms(2) by (auto simp: flag_inv_def heard_reason_def)
next
  case (n_report reason)
  then have "heard_reason (w_json w) (transport_id sess) s reason" using assms(2) by (simp add: flag_inv_def)
  then have "heard_reason (w_json w) (transport_id sess) s' reason"
    by (rule heard_reason_cong [rotated 2]) (simp_all add: n_report)
  then show ?thesis using n_report assms(2) by (auto simp: flag_inv_def monitor_report_def)
next
  case (m_claim res)
  then show ?thesis using assms(2)
    by (intro flag_inv_main [OF assms(2)]) (auto simp: flag_inv_def claimed_def shutting_def)
next
  case (m_session_drop res)
  then show ?thesis using assms(2)
    by (intro flag_inv_main [OF assms(2)])
      (auto simp: flag_inv_def claimed_def shutting_def dispatching_session)
next
  case (o_dies c)
  then show ?thesis using assms(2)
    by (intro flag_inv_main [OF assms(2)]) (auto simp: flag_inv_def dispatching_def)
qed ((intro flag_inv_main [OF assms(2)], auto simp: flag_inv_def claimed_def shutting_def) [1])+

section \<open>The main thread follows the script\<close>

lemma capture_loop_snoc:
  "capture_loop lib cipher is s = (s1, as) \<Longrightarrow> list_all going_on as \<Longrightarrow> capture_turn lib cipher i s1 = (s2, a) \<Longrightarrow>
     capture_loop lib cipher (is @ [i]) s = (s2, as @ [a])"
proof (induction "is" arbitrary: s as)
  case (Cons j "is")
  obtain s0 a0 where t: "capture_turn lib cipher j s = (s0, a0)" by (metis surj_pair)
  then have "going_on a0" using Cons.prems(1,2) by (auto split: prod.splits if_splits)
  with t Cons show ?case by (auto split: prod.splits)
qed simp

text \<open>The states of the script: monitor spawned, ring taken, capture over.\<close>

definition spawned_pl :: "pipeline \<Rightarrow> pipeline" where
  "spawned_pl st0 = note_effect MonitorSpawned (st0\<lparr>pl_incoming := False\<rparr>)"

definition taken_pl :: "virtual_sink \<Rightarrow> pipeline \<Rightarrow> pipeline" where
  "taken_pl sk st0 = (spawned_pl st0)\<lparr>pl_sink := Some (sk\<lparr>consumer := None\<rparr>)\<rparr>"

definition over_pl :: "virtual_sink \<Rightarrow> sender \<Rightarrow> pipeline \<Rightarrow> pipeline" where
  "over_pl sk s' st0 = (taken_pl sk st0)\<lparr>pl_sender := Some s'\<rparr>"

definition capture_over ::
  "('v, 'a, 'e) world \<Rightarrow> audio_ring \<Rightarrow> sender \<Rightarrow> capture_error option \<Rightarrow> sender \<Rightarrow> bool" where
  "capture_over w r snd0 res s' \<longleftrightarrow>
     (\<exists>chunks t inputs. capture_run (w\<lparr>w_capture_at := t, w_capture_script := inputs\<rparr>)
        (producer_writes chunks r) snd0 = Some (res, s'))"

text \<open>After the drop of the session; \<open>b\<close>: the dispatcher lived then.\<close>

definition goodbye_pl :: "('v, 'a, 'e) world \<Rightarrow> bool \<Rightarrow> virtual_sink \<Rightarrow> sender \<Rightarrow> pipeline \<Rightarrow> pipeline" where
  "goodbye_pl w b sk s' st0 = drop_pl_session (teardown_at b w) (stop_pl_sender (over_pl sk s' st0))"

definition was_lost :: "bool \<Rightarrow> pipeline \<Rightarrow> bool" where
  "was_lost b p \<longleftrightarrow> (pl_reports p = [ConnectionLostReason] \<longrightarrow> \<not> b)"

definition main_inv ::
  "('v, 'a, 'e) world \<Rightarrow> pipeline \<Rightarrow> virtual_sink \<Rightarrow> audio_ring \<Rightarrow> sender \<Rightarrow> 'e threads \<Rightarrow> bool" where
  "main_inv w st0 sk r snd0 s \<longleftrightarrow>
     (let over = (\<lambda>f res. \<exists>s'. capture_over w r snd0 res s' \<and> agrees (pl s) (f (over_pl sk s' st0)));
          gone = (\<lambda>f res. \<exists>s' b. capture_over w r snd0 res s' \<and> was_lost b (pl s) \<and>
            agrees (pl s) (f (goodbye_pl w b sk s' st0)))
      in case main_at s of
           AtTake \<Rightarrow> agrees (pl s) (spawned_pl st0)
         | AtStart r' \<Rightarrow> r' = r \<and> agrees (pl s) (taken_pl sk st0)
         | InLoop cs \<Rightarrow> agrees (pl s) (taken_pl sk st0) \<and>
             (\<exists>chunks t inputs cs0 as. capture_start (w_opus w) OPUS_BITRATE (producer_writes chunks r) snd0 t = Inr cs0 \<and>
                capture_loop (w_opus w) (w_cipher w) inputs cs0 = (cs, as) \<and> list_all going_on as)
         | AtClaim res \<Rightarrow> over (\<lambda>p. p) res
         | AtSenderStop res \<Rightarrow> over (\<lambda>p. p) res
         | AtSessionDrop res \<Rightarrow> over stop_pl_sender res
         | AtChannelDrop res \<Rightarrow> gone (\<lambda>p. p) res
         | AtJoin res \<Rightarrow> gone drop_pl_chan res
         | AtSinkDrop res \<Rightarrow> gone (\<lambda>p. note_effect MonitorJoined (drop_pl_chan p)) res
         | Ended res \<Rightarrow>
             gone (\<lambda>p. drop_pl_sender (drop_pl_sink (note_effect MonitorJoined (drop_pl_chan p)))) res
         | Crashed \<Rightarrow> False)"

text \<open>Steps of the monitor and of the outside do not matter to it.\<close>

lemma main_inv_other:
  assumes "main_inv w st0 sk r snd0 s" and "main_at s' = main_at s"
    and "\<And>q. agrees (pl s) q \<Longrightarrow> agrees (pl s') q"
    and "shutting (main_at s) \<longrightarrow> pl_reports (pl s') = pl_reports (pl s)"
  shows "main_inv w st0 sk r snd0 s'"
  using assms unfolding main_inv_def Let_def was_lost_def
  by (cases "main_at s") (auto simp: shutting_def)

lemma capture_over_end:
  assumes "capture_start (w_opus w) OPUS_BITRATE (producer_writes chunks r) snd0 t = Inr cs0"
    and "capture_loop (w_opus w) (w_cipher w) inputs cs0 = (cs, as)" and "list_all going_on as"
    and "capture_turn (w_opus w) (w_cipher w) i cs = (cs', a)" and "a = Stopped \<and> res = None \<or> (\<exists>e. a = Failed e \<and> res = Some e)"
  shows "capture_over w r snd0 res (rtp cs')"
proof -
  have "capture_run (w\<lparr>w_capture_at := t, w_capture_script := inputs @ [i]\<rparr>) (producer_writes chunks r) snd0 =
      Some (res, rtp cs')"
    using assms(1,5) capture_loop_snoc [OF assms(2-4)]
    by (cases as) (auto simp: capture_run_def split: capture_action.split)
  then show ?thesis unfolding capture_over_def by blast
qed

lemma dispatching_step:
  "session_step w sess t s s' \<Longrightarrow> dispatching (pl s') \<Longrightarrow> dispatching (pl s)"
  by (cases rule: session_step.cases) (auto simp: dispatching_session split: if_splits)

lemma main_inv_step:
  assumes "session_step w sess t s s'" and "main_inv w st0 sk r snd0 s"
    and "flag_inv (w_json w) (transport_id sess) s" and "dispatching (pl s) \<longrightarrow> dispatching st0"
    and "pl_chan st0 \<noteq> None" and "pl_sink st0 = Some sk" and "consumer sk = Some r" and "pl_sender st0 = Some snd0"
  shows "main_inv w st0 sk r snd0 s'"
  using assms(1)
proof (cases rule: session_step.cases)
  case (m_take sk0 r0 sk')
  have "pl_sink (pl s) = Some sk" using m_take(3) assms(2,6) by (simp add: main_inv_def agrees_def spawned_pl_def)
  then have "r0 = r" "sk' = sk\<lparr>consumer := None\<rparr>" using m_take assms(7) by (simp_all add: take_consumer_def)
  with m_take assms(2) show ?thesis
    by (simp add: main_inv_def taken_pl_def agrees_sink)
next
  case (m_take_twice sk0 sk')
  then show ?thesis using assms(2,6,7) by (simp add: main_inv_def agrees_def spawned_pl_def take_consumer_def)
next
  case (m_start r0 snd1 chunks now cs)
  then have "snd1 = snd0" using assms(2,8) by (simp add: main_inv_def agrees_def taken_pl_def spawned_pl_def)
  with m_start assms(2) have "\<exists>chunks t inputs cs0 as.
      capture_start (w_opus w) OPUS_BITRATE (producer_writes chunks r) snd0 t = Inr cs0 \<and>
      capture_loop (w_opus w) (w_cipher w) inputs cs0 = (cs, as) \<and> list_all going_on as"
    by (intro exI [of _ chunks] exI [of _ now] exI [of _ "[]"] exI [of _ cs] exI [of _ "[]"]) (simp add: main_inv_def)
  then show ?thesis using m_start assms(2) by (simp add: main_inv_def)
next
  case (m_start_fails r0 snd1 chunks now e)
  then have same: "snd1 = snd0" "pl_sender (pl s) = Some snd0"
    using assms(2,8) by (simp_all add: main_inv_def agrees_def taken_pl_def spawned_pl_def)
  have "capture_run (w\<lparr>w_capture_at := now, w_capture_script := []\<rparr>) (producer_writes chunks r) snd0 = Some (Some e, snd0)"
    using m_start_fails assms(2) same by (simp add: capture_run_def main_inv_def)
  then have "capture_over w r snd0 (Some e) snd0" unfolding capture_over_def by blast
  moreover have "agrees (pl s) (over_pl sk snd0 st0)"
    using m_start_fails assms(2) same by (simp add: main_inv_def agrees_def over_pl_def)
  ultimately show ?thesis using m_start_fails by (auto simp: main_inv_def)
next
  case (m_turn cs i cs' a)
  then obtain chunks t inputs cs0 as where
      "capture_start (w_opus w) OPUS_BITRATE (producer_writes chunks r) snd0 t = Inr cs0"
      "capture_loop (w_opus w) (w_cipher w) inputs cs0 = (cs, as)" "list_all going_on as"
    using assms(2) by (auto simp: main_inv_def)
  with m_turn have "capture_start (w_opus w) OPUS_BITRATE (producer_writes chunks r) snd0 t = Inr cs0"
      "capture_loop (w_opus w) (w_cipher w) (inputs @ [i]) cs0 = (cs', as @ [a])" "list_all going_on (as @ [a])"
    by (simp_all add: capture_loop_snoc)
  then show ?thesis using m_turn assms(2) unfolding main_inv_def by (simp del: list_all_append) blast
next
  case (m_stopped cs i cs')
  then obtain chunks t inputs cs0 as where
      "capture_start (w_opus w) OPUS_BITRATE (producer_writes chunks r) snd0 t = Inr cs0"
      "capture_loop (w_opus w) (w_cipher w) inputs cs0 = (cs, as)" "list_all going_on as"
      "agrees (pl s) (taken_pl sk st0)"
    using assms(2) by (auto simp: main_inv_def)
  then show ?thesis using m_stopped capture_over_end [of w chunks r snd0 t cs0 inputs cs as i cs' Stopped None]
    by (auto simp: main_inv_def over_pl_def agrees_sender)
next
  case (m_failed cs i cs' e)
  then obtain chunks t inputs cs0 as where
      "capture_start (w_opus w) OPUS_BITRATE (producer_writes chunks r) snd0 t = Inr cs0"
      "capture_loop (w_opus w) (w_cipher w) inputs cs0 = (cs, as)" "list_all going_on as"
      "agrees (pl s) (taken_pl sk st0)"
    using assms(2) by (auto simp: main_inv_def)
  then show ?thesis using m_failed capture_over_end [of w chunks r snd0 t cs0 inputs cs as i cs' "Failed e" "Some e"]
    by (auto simp: main_inv_def over_pl_def agrees_sender)
next
  case (m_sender_stop res)
  then show ?thesis using assms(2) agrees_stop by (fastforce simp: main_inv_def)
next
  case (m_session_drop res)
  then obtain s'' where o: "capture_over w r snd0 res s''" "agrees (pl s) (stop_pl_sender (over_pl sk s'' st0))"
    using assms(2) by (auto simp: main_inv_def)
  obtain d where d: "pl_chan st0 = Some d" using assms(5) by blast
  then have d': "pl_chan (stop_pl_sender (over_pl sk s'' st0)) = Some d"
    by (simp add: stop_pl_sender_def over_pl_def taken_pl_def spawned_pl_def)
  then obtain c where c: "pl_chan (pl s) = Some c" using o(2) by (auto simp: agrees_def)
  have "alive c \<longrightarrow> alive d" using assms(4) c d by (simp add: dispatching_def)
  from agrees_session [OF o(2) c d' this]
  have "agrees (pl s') (goodbye_pl w (alive c) sk s'' st0)" using m_session_drop by (simp add: goodbye_pl_def)
  moreover have "was_lost (alive c) (pl s')"
    using assms(3) c m_session_drop by (auto simp: was_lost_def flag_inv_def heard_reason_def dispatching_def)
  ultimately show ?thesis using m_session_drop o(1) by (auto simp: main_inv_def)
next
  case (m_channel_drop res)
  then show ?thesis using assms(2) agrees_chan by (fastforce simp: main_inv_def was_lost_def)
next
  case (m_join res)
  then show ?thesis using assms(2) agrees_note by (fastforce simp: main_inv_def was_lost_def)
next
  case (m_sink_drop res)
  then show ?thesis using assms(2) agrees_locals by (fastforce simp: main_inv_def was_lost_def)
next
  case (m_claim res)
  then show ?thesis using assms(2) by (auto simp: main_inv_def)
next
  case (n_report reason)
  have "shutting (main_at s) \<longrightarrow> pl_reports (monitor_report reason (pl s)) = pl_reports (pl s)"
    using assms(3) by (simp add: flag_inv_def monitor_report_def)
  then show ?thesis by (intro main_inv_other [OF assms(2)]) (simp_all add: n_report)
next
  case (o_dies c)
  then show ?thesis by (intro main_inv_other [OF assms(2)]) auto
qed ((intro main_inv_other [OF assms(2)], auto) [1])+

text \<open>Whoever joins has dropped the channel, and whoever joined found the monitor ended.\<close>

definition dropped_channel :: "'e main_pc \<Rightarrow> bool" where
  "dropped_channel pc = (case pc of AtJoin _ \<Rightarrow> True | AtSinkDrop _ \<Rightarrow> True | Ended _ \<Rightarrow> True | _ \<Rightarrow> False)"

definition joined_monitor :: "'e main_pc \<Rightarrow> bool" where
  "joined_monitor pc = (case pc of AtSinkDrop _ \<Rightarrow> True | Ended _ \<Rightarrow> True | _ \<Rightarrow> False)"

definition joins_inv :: "'e threads \<Rightarrow> bool" where
  "joins_inv s \<longleftrightarrow> (dropped_channel (main_at s) \<longrightarrow> \<not> dispatching (pl s)) \<and>
     (joined_monitor (main_at s) \<longrightarrow> monitor_at s = MonitorEnded)"

lemma joins_inv_step: "session_step w sess t s s' \<Longrightarrow> joins_inv s \<Longrightarrow> joins_inv s'"
  by (cases rule: session_step.cases) (auto simp: joins_inv_def dropped_channel_def joined_monitor_def)

text \<open>The dispatcher is gone because it ended by itself, or because the main thread dropped it.\<close>

definition died_inv :: "'e threads \<Rightarrow> bool" where
  "died_inv s \<longleftrightarrow> (dispatching (pl s) \<or> died s \<or> dropped_channel (main_at s)) \<and>
     (pl_reports (pl s) = [ConnectionLostReason] \<longrightarrow> died s)"

lemma dropped_shutting: "dropped_channel pc \<Longrightarrow> shutting pc"
  by (cases pc) (simp_all add: dropped_channel_def shutting_def)

lemma died_inv_step:
  assumes "session_step w sess t s s'" and "died_inv s" and "flag_inv (w_json w) (transport_id sess) s"
  shows "died_inv s'"
  using assms(1)
proof (cases rule: session_step.cases)
  case (n_report reason)
  show ?thesis
  proof (cases "reason = ConnectionLostReason \<and> \<not> pl_stop (pl s)")
    case True
    then have "\<not> dispatching (pl s)" using assms(3) n_report by (simp add: flag_inv_def heard_reason_def)
    moreover have "\<not> dropped_channel (main_at s)"
      using True assms(3) dropped_shutting by (auto simp: flag_inv_def)
    ultimately show ?thesis using assms(2) n_report by (simp add: died_inv_def)
  next
    case False
    have "pl_reports (pl s) = []" using assms(3) n_report by (simp add: flag_inv_def)
    with False have "pl_reports (monitor_report reason (pl s)) \<noteq> [ConnectionLostReason]"
      by (cases reason) (auto simp: monitor_report_def)
    with assms(2) n_report show ?thesis by (simp add: died_inv_def)
  qed
next
  case (m_session_drop res)
  then show ?thesis using assms(2) by (simp add: died_inv_def dropped_channel_def dispatching_session)
next
  case (m_sink_drop res)
  then show ?thesis using assms(2)
    by (simp add: died_inv_def dropped_channel_def drop_pl_sender_def drop_pl_sink_def split: option.split)
qed (use assms(2) in \<open>auto simp: died_inv_def dropped_channel_def\<close>)

section \<open>Before the threads\<close>

lemma open_device_flags: "open_device w dev st = Inr st' \<Longrightarrow> pl_monitor_done st' = pl_monitor_done st"
  by (auto simp: open_device_def bail_out_def Let_def split: sum.splits prod.splits)

lemma launch_session_flags: "launch_session w dev c st = Inr st' \<Longrightarrow> pl_monitor_done st' = pl_monitor_done st"
  by (auto simp: launch_session_def bail_out_def Let_def split: sum.splits prod.splits option.splits)

lemma negotiate_flags: "negotiate w dev sess c st = Inr st' \<Longrightarrow> pl_monitor_done st' = pl_monitor_done st"
  by (auto simp: negotiate_def bail_out_def Let_def split: sum.splits prod.splits option.splits if_splits)

lemma set_up_ok:
  assumes "set_up w n dev = Inr st0"
  obtains c sk r s sess where "pl_chan st0 = Some c" and "pl_sink st0 = Some sk" and "consumer sk = Some r"
    and "pl_sender st0 = Some s" and "pl_session st0 = Some sess" and "\<not> pl_monitor_done st0"
    and "pl_reports st0 = []" and "pl_incoming st0" and "between dev w st0"
    and "acquired st0 = [Opened, SinkCreated, Launched, SenderStarted]"
    and "run_with_device w n dev =
      (case stream_audio w sess c sk s st0 of Inl x \<Rightarrow> x | Inr (res, st4) \<Rightarrow> tear_down w sess res st4)"
proof -
  obtain st1 where r1: "open_device w dev (pl_start n) = Inr st1"
    using assms by (auto simp: set_up_def split: sum.splits)
  with open_device_ok [of dev w n] have b1: "between dev w st1" "acquired st1 = [Opened, SinkCreated]"
    by (simp_all add: phase_ok_def)
  then obtain c1 where c1: "pl_chan st1 = Some c1" using acquired_parts(1) by auto
  obtain st2 where r2: "launch_session w dev c1 st1 = Inr st2"
    using assms r1 c1 by (auto simp: set_up_def split: sum.splits)
  with launch_session_ok [OF b1 c1] have b2: "between dev w st2" "acquired st2 = [Opened, SinkCreated, Launched]"
    by (simp_all add: phase_ok_def)
  then obtain c2 sess where c2: "pl_chan st2 = Some c2" "pl_session st2 = Some sess"
    using acquired_parts(2) by blast
  have r3: "negotiate w dev sess c2 st2 = Inr st0" using assms r1 r2 c1 c2 by (simp add: set_up_def)
  with negotiate_ok [OF b2 c2(1), of sess]
  have b3: "between dev w st0" "acquired st0 = [Opened, SinkCreated, Launched, SenderStarted]"
    by (simp_all add: phase_ok_def)
  then obtain c3 sk s where c3: "pl_chan st0 = Some c3" "pl_sink st0 = Some sk" "pl_sender st0 = Some s"
    using acquired_parts(3) by blast
  obtain r where "channel RING_CAPACITY_FRAMES (ucast CHANNELS) = Some r" by (rule sink_ring)
  then have r: "consumer sk = Some r" using b3(1) c3(2) by (simp add: between_def locals_ok_def)
  have "\<not> pl_monitor_done st0"
    using open_device_flags [OF r1] launch_session_flags [OF r2] negotiate_flags [OF r3] by (simp add: pl_start_def)
  moreover have "pl_reports st0 = []" "pl_incoming st0" using b3(1) c3(1) by (simp_all add: between_def locals_ok_def)
  moreover have "run_with_device w n dev =
      (case stream_audio w sess c3 sk s st0 of Inl x \<Rightarrow> x | Inr (res, st4) \<Rightarrow> tear_down w sess res st4)"
    using r1 r2 r3 c1 c2 c3 by (simp add: run_with_device_def)
  ultimately show ?thesis using that c3 r b3 negotiate_session [OF r3] c2 by simp
qed

text \<open>The same world with another script from the spawn of the monitor on.\<close>

definition rescript ::
  "('v, 'a, 'e) world \<Rightarrow> bool \<Rightarrow> cast_message list \<Rightarrow> bool \<Rightarrow> bool \<Rightarrow> bytes list \<Rightarrow> nanos \<Rightarrow> capture_input list \<Rightarrow>
     ('v, 'a, 'e) world" where
  "rescript w b msgs early intr chunks t inputs =
     (teardown_at b w)\<lparr>w_monitor_msgs := msgs, w_monitor_early := early, w_interrupted := intr,
       w_played := chunks, w_capture_at := t, w_capture_script := inputs\<rparr>"

lemma open_device_rescript:
  "open_device w dev st = Inr st' \<Longrightarrow> open_device (rescript w b msgs early intr chunks t inputs) dev st = Inr st'"
  by (auto simp: open_device_def bail_out_def rescript_def teardown_at_def Let_def split: sum.splits prod.splits)

lemma launch_session_rescript:
  "launch_session w dev c st = Inr st' \<Longrightarrow>
     launch_session (rescript w b msgs early intr chunks t inputs) dev c st = Inr st'"
  by (cases "is_audio_only dev") (auto simp: launch_session_def bail_out_def rescript_def teardown_at_def Let_def attend_def
      split: sum.splits prod.splits option.splits)

lemma negotiate_rescript:
  "negotiate w dev sess c st = Inr st' \<Longrightarrow>
     negotiate (rescript w b msgs early intr chunks t inputs) dev sess c st = Inr st'"
  by (auto simp: negotiate_def bail_out_def rescript_def teardown_at_def Let_def attend_def
      split: sum.splits prod.splits option.splits if_splits)

lemma set_up_rescript:
  "set_up w n dev = Inr st0 \<Longrightarrow> set_up (rescript w b msgs early intr chunks t inputs) n dev = Inr st0"
  by (auto simp: set_up_def open_device_rescript launch_session_rescript negotiate_rescript split: sum.splits)

end
