(* ===== verification/Session_Ends.thy ===== *)
theory Session_Ends
  imports Session_Threads
begin

text \<open>
  What holds of every interleaving of the session's threads: it is a run of the scripted
  \<open>run_with_device\<close>, so that the theorems of \<open>Run_Properties\<close> speak of it; it never ends without a
  cause being given; and once the flag is set it cannot get stuck.
\<close>

section \<open>The invariants of a reachable session\<close>

lemma session_inv:
  assumes "session_reachable w sess st0 s" and "pl_chan st0 \<noteq> None" and "pl_sink st0 = Some sk"
    and "consumer sk = Some r" and "pl_sender st0 = Some snd0" and "\<not> pl_monitor_done st0" and "pl_reports st0 = []"
  shows "flag_inv (w_json w) (transport_id sess) s" and "main_inv w st0 sk r snd0 s" and "joins_inv s"
    and "died_inv s"
proof -
  from assms(1) have "flag_inv (w_json w) (transport_id sess) s \<and> main_inv w st0 sk r snd0 s \<and> joins_inv s \<and>
      died_inv s \<and> (dispatching (pl s) \<longrightarrow> dispatching st0)"
  proof (induction rule: session_reachable.induct)
    case (spawned_first queued)
    show ?case using assms(6,7)
      by (auto simp: spawned_def flag_inv_def main_inv_def joins_inv_def died_inv_def dropped_channel_def joined_monitor_def
          shutting_def agrees_def spawned_pl_def dispatching_def)
  next
    case (then_step s t s')
    then show ?case
      using flag_inv_step main_inv_step [OF then_step(2) _ _ _ assms(2-5)] joins_inv_step died_inv_step dispatching_step by blast
  qed
  then show "flag_inv (w_json w) (transport_id sess) s" "main_inv w st0 sk r snd0 s" "joins_inv s" "died_inv s" by simp_all
qed

section \<open>The scripted run of an interleaving\<close>

lemma agrees_session_same:
  assumes "agrees p q" and "pl_chan p = pl_chan q"
  shows "agrees (drop_pl_session w p) (drop_pl_session w q)"
  using assms by (cases "pl_session q"; cases "pl_chan q")
    (simp_all add: drop_pl_session_def case_prod_beta agrees_def)

lemma rescript_sel:
  "w_json (rescript w b msgs early intr chunks t inputs) = w_json w"
  "w_sender_id (rescript w b msgs early intr chunks t inputs) = w_sender_id w"
  "w_opus (rescript w b msgs early intr chunks t inputs) = w_opus w"
  "w_cipher (rescript w b msgs early intr chunks t inputs) = w_cipher w"
  "w_capture_at (rescript w b msgs early intr chunks t inputs) = t"
  "w_capture_script (rescript w b msgs early intr chunks t inputs) = inputs"
  "w_handler_error (rescript w b msgs early intr chunks t inputs) = w_handler_error w"
  "w_monitor_msgs (rescript w b msgs early intr chunks t inputs) = msgs"
  "w_monitor_early (rescript w b msgs early intr chunks t inputs) = early"
  "w_interrupted (rescript w b msgs early intr chunks t inputs) = intr"
  "w_played (rescript w b msgs early intr chunks t inputs) = chunks"
  "attend (rescript w b msgs early intr chunks t inputs) AtTeardown c = c\<lparr>alive := alive c \<and> b\<rparr>"
  "w_json (teardown_at b w) = w_json w" "w_sender_id (teardown_at b w) = w_sender_id w"
  "attend (teardown_at b w) AtTeardown c = c\<lparr>alive := alive c \<and> b\<rparr>"
  by (simp_all add: rescript_def teardown_at_def attend_def)

lemma capture_run_rescript:
  "capture_run (rescript w b msgs early intr chunks t inputs) r s =
     capture_run (w\<lparr>w_capture_at := t, w_capture_script := inputs\<rparr>) r s"
proof -
  have "w_opus (w\<lparr>w_capture_at := t, w_capture_script := inputs\<rparr>) = w_opus w"
    "w_cipher (w\<lparr>w_capture_at := t, w_capture_script := inputs\<rparr>) = w_cipher w"
    "w_capture_at (w\<lparr>w_capture_at := t, w_capture_script := inputs\<rparr>) = t"
    "w_capture_script (w\<lparr>w_capture_at := t, w_capture_script := inputs\<rparr>) = inputs" by simp_all
  note sel = this
  show ?thesis unfolding capture_run_def rescript_sel sel ..
qed

lemma drop_session_rescript:
  "drop_pl_session (rescript w b msgs early intr chunks t inputs) st = drop_pl_session (teardown_at b w) st"
  unfolding drop_pl_session_def rescript_sel ..

text \<open>Pipelines that agree, whose dispatchers are dead, and whose flags are equal, are equal.\<close>

lemma agrees_equal:
  assumes "agrees p q" and "\<not> dispatching p" and "\<not> dispatching q" and "pl_stop p = pl_stop q"
    and "pl_monitor_done p = pl_monitor_done q" and "pl_reports p = pl_reports q"
  shows "p = q"
proof -
  have dead: "map_option (alive_update (\<lambda>_. False)) (pl_chan x) = pl_chan x" if "\<not> dispatching x" for x
    using that by (cases "pl_chan x") (auto simp: dispatching_def)
  have "pl_chan p = pl_chan q" using assms(1) dead [OF assms(2)] dead [OF assms(3)] by (simp add: agrees_def)
  then show ?thesis using assms by (intro pipeline.equality) (simp_all add: agrees_def)
qed

text \<open>Streaming by the script that the reports of an interleaving suggest.\<close>

lemma scripted_streaming:
  assumes "pl_chan st0 = Some c" and "consumer sk = Some r" and "w_handler_error w = None"
    and "\<not> pl_monitor_done st0" and "pl_reports st0 = []"
    and "capture_run (w\<lparr>w_capture_at := t, w_capture_script := inputs\<rparr>) (producer_writes chunks r) snd0 = Some (res, s')"
    and "reports = [] \<or> (\<exists>reason. reports = [reason] \<and>
      monitor_loop (w_json w) (transport_id sess) (map Some msgs @ (if alive c \<and> b then [] else [None])) = Some reason)"
  obtains st4 where
    "stream_audio (rescript w b msgs (reports \<noteq> []) (reports = []) chunks t inputs) sess c sk snd0 st0 = Inr (res, st4)"
    and "agrees st4 (over_pl sk s' st0)" and "pl_stop st4" and "pl_monitor_done st4 = (reports \<noteq> [])"
    and "pl_reports st4 = reports" and "pl_chan st4 = pl_chan st0"
proof -
  let ?w = "rescript w b msgs (reports \<noteq> []) (reports = []) chunks t inputs"
  have cr: "capture_run ?w (producer_writes chunks r) snd0 = Some (res, s')"
    using assms(6) by (simp add: capture_run_rescript)
  have ev: "monitor_events ?w (attend ?w AtTeardown c) = map Some msgs @ (if alive c \<and> b then [] else [None])"
    by (simp add: monitor_events_def rescript_sel)
  define st2 where "st2 = (note_effect MonitorSpawned (st0\<lparr>pl_incoming := False, pl_stop := (reports = [])\<rparr>))
      \<lparr>pl_sink := Some (sk\<lparr>consumer := None\<rparr>), pl_sender := Some s'\<rparr>"
  define st3 where "st3 = (if reports = [] then st2 else monitor_report (hd reports) st2)"
  have "stream_audio ?w sess c sk snd0 st0 = Inr (res, if res \<noteq> None then st3\<lparr>pl_stop := True\<rparr> else st3)"
    using assms(2,3,7) cr ev
    by (auto simp: stream_audio_def take_consumer_def Let_def st3_def st2_def rescript_sel)
  moreover have "agrees st3 (over_pl sk s' st0)" "pl_stop st3" "pl_monitor_done st3 = (reports \<noteq> [])"
      "pl_reports st3 = reports" "pl_chan st3 = pl_chan st0"
    using assms(4,5,7) by (auto simp: st3_def st2_def over_pl_def taken_pl_def spawned_pl_def monitor_report_def agrees_def)
  ultimately show ?thesis using that by (cases "res = None") auto
qed

text \<open>The tear-down leaves the flags and the reports alone, and follows the main thread.\<close>

lemma join_monitor_agrees:
  assumes "join_monitor w sess st1 = Some st2" and "pl_stop st1" and "\<not> dispatching st1" and "agrees st1 q"
  shows "agrees st2 (note_effect MonitorJoined q)" and "pl_stop st2" and "pl_monitor_done st2"
    and "pl_reports st2 = pl_reports st1" and "\<not> dispatching st2"
proof -
  from assms(1) have "pl_monitor_done st1 \<and> st2 = note_effect MonitorJoined st1 \<or>
      (\<exists>reason. st2 = note_effect MonitorJoined (monitor_report reason st1))"
    by (auto simp: join_monitor_def split: if_splits option.splits)
  with assms(2-4) show "agrees st2 (note_effect MonitorJoined q)" "pl_stop st2" "pl_monitor_done st2"
      "pl_reports st2 = pl_reports st1" "\<not> dispatching st2"
    by (auto intro: agrees_note) (simp_all add: monitor_report_def)
qed

lemma scripted_tear_down:
  assumes "agrees st4 (over_pl sk s' st0)" and "pl_stop st4" and "pl_chan st4 = pl_chan st0" and "pl_chan st0 = Some c"
  obtains st where
    "tear_down (rescript w b msgs early intr chunks t inputs) sess res st4 = (Returned (map_option CaptureError res), st)"
    and "agrees st (drop_pl_sender (drop_pl_sink (note_effect MonitorJoined (drop_pl_chan (goodbye_pl w b sk s' st0)))))"
    and "pl_stop st" and "pl_monitor_done st" and "pl_reports st = pl_reports st4" and "\<not> dispatching st"
proof -
  let ?w = "rescript w b msgs early intr chunks t inputs"
  let ?st1 = "drop_pl_chan (drop_pl_session ?w (stop_pl_sender st4))"
  have chan: "pl_chan (stop_pl_sender st4) = pl_chan (stop_pl_sender (over_pl sk s' st0))"
    using assms(3) by (simp add: stop_pl_sender_def over_pl_def taken_pl_def spawned_pl_def)
  have ag1: "agrees ?st1 (drop_pl_chan (goodbye_pl w b sk s' st0))"
    unfolding goodbye_pl_def drop_session_rescript
    by (intro agrees_chan agrees_session_same agrees_stop assms(1) chan)
  have "pl_chan (drop_pl_session ?w (stop_pl_sender st4)) \<noteq> None"
    using assms(3,4) by (simp add: stop_pl_sender_def)
  then obtain c1 where "pl_chan (drop_pl_session ?w (stop_pl_sender st4)) = Some c1" by blast
  then have "pl_chan ?st1 = Some (drop_channel c1)" by simp
  from join_monitor_returns [OF this, of ?w sess] obtain st2 where st2: "join_monitor ?w sess ?st1 = Some st2" by auto
  moreover have "pl_stop ?st1" "pl_reports ?st1 = pl_reports st4" "\<not> dispatching ?st1" using assms(2) by simp_all
  ultimately have ag2: "agrees st2 (note_effect MonitorJoined (drop_pl_chan (goodbye_pl w b sk s' st0)))"
      and fl: "pl_stop st2" "pl_monitor_done st2" "pl_reports st2 = pl_reports st4" "\<not> dispatching st2"
    using join_monitor_agrees [OF st2 _ _ ag1] by simp_all
  let ?st = "drop_pl_sender (drop_pl_sink st2)"
  have "tear_down ?w sess res st4 = (Returned (map_option CaptureError res), ?st)"
    using st2 by (simp add: tear_down_def Let_def)
  then show ?thesis using that ag2 agrees_locals fl by simp
qed

lemma scripted_run:
  assumes "set_up w requests dev = Inr st0" and "w_handler_error w = None" and "pl_session st0 = Some sess"
    and "session_reachable w sess st0 s" and "main_at s = Ended res"
  obtains b msgs early intr chunks t inputs where
    "run_with_device (rescript w b msgs early intr chunks t inputs) requests dev =
       (Returned (map_option CaptureError res), pl s)"
proof -
  obtain c sk r snd0 where st0: "pl_chan st0 = Some c" "pl_sink st0 = Some sk" "consumer sk = Some r"
      "pl_sender st0 = Some snd0" "\<not> pl_monitor_done st0" "pl_reports st0 = []"
    by (rule set_up_ok [OF assms(1)])
  then have nc: "pl_chan st0 \<noteq> None" by simp
  note inv = session_inv [OF assms(4) nc st0(2-6)]
  from inv(2) assms(5) obtain s' b where over: "capture_over w r snd0 res s'" "was_lost b (pl s)"
      "agrees (pl s) (drop_pl_sender (drop_pl_sink (note_effect MonitorJoined (drop_pl_chan (goodbye_pl w b sk s' st0)))))"
    by (auto simp: main_inv_def)
  from over(1) obtain chunks t inputs where cr:
    "capture_run (w\<lparr>w_capture_at := t, w_capture_script := inputs\<rparr>) (producer_writes chunks r) snd0 = Some (res, s')"
    by (auto simp: capture_over_def)
  have end_flags: "pl_stop (pl s)" "pl_monitor_done (pl s)" "\<not> dispatching (pl s)"
    using inv(1,3) assms(5) by (simp_all add: flag_inv_def joins_inv_def dropped_channel_def joined_monitor_def)
  have told: "pl_reports (pl s) = [] \<or> (\<exists>reason. pl_reports (pl s) = [reason] \<and>
      monitor_loop (w_json w) (transport_id sess) (map Some (heard s) @ (if alive c \<and> b then [] else [None])) = Some reason)"
  proof (cases "pl_reports (pl s) = []")
    case False
    then obtain reason where hr: "pl_reports (pl s) = [reason]" "heard_reason (w_json w) (transport_id sess) s reason"
      using inv(1) by (auto simp: flag_inv_def)
    then show ?thesis using over(2)
      by (cases reason) (auto simp: heard_reason_def was_lost_def monitor_loop_prefix monitor_loop_lost)
  qed simp
  let ?w = "rescript w b (heard s) (pl_reports (pl s) \<noteq> []) (pl_reports (pl s) = []) chunks t inputs"
  obtain st4 where st4: "stream_audio ?w sess c sk snd0 st0 = Inr (res, st4)"
      "agrees st4 (over_pl sk s' st0)" "pl_stop st4" "pl_reports st4 = pl_reports (pl s)" "pl_chan st4 = pl_chan st0"
    by (rule scripted_streaming [OF st0(1,3) assms(2) st0(5,6) cr told])
  obtain st where st: "tear_down ?w sess res st4 = (Returned (map_option CaptureError res), st)"
      "agrees st (drop_pl_sender (drop_pl_sink (note_effect MonitorJoined (drop_pl_chan (goodbye_pl w b sk s' st0)))))"
      "pl_stop st" "pl_monitor_done st" "pl_reports st = pl_reports st4" "\<not> dispatching st"
    by (rule scripted_tear_down [OF st4(2,3,5) st0(1)])
  have "agrees st (pl s)" using st(2) over(3) by (simp add: agrees_def)
  then have "st = pl s" by (rule agrees_equal) (simp_all add: st st4 end_flags)
  have "set_up ?w requests dev = Inr st0" by (rule set_up_rescript [OF assms(1)])
  then obtain c' sk' r' snd' sess' where "pl_chan st0 = Some c'" "pl_sink st0 = Some sk'" "pl_sender st0 = Some snd'"
      "pl_session st0 = Some sess'" and run: "run_with_device ?w requests dev =
        (case stream_audio ?w sess' c' sk' snd' st0 of Inl x \<Rightarrow> x | Inr (res, st4) \<Rightarrow> tear_down ?w sess' res st4)"
    by (rule set_up_ok)
  with st0 assms(3) have "run_with_device ?w requests dev = tear_down ?w sess res st4" by (simp add: st4(1))
  with st4(1) st(1) \<open>st = pl s\<close> that show ?thesis by simp
qed

section \<open>Progress\<close>

definition main_rank :: "'e main_pc \<Rightarrow> nat" where
  "main_rank pc =
     (case pc of AtTake \<Rightarrow> 9 | AtStart _ \<Rightarrow> 8 | InLoop _ \<Rightarrow> 7 | AtClaim _ \<Rightarrow> 6 | AtSenderStop _ \<Rightarrow> 5
      | AtSessionDrop _ \<Rightarrow> 4 | AtChannelDrop _ \<Rightarrow> 3 | AtJoin _ \<Rightarrow> 2 | AtSinkDrop _ \<Rightarrow> 1 | Ended _ \<Rightarrow> 0 | Crashed \<Rightarrow> 0)"

definition monitor_rank :: "'e threads \<Rightarrow> nat" where
  "monitor_rank s =
     length (forwarded s) + (case monitor_at s of Listening \<Rightarrow> 2 | Found _ \<Rightarrow> 1 | MonitorEnded \<Rightarrow> 0)"

abbreviation thread_step ::
  "('v, 'a, 'e) world \<Rightarrow> mirroring_session \<Rightarrow> 'e threads \<Rightarrow> 'e threads \<Rightarrow> bool" where
  "thread_step w sess s s' \<equiv> session_step w sess Main s s' \<or> session_step w sess Monitor s s'"

lemma step_ranks:
  assumes "session_step w sess t s s'" and "pl_stop (pl s)"
  shows "pl_stop (pl s') \<and> (t = Main \<longrightarrow> main_rank (main_at s') < main_rank (main_at s)) \<and>
    (t = Monitor \<longrightarrow> main_at s' = main_at s \<and> monitor_rank s' < monitor_rank s) \<and>
    (t = Outside \<longrightarrow> main_at s' = main_at s \<and> (\<not> dispatching (pl s) \<longrightarrow> monitor_rank s' = monitor_rank s))"
  using assms(1)
proof (cases rule: session_step.cases)
  case (m_turn cs i cs' a)
  then have "a = Stopped" using stop_ends_turn [OF m_turn(5)] assms(2) by simp
  then show ?thesis using m_turn by (simp add: going_on_def)
qed (use assms(2) in \<open>simp_all add: main_rank_def monitor_rank_def monitor_report_def\<close>)

lemma stop_turn: "\<exists>cs'. capture_turn lib cipher (i\<lparr>stop_requested := True\<rparr>) cs = (cs', Stopped)"
  by (simp add: capture_turn_def Let_def)

lemma monitor_can_step:
  assumes "monitor_at s \<noteq> MonitorEnded" and "\<not> dispatching (pl s) \<or> forwarded s \<noteq> [] \<or> monitor_at s \<noteq> Listening"
  shows "\<exists>s'. session_step w sess Monitor s s'"
proof (cases "monitor_at s")
  case Listening
  show ?thesis
  proof (cases "forwarded s")
    case Nil
    then show ?thesis using Listening assms(2) by (auto intro: n_recv_lost)
  next
    case (Cons msg rest)
    then show ?thesis using n_recv_close [OF Listening Cons] n_recv_other [OF Listening Cons] by blast
  qed
qed (use assms(1) in \<open>auto intro: n_report\<close>)

lemma never_stuck:
  assumes "main_inv w st0 sk r snd0 s" and "joins_inv s" and "pl_sink st0 = Some sk" and "consumer sk = Some r"
    and "pl_sender st0 = Some snd0" and "pl_stop (pl s)" and "\<forall>res. main_at s \<noteq> Ended res"
  shows "\<exists>s'. thread_step w sess s s'"
proof (cases "main_at s")
  case AtTake
  then have "pl_sink (pl s) = Some sk" using assms(1,3) by (simp add: main_inv_def agrees_def spawned_pl_def)
  from m_take [OF AtTake this] show ?thesis using assms(4) by (simp add: take_consumer_def) blast
next
  case (AtStart r')
  then have "pl_sender (pl s) = Some snd0"
    using assms(1,5) by (simp add: main_inv_def agrees_def taken_pl_def spawned_pl_def)
  note here = AtStart this
  show ?thesis
    by (cases "capture_start (w_opus w) OPUS_BITRATE (producer_writes [] r') snd0 0")
      (blast intro: m_start [OF here] m_start_fails [OF here])+
next
  case (InLoop cs)
  obtain cs' where "capture_turn (w_opus w) (w_cipher w) (demo_tick 0 None\<lparr>stop_requested := True\<rparr>) cs = (cs', Stopped)"
    using stop_turn by blast
  from m_stopped [OF InLoop _ this] assms(6) show ?thesis by auto
next
  case (AtJoin res)
  then have "\<not> dispatching (pl s)" using assms(2) by (simp add: joins_inv_def dropped_channel_def)
  then show ?thesis using m_join [OF AtJoin] monitor_can_step [of s] by blast
qed (use assms(1,7) in \<open>(auto intro: session_step.intros simp: main_inv_def)[1]\<close>)+

text \<open>From a set flag the threads come to the end by themselves.\<close>

lemma winds_down:
  assumes "session_reachable w sess st0 s" and "pl_chan st0 \<noteq> None" and "pl_sink st0 = Some sk"
    and "consumer sk = Some r" and "pl_sender st0 = Some snd0" and "\<not> pl_monitor_done st0" and "pl_reports st0 = []"
    and "pl_stop (pl s)"
  shows "\<exists>s' res. (thread_step w sess)\<^sup>*\<^sup>* s s' \<and> main_at s' = Ended res"
  using assms(1,8)
proof (induction "(main_rank (main_at s), monitor_rank s)" arbitrary: s rule: wf_induct_rule [OF wf_lex_prod [OF wf_less_than wf_less_than]])
  case 1
  show ?case
  proof (cases "\<exists>res. main_at s = Ended res")
    case False
    note inv = session_inv [OF 1(2) assms(2-7)]
    from never_stuck [OF inv(2,3) assms(3-5) 1(3)] False obtain t s1 where
      s1: "session_step w sess t s s1" "t \<noteq> Outside" by blast
    note ranks = step_ranks [OF s1(1) 1(3)]
    have "((main_rank (main_at s1), monitor_rank s1), main_rank (main_at s), monitor_rank s) \<in> less_than <*lex*> less_than"
      using ranks s1(2) by (cases t) auto
    then obtain s' res where "(thread_step w sess)\<^sup>*\<^sup>* s1 s'" and "main_at s' = Ended res"
      using 1(1) [OF _ then_step [OF 1(2) s1(1)]] ranks by blast
    moreover have "thread_step w sess s s1" using s1 by (cases t) auto
    ultimately show ?thesis using converse_rtranclp_into_rtranclp [of "thread_step w sess" s s1 s'] by blast
  qed auto
qed

text \<open>
  From the loss of the connection, or the receiver's CLOSE in the queue, the monitor sets the flag
  by itself; what the other threads do meanwhile can only make it come sooner.
\<close>

definition session_over :: "'v serde \<Rightarrow> string \<Rightarrow> 'e threads \<Rightarrow> bool" where
  "session_over js transport s \<longleftrightarrow>
     pl_stop (pl s) \<or> \<not> dispatching (pl s) \<or> list_ex (closes_session js transport) (forwarded s)"

lemma found_reports:
  assumes "monitor_at s1 = Found reason" and "s = s1 \<or> session_step w sess Monitor s s1"
  shows "\<exists>s'. (thread_step w sess)\<^sup>*\<^sup>* s s' \<and> pl_stop (pl s')"
proof -
  let ?s2 = "s1\<lparr>pl := monitor_report reason (pl s1), monitor_at := MonitorEnded\<rparr>"
  have "(thread_step w sess)\<^sup>*\<^sup>* s1 ?s2" using n_report [OF assms(1), of w sess] by (intro r_into_rtranclp disjI2)
  with assms(2) have "(thread_step w sess)\<^sup>*\<^sup>* s ?s2"
    using converse_rtranclp_into_rtranclp [of "thread_step w sess" s s1 ?s2] by blast
  moreover have "pl_stop (pl ?s2)" by (simp add: monitor_report_def)
  ultimately show ?thesis by blast
qed

lemma monitor_sets_stop:
  assumes "flag_inv (w_json w) (transport_id sess) s" and "session_over (w_json w) (transport_id sess) s"
  shows "\<exists>s'. (thread_step w sess)\<^sup>*\<^sup>* s s' \<and> pl_stop (pl s')"
  using assms
proof (induction "length (forwarded s)" arbitrary: s rule: less_induct)
  case less
  consider (stopped) "pl_stop (pl s)" | (found) reason where "monitor_at s = Found reason"
    | (lost) "monitor_at s = Listening" "forwarded s = []" "\<not> dispatching (pl s)"
    | (got) msg rest where "monitor_at s = Listening" "forwarded s = msg # rest"
    using less(2,3) by (cases "monitor_at s"; cases "forwarded s") (auto simp: flag_inv_def session_over_def)
  then show ?case
  proof cases
    case found
    then show ?thesis using found_reports by blast
  next
    case lost
    show ?thesis by (rule found_reports [rotated, OF disjI2, OF n_recv_lost [OF lost]]) simp
  next
    case (got msg rest)
    let ?s1 = "s\<lparr>forwarded := rest, heard := heard s @ [msg]\<rparr>"
    show ?thesis
    proof (cases "closes_session (w_json w) (transport_id sess) msg")
      case True
      show ?thesis by (rule found_reports [rotated, OF disjI2, OF n_recv_close [OF got True]]) simp
    next
      case False
      have st: "session_step w sess Monitor s ?s1" by (rule n_recv_other [OF got False])
      have "session_over (w_json w) (transport_id sess) ?s1"
        using less(3) got False by (simp add: session_over_def)
      with less(1) [of ?s1] flag_inv_step [OF st less(2)] got obtain s' where
        "(thread_step w sess)\<^sup>*\<^sup>* ?s1 s'" "pl_stop (pl s')" by auto
      then show ?thesis
        using converse_rtranclp_into_rtranclp [of "thread_step w sess" s ?s1 s'] st by blast
    qed
  qed blast
qed

lemma reachable_threads:
  "(thread_step w sess)\<^sup>*\<^sup>* s s' \<Longrightarrow> session_reachable w sess st0 s \<Longrightarrow> session_reachable w sess st0 s'"
  by (induction rule: rtranclp_induct) (auto intro: then_step)

section \<open>A session for the witnesses\<close>

lemma demo_set_up:
  obtains st0 where "set_up demo_world 7 demo_device = Inr st0" and "pl_session st0 = Some demo_session"
proof -
  obtain st1 c1 where o: "open_device demo_world demo_device (pl_start 7) = Inr st1" "pl_chan st1 = Some c1"
      "alive c1" "pl_requests st1 = 7" by (rule demo_open)
  obtain st2 c2 where l: "launch_session demo_world demo_device c1 st1 = Inr st2" "pl_chan st2 = Some c2"
      "alive c2" "pl_session st2 = Some demo_session" by (rule demo_launch [OF o(3,4)])
  obtain st3 where n: "negotiate demo_world demo_device demo_session c2 st2 = Inr st3"
    by (rule demo_negotiate [OF l(3)])
  show ?thesis
    by (rule that [of st3]) (use o l n negotiate_session [OF n] in \<open>simp_all add: set_up_def\<close>)
qed

definition demo_signal :: "pipeline \<Rightarrow> unit threads" where
  "demo_signal st0 = (let s = spawned st0 [] in s\<lparr>pl := (pl s)\<lparr>pl_stop := True\<rparr>, signalled := True\<rparr>)"

lemma demo_signal_reachable: "session_reachable w sess st0 (demo_signal st0)"
  unfolding demo_signal_def Let_def by (rule then_step [OF spawned_first o_signal])

lemma demo_handler: "w_handler_error demo_world = None"
  by (simp add: demo_world_def)

lemma demo_ended:
  assumes "set_up demo_world 7 demo_device = Inr st0"
  obtains s res where "session_reachable demo_world demo_session st0 s" and "main_at s = Ended res"
proof -
  obtain c sk r snd0 where st0: "pl_chan st0 = Some c" "pl_sink st0 = Some sk" "consumer sk = Some r"
      "pl_sender st0 = Some snd0" "\<not> pl_monitor_done st0" "pl_reports st0 = []"
    by (rule set_up_ok [OF assms])
  have "pl_stop (pl (demo_signal st0))" by (simp add: demo_signal_def Let_def)
  from winds_down [where w = demo_world and sess = demo_session, OF demo_signal_reachable _ st0(2-6) this] st0(1) obtain s res where
    "(thread_step demo_world demo_session)\<^sup>*\<^sup>* (demo_signal st0) s" "main_at s = Ended res" by auto
  then show ?thesis using that reachable_threads [OF _ demo_signal_reachable] by blast
qed

section \<open>Properties\<close>

text \<open>
  C32: The scripts of \<open>Pipeline\<close> miss no interleaving. However the main thread, the monitor, the
  signal handler and the dispatcher interleave from the spawn of the monitor to the end, the result
  and the final state (the reports, the trace, the goodbye on the channel, the sender and the sink)
  are those of \<open>run_with_device\<close> for some script.
\<close>

theorem interleavings_are_scripted:
  assumes "set_up w requests dev = Inr st0" and "w_handler_error w = None" and "pl_session st0 = Some sess"
    and "session_reachable w sess st0 s" and "main_at s = Ended res"
  shows "\<exists>b msgs early intr chunks t inputs.
    run_with_device (rescript w b msgs early intr chunks t inputs) requests dev =
      (Returned (map_option CaptureError res), pl s)"
  using scripted_run [OF assms] by metis

theorem interleavings_are_scripted_witness:
  "\<exists>st0 s res w'. session_reachable demo_world demo_session st0 s \<and> main_at s = Ended res \<and>
     run_with_device (w' :: (json_tree, nat, unit) world) 7 demo_device = (Returned (map_option CaptureError res), pl s)"
proof -
  obtain st0 where st0: "set_up demo_world 7 demo_device = Inr st0" "pl_session st0 = Some demo_session"
    by (rule demo_set_up)
  obtain s res where s: "session_reachable demo_world demo_session st0 s" "main_at s = Ended res"
    by (rule demo_ended [OF st0(1)])
  from interleavings_are_scripted [OF st0(1) demo_handler st0(2) s] s show ?thesis by blast
qed

text \<open>
  C30: No session ends in silence, and none ends twice. When the main thread has ended, the run
  returned an error, or the user had sent a signal, or the monitor reported a cause, and it reported
  at most one. The cause is true: "closed by the receiver" is reported only if a CLOSE of the receiver
  was heard, and "connection lost" only if none was and the dispatcher ended by itself, never because
  the main thread, shutting down after a signal or after an error of its own, dropped the channel:
  the shutdown is claimed in the flag before the channel goes. Everything is released, in the order
  the result determines, under every interleaving.
\<close>

theorem no_silent_end:
  assumes "set_up w requests dev = Inr st0" and "w_handler_error w = None" and "pl_session st0 = Some sess"
    and "session_reachable w sess st0 s" and "main_at s = Ended res"
  shows "(res \<noteq> None \<or> signalled s \<or> pl_reports (pl s) \<noteq> []) \<and>
    pl_reports (pl s) \<in> {[], [ReceiverClosed], [ConnectionLostReason]} \<and>
    (pl_reports (pl s) = [ReceiverClosed] \<longrightarrow>
       monitor_loop (w_json w) (transport_id sess) (map Some (heard s)) = Some ReceiverClosed) \<and>
    (pl_reports (pl s) = [ConnectionLostReason] \<longrightarrow>
       monitor_loop (w_json w) (transport_id sess) (map Some (heard s)) = None \<and> died s) \<and>
    released (pl s) \<and> pl_trace (pl s) = release_trace (map_option CaptureError res)"
proof -
  obtain c sk r snd0 where st0: "pl_chan st0 = Some c" "pl_sink st0 = Some sk" "consumer sk = Some r"
      "pl_sender st0 = Some snd0" "\<not> pl_monitor_done st0" "pl_reports st0 = []"
    by (rule set_up_ok [OF assms(1)])
  then have flag: "flag_inv (w_json w) (transport_id sess) s" and died: "died_inv s"
    using session_inv [OF assms(4) _ st0(2-6)] by simp_all
  obtain b msgs early intr chunks t inputs where
    "run_with_device (rescript w b msgs early intr chunks t inputs) requests dev =
       (Returned (map_option CaptureError res), pl s)"
    by (rule scripted_run [OF assms])
  with run_ends [of dev "rescript w b msgs early intr chunks t inputs" requests]
  have "released (pl s) \<and> pl_trace (pl s) = release_trace (map_option CaptureError res)"
    by (auto simp: good_end_def ended_with_def)
  moreover have "res \<noteq> None \<or> signalled s \<or> pl_reports (pl s) \<noteq> []"
    using flag assms(5) by (cases "res = None") (simp_all add: flag_inv_def shutting_def claimed_def)
  moreover have "pl_reports (pl s) = [] \<or>
      (\<exists>reason. pl_reports (pl s) = [reason] \<and> heard_reason (w_json w) (transport_id sess) s reason)"
    using flag unfolding flag_inv_def by blast
  then have "pl_reports (pl s) \<in> {[], [ReceiverClosed], [ConnectionLostReason]} \<and>
      (pl_reports (pl s) = [ReceiverClosed] \<longrightarrow>
         monitor_loop (w_json w) (transport_id sess) (map Some (heard s)) = Some ReceiverClosed) \<and>
      (pl_reports (pl s) = [ConnectionLostReason] \<longrightarrow>
         monitor_loop (w_json w) (transport_id sess) (map Some (heard s)) = None \<and> died s)"
  proof
    assume "\<exists>reason. pl_reports (pl s) = [reason] \<and> heard_reason (w_json w) (transport_id sess) s reason"
    then obtain reason where "pl_reports (pl s) = [reason]" "heard_reason (w_json w) (transport_id sess) s reason"
      by blast
    then show ?thesis using died by (cases reason) (simp_all add: heard_reason_def died_inv_def)
  qed simp
  ultimately show ?thesis by simp
qed

theorem no_silent_end_witness:
  "\<exists>st0 (s :: unit threads) res. session_reachable demo_world demo_session st0 s \<and> main_at s = Ended res \<and>
     released (pl s) \<and> (res \<noteq> None \<or> signalled s \<or> pl_reports (pl s) \<noteq> [])"
proof -
  obtain st0 where st0: "set_up demo_world 7 demo_device = Inr st0" "pl_session st0 = Some demo_session"
    by (rule demo_set_up)
  obtain s res where s: "session_reachable demo_world demo_session st0 s" "main_at s = Ended res"
    by (rule demo_ended [OF st0(1)])
  from no_silent_end [OF st0(1) demo_handler st0(2) s] s show ?thesis by blast
qed

text \<open>
  C31: A session that is over comes to its end. From any reachable state in which the flag is set, or
  the dispatcher has died, or a CLOSE of the receiver waits in the queue, the main thread and the
  monitor alone can bring the run to its return. Once the flag is set nothing can prevent it: it
  stays set, every step of the main thread and of the monitor uses up rank, steps from outside give
  none back where the main thread waits for the monitor, and no thread waits for ever.
\<close>

theorem session_ends:
  assumes "set_up w requests dev = Inr st0" and "pl_session st0 = Some sess"
    and "session_reachable w sess st0 s" and "session_over (w_json w) (transport_id sess) s"
  shows "(\<exists>s' res. (thread_step w sess)\<^sup>*\<^sup>* s s' \<and> main_at s' = Ended res) \<and>
    (pl_stop (pl s) \<longrightarrow>
      ((\<exists>res. main_at s = Ended res) \<or> (\<exists>s'. thread_step w sess s s')) \<and>
      (\<forall>t s'. session_step w sess t s s' \<longrightarrow> pl_stop (pl s') \<and>
        (t = Main \<longrightarrow> main_rank (main_at s') < main_rank (main_at s)) \<and>
        (t = Monitor \<longrightarrow> main_at s' = main_at s \<and> monitor_rank s' < monitor_rank s) \<and>
        (t = Outside \<longrightarrow> main_at s' = main_at s \<and>
           (dropped_channel (main_at s) \<longrightarrow> monitor_rank s' = monitor_rank s))))"
proof (intro conjI impI)
  obtain c sk r snd0 where st0: "pl_chan st0 = Some c" "pl_sink st0 = Some sk" "consumer sk = Some r"
      "pl_sender st0 = Some snd0" "\<not> pl_monitor_done st0" "pl_reports st0 = []"
    by (rule set_up_ok [OF assms(1)])
  then have nc: "pl_chan st0 \<noteq> None" by simp
  note inv = session_inv [OF assms(3) nc st0(2-6)]
  obtain s1 where s1: "(thread_step w sess)\<^sup>*\<^sup>* s s1" "pl_stop (pl s1)"
    using monitor_sets_stop [OF inv(1) assms(4)] by blast
  from winds_down [OF reachable_threads [OF s1(1) assms(3)] nc st0(2-6) s1(2)] s1(1)
  show "\<exists>s' res. (thread_step w sess)\<^sup>*\<^sup>* s s' \<and> main_at s' = Ended res" by (meson rtranclp_trans)
  assume stop: "pl_stop (pl s)"
  show "(\<exists>res. main_at s = Ended res) \<or> (\<exists>s'. thread_step w sess s s')"
    using never_stuck [OF inv(2,3) st0(2-4) stop] by blast
  have waiting: "dropped_channel (main_at s) \<longrightarrow> \<not> dispatching (pl s)" using inv(3) by (simp add: joins_inv_def)
  show "\<forall>t s'. session_step w sess t s s' \<longrightarrow> pl_stop (pl s') \<and>
        (t = Main \<longrightarrow> main_rank (main_at s') < main_rank (main_at s)) \<and>
        (t = Monitor \<longrightarrow> main_at s' = main_at s \<and> monitor_rank s' < monitor_rank s) \<and>
        (t = Outside \<longrightarrow> main_at s' = main_at s \<and>
           (dropped_channel (main_at s) \<longrightarrow> monitor_rank s' = monitor_rank s))"
  proof (intro allI impI)
    fix t s'
    assume "session_step w sess t s s'"
    from step_ranks [OF this stop] waiting show "pl_stop (pl s') \<and>
        (t = Main \<longrightarrow> main_rank (main_at s') < main_rank (main_at s)) \<and>
        (t = Monitor \<longrightarrow> main_at s' = main_at s \<and> monitor_rank s' < monitor_rank s) \<and>
        (t = Outside \<longrightarrow> main_at s' = main_at s \<and>
           (dropped_channel (main_at s) \<longrightarrow> monitor_rank s' = monitor_rank s))" by blast
  qed
qed

theorem session_ends_witness:
  "\<exists>st0 (s' :: unit threads) res. (thread_step demo_world demo_session)\<^sup>*\<^sup>* (demo_signal st0) s' \<and> main_at s' = Ended res"
proof -
  obtain st0 where st0: "set_up demo_world 7 demo_device = Inr st0" "pl_session st0 = Some demo_session"
    by (rule demo_set_up)
  have "session_over (w_json demo_world) (transport_id demo_session) (demo_signal st0)"
    by (simp add: session_over_def demo_signal_def Let_def)
  from session_ends [OF st0 demo_signal_reachable this] show ?thesis by blast
qed

end
