(* ===== verification/Ring_Endpoints.thy ===== *)
theory Ring_Endpoints
  imports Audio_Ring
begin

text \<open>
  The endpoints of \<open>src/audio_ring.rs\<close>: \<open>RingProducer\<close>, \<open>RingConsumer\<close> and \<open>RingCloser\<close> are
  references (\<open>Arc\<close>) to one ring, so what one of them does is seen by the others. The rings live
  in a store; an endpoint is the address of its ring.
\<close>

type_synonym addr = nat
type_synonym store = "addr \<rightharpoonup> audio_ring"

datatype ring_producer = RingProducer addr
datatype ring_consumer = RingConsumer addr
datatype ring_closer = RingCloser addr

text \<open>\<open>channel\<close> allocates the ring at an address that is free; \<open>None\<close> is a failed assertion.\<close>

definition open_channel ::
  "addr \<Rightarrow> usize \<Rightarrow> usize \<Rightarrow> store \<Rightarrow> (ring_producer \<times> ring_consumer \<times> store) option" where
  "open_channel fresh cap chans \<sigma> =
     map_option (\<lambda>r. (RingProducer fresh, RingConsumer fresh, \<sigma>(fresh \<mapsto> r))) (channel cap chans)"

definition update_ring :: "addr \<Rightarrow> (audio_ring \<Rightarrow> audio_ring) \<Rightarrow> store \<Rightarrow> store" where
  "update_ring a f \<sigma> = (case \<sigma> a of None \<Rightarrow> \<sigma> | Some r \<Rightarrow> \<sigma>(a \<mapsto> f r))"

fun producer_write :: "ring_producer \<Rightarrow> bytes \<Rightarrow> store \<Rightarrow> store" where
  "producer_write (RingProducer a) bs \<sigma> = update_ring a (\<lambda>r. write_s16le r bs) \<sigma>"

fun producer_close :: "ring_producer \<Rightarrow> store \<Rightarrow> store" where
  "producer_close (RingProducer a) \<sigma> = update_ring a close \<sigma>"

fun producer_closer :: "ring_producer \<Rightarrow> ring_closer" where
  "producer_closer (RingProducer a) = RingCloser a"

fun closer_close :: "ring_closer \<Rightarrow> store \<Rightarrow> store" where
  "closer_close (RingCloser a) \<sigma> = update_ring a close \<sigma>"

fun consumer_read :: "ring_consumer \<Rightarrow> i16 list \<Rightarrow> store \<Rightarrow> (bool \<times> i16 list \<times> store) option" where
  "consumer_read (RingConsumer a) out \<sigma> =
     map_option (\<lambda>r. case read_frames r out of (ok, out', r') \<Rightarrow> (ok, out', \<sigma>(a \<mapsto> r'))) (\<sigma> a)"

fun consumer_skip :: "ring_consumer \<Rightarrow> usize \<Rightarrow> store \<Rightarrow> store" where
  "consumer_skip (RingConsumer a) n \<sigma> = update_ring a (\<lambda>r. skip_frames r n) \<sigma>"

fun consumer_available :: "ring_consumer \<Rightarrow> store \<Rightarrow> usize option" where
  "consumer_available (RingConsumer a) \<sigma> = map_option available_frames (\<sigma> a)"

fun consumer_capacity :: "ring_consumer \<Rightarrow> store \<Rightarrow> usize option" where
  "consumer_capacity (RingConsumer a) \<sigma> = map_option capacity_frames (\<sigma> a)"

fun consumer_is_closed :: "ring_consumer \<Rightarrow> store \<Rightarrow> bool option" where
  "consumer_is_closed (RingConsumer a) \<sigma> = map_option is_closed (\<sigma> a)"

section \<open>Closing is seen across the endpoints and loses nothing\<close>

lemma close_views: "is_closed (close r)" "available_frames (close r) = available_frames r"
  by (simp_all add: is_closed_def available_frames_def close_def)

lemma close_read_frames:
  "read_frames (close r) out = (case read_frames r out of (ok, out', r') \<Rightarrow> (ok, out', close r'))"
  by (simp add: read_frames_def close_def slot_def Let_def)

lemma closed_last:
  "x\<lparr>closed := True, buf := b\<rparr> = x\<lparr>buf := b, closed := True\<rparr>"
  "x\<lparr>closed := True, reserved := e\<rparr> = x\<lparr>reserved := e, closed := True\<rparr>"
  "x\<lparr>closed := True, write_ix := e\<rparr> = x\<lparr>write_ix := e, closed := True\<rparr>"
  by (cases x; simp)+

lemma store_slots_closed:
  "store_slots (r\<lparr>closed := True\<rparr>) base i ss = (store_slots r base i ss)\<lparr>closed := True\<rparr>"
proof (induction ss arbitrary: r i)
  case (Cons x ss)
  show ?case using Cons [of "r\<lparr>buf := b\<rparr>" for b] by (simp add: slot_def closed_last)
qed simp

lemma write_close: "write_s16le (close r) bs = close (write_s16le r bs)"
  by (simp add: write_s16le_def close_def kept_chunk_def closed_last store_slots_closed Let_def)

text \<open>
  A closer made from a producer closes the ring its consumer reads: the consumer sees it, and the
  frames that were written, before or after, are still read as if nothing had been closed.
\<close>

lemma closer_reaches_consumer:
  fixes bs
  assumes "open_channel a n c \<sigma> = Some (tx, rx, \<sigma>1)"
  defines "\<sigma>2 \<equiv> closer_close (producer_closer tx) (producer_write tx bs \<sigma>1)"
  shows "consumer_is_closed rx \<sigma>2 = Some True"
    and "consumer_available rx \<sigma>2 = consumer_available rx (producer_write tx bs \<sigma>1)"
    and "map_option (\<lambda>(ok, out', _). (ok, out')) (consumer_read rx out \<sigma>2) =
         map_option (\<lambda>(ok, out', _). (ok, out')) (consumer_read rx out (producer_write tx bs \<sigma>1))"
    and "producer_write tx bs' \<sigma>2 = closer_close (producer_closer tx) (producer_write tx bs' (producer_write tx bs \<sigma>1))"
proof -
  obtain r where "tx = RingProducer a" "rx = RingConsumer a" "\<sigma>1 = \<sigma>(a \<mapsto> r)"
    using assms(1) by (auto simp: open_channel_def)
  then show "consumer_is_closed rx \<sigma>2 = Some True"
    "consumer_available rx \<sigma>2 = consumer_available rx (producer_write tx bs \<sigma>1)"
    "map_option (\<lambda>(ok, out', _). (ok, out')) (consumer_read rx out \<sigma>2) =
     map_option (\<lambda>(ok, out', _). (ok, out')) (consumer_read rx out (producer_write tx bs \<sigma>1))"
    "producer_write tx bs' \<sigma>2 = closer_close (producer_closer tx) (producer_write tx bs' (producer_write tx bs \<sigma>1))"
    by (simp_all add: \<sigma>2_def update_ring_def close_read_frames write_close close_views case_prod_beta)
qed

end
