(* ===== verification/Tls_Verifier.thy ===== *)
theory Tls_Verifier
  imports Cast_Prelude
begin

text \<open>
  \<open>NoVerify\<close> of \<open>src/cast_channel.rs\<close>: a Chromecast's certificate is self-signed, so every
  certificate is accepted; handshake signatures are still checked, by the functions of \<open>rustls\<close>
  with the algorithms of the process-wide provider. Certificates, signatures and errors are the
  library's types.
\<close>

record ('cert, 'dss, 'alg, 'scheme, 'err) tls_library =
  check_tls12 :: "bytes \<Rightarrow> 'cert \<Rightarrow> 'dss \<Rightarrow> 'alg \<Rightarrow> 'err + unit"
  check_tls13 :: "bytes \<Rightarrow> 'cert \<Rightarrow> 'dss \<Rightarrow> 'alg \<Rightarrow> 'err + unit"
  supported_schemes :: "'alg \<Rightarrow> 'scheme list"

record 'alg no_verify =
  signature_algorithms :: 'alg

definition verify_server_cert ::
  "'alg no_verify \<Rightarrow> 'cert \<Rightarrow> 'cert list \<Rightarrow> string \<Rightarrow> bytes \<Rightarrow> nanos \<Rightarrow> 'err + unit" where
  "verify_server_cert v end_entity intermediates server_name ocsp now = Inr ()"

definition verify_tls12_signature ::
  "('cert, 'dss, 'alg, 'scheme, 'err) tls_library \<Rightarrow> 'alg no_verify \<Rightarrow> bytes \<Rightarrow> 'cert \<Rightarrow> 'dss \<Rightarrow> 'err + unit" where
  "verify_tls12_signature lib v message cert dss = check_tls12 lib message cert dss (signature_algorithms v)"

definition verify_tls13_signature ::
  "('cert, 'dss, 'alg, 'scheme, 'err) tls_library \<Rightarrow> 'alg no_verify \<Rightarrow> bytes \<Rightarrow> 'cert \<Rightarrow> 'dss \<Rightarrow> 'err + unit" where
  "verify_tls13_signature lib v message cert dss = check_tls13 lib message cert dss (signature_algorithms v)"

definition supported_verify_schemes ::
  "('cert, 'dss, 'alg, 'scheme, 'err) tls_library \<Rightarrow> 'alg no_verify \<Rightarrow> 'scheme list" where
  "supported_verify_schemes lib v = supported_schemes lib (signature_algorithms v)"

end
