(* ===== verification/Examples.thy ===== *)
theory Examples
  imports Complex_Main Run_Properties
begin

text \<open>
  The two drivers under \<open>examples/\<close>: \<open>run_device.rs\<close> runs the pipeline on a device given by its
  address, \<open>e2e_nest.rs\<close> runs a session by hand, plays a tone and judges the byte rates. Both are
  modelled on the components of the library. The tone's samples are an argument (the precision of
  \<open>f64::sin\<close> is not specified), the quotients of \<open>snapshot\<close> are exact rationals: with fewer than
  \<open>2 ^ 53\<close> bytes and \<open>2 ^ 32\<close> frames the rounding of \<open>f64\<close> does not reach the thresholds they are
  compared with.
\<close>

section \<open>Arguments\<close>

definition strip_prefix :: "string \<Rightarrow> string \<Rightarrow> string option" where
  "strip_prefix p s = (if take (length p) s = p then Some (drop (length p) s) else None)"

fun find_map :: "('a \<Rightarrow> 'b option) \<Rightarrow> 'a list \<Rightarrow> 'b option" where
  "find_map f [] = None"
| "find_map f (x # xs) = (case f x of Some y \<Rightarrow> Some y | None \<Rightarrow> find_map f xs)"

text \<open>\<open>str::parse::<u16>\<close>.\<close>

definition parse_u16 :: "string \<Rightarrow> u16 option" where
  "parse_u16 s =
     (case parse_u32 s of
        Some n \<Rightarrow> if unat n < 2 ^ 16 then Some (ucast n) else None
      | None \<Rightarrow> None)"

text \<open>The outer \<open>None\<close>: the text after \<open>--port=\<close> is not a port.\<close>

definition port_arg :: "string list \<Rightarrow> u16 option" where
  "port_arg args =
     (case find_map (strip_prefix ''--port='') args of None \<Rightarrow> Some 8009 | Some p \<Rightarrow> parse_u16 p)"

definition host_arg :: "string list \<Rightarrow> string" where
  "host_arg args =
     (case find (\<lambda>a. strip_prefix ''--'' a = None) (drop 1 args) of
        Some a \<Rightarrow> a
      | None \<Rightarrow> ''192.168.238.100'')"

definition has_flag :: "string \<Rightarrow> string list \<Rightarrow> bool" where
  "has_flag f args \<longleftrightarrow> list_ex (\<lambda>a. a = f) args"

section \<open>run_device.rs\<close>

definition run_device_target :: "string list \<Rightarrow> device option" where
  "run_device_target args =
     map_option (\<lambda>p. \<lparr>friendly_name = ''Test Nest'', model = Some ''Google Nest Mini'', host = host_arg args,
       port = p, is_audio_only = \<not> has_flag ''--video'' args\<rparr>) (port_arg args)"

text \<open>The exit code; \<open>None\<close> when it panics on the port, still runs or hangs.\<close>

definition run_device_main :: "('v, 'a, 'e) world \<Rightarrow> u64 \<Rightarrow> string list \<Rightarrow> nat option" where
  "run_device_main w requests args =
     (case run_device_target args of
        None \<Rightarrow> None
      | Some dev \<Rightarrow> exit_code (Inr (run_with_device w requests dev)))"

section \<open>e2e_nest.rs: the tone\<close>

definition to_le32 :: "u32 \<Rightarrow> bytes" where
  "to_le32 v = rev (to_be32 v)"

text \<open>\<open>make_tone_wav\<close>: the bytes of the file, for the samples \<open>tone 0\<close>, \<open>tone 1\<close>, ...\<close>

definition tone_data :: "(nat \<Rightarrow> i16) \<Rightarrow> bytes" where
  "tone_data tone = concat (map (\<lambda>i. to_le16 (tone i) @ to_le16 (tone i)) [0..<288000])"

definition wav_file :: "bytes \<Rightarrow> bytes" where
  "wav_file data =
     (let sr = 48000 :: u32;
          subchunk2_size = of_nat (length data) :: u32;
          chunk_size = 36 + subchunk2_size;
          byte_rate = sr * 2 * 2
      in as_bytes ''RIFF'' @ to_le32 chunk_size @ as_bytes ''WAVEfmt '' @ to_le32 16 @ to_le16 1 @ to_le16 2 @
         to_le32 sr @ to_le32 byte_rate @ to_le16 (2 * 2) @ to_le16 16 @ as_bytes ''data'' @
         to_le32 subchunk2_size @ data)"

definition make_tone_wav :: "(nat \<Rightarrow> i16) \<Rightarrow> io_error option \<Rightarrow> io_error + bytes" where
  "make_tone_wav tone write_error =
     (case write_error of Some e \<Rightarrow> Inl e | None \<Rightarrow> Inr (wav_file (tone_data tone)))"

section \<open>e2e_nest.rs: the session\<close>

text \<open>Bytes per frame between two readings of the statistics.\<close>

definition bytes_per_frame :: "u32 \<times> u64 \<Rightarrow> u32 \<times> u64 \<Rightarrow> rat" where
  "bytes_per_frame r0 r1 =
     (let df = fst r1 - fst r0; d_o = snd r1 - snd r0
      in if df > 0 then of_nat (unat d_o) / of_nat (unat df) else 0)"

definition nest_verdict :: "rat \<Rightarrow> rat \<Rightarrow> bool" where
  "nest_verdict silence tone \<longleftrightarrow> silence < 20 \<and> 100 \<le> tone \<and> tone < 200"

text \<open>
  What the outside does besides the \<open>world\<close>: the file system, \<open>pw-cat\<close>, and how many turns the
  capture thread has done at the readings that are judged (the others are only printed).
\<close>

record nest =
  tone_error :: "io_error option"
  player_error :: "io_error option"
  silence_turns :: "nat \<times> nat"
  tone_turns :: "nat \<times> nat"

datatype nest_error =
    BadPort | ToneNotWritten io_error | Setup pipeline_error | PlayerFailed io_error | OutOfRange

datatype nest_outcome = NestPanicked | NestUnfinished | NestReturned "nest_error option"

text \<open>The locals are dropped in the reverse of their order, here the sink last.\<close>

definition nest_drops :: "('v, 'a, 'e) world \<Rightarrow> pipeline \<Rightarrow> pipeline" where
  "nest_drops w st =
     drop_pl_sink (drop_pl_chan (drop_pl_incoming (drop_pl_session w (drop_pl_sender st))))"

definition nest_fails :: "('v, 'a, 'e) world \<Rightarrow> nest_error \<Rightarrow> pipeline \<Rightarrow> (nest_outcome \<times> pipeline) + pipeline" where
  "nest_fails w e st = Inl (NestReturned (Some e), nest_drops w st)"

definition nest_open :: "('v, 'a, 'e) world \<Rightarrow> pipeline \<Rightarrow> (nest_outcome \<times> pipeline) + pipeline" where
  "nest_open w st0 =
     (case sink_new ''Test Nest'' (w_sink_ready w) of
        (Inl e, _) \<Rightarrow> nest_fails w (Setup (SinkError e)) st0
      | (Inr s, _) \<Rightarrow>
          let st1 = note_effect SinkCreated (st0\<lparr>pl_sink := Some s\<rparr>)
          in case connect (w_json w) False (w_version w) (w_sender_id w) (w_addrs w) (w_dial w) (w_tls w)
                 (w_fates w) (w_connect_at w) of
               Inl e \<Rightarrow> nest_fails w (Setup (ConnectError e)) st1
             | Inr (_, c, _) \<Rightarrow> Inr (note_effect Opened (st1\<lparr>pl_chan := Some c, pl_incoming := True\<rparr>)))"

definition nest_launch ::
  "('v, 'a, 'e) world \<Rightarrow> stream_mode \<Rightarrow> channel_end \<Rightarrow> pipeline \<Rightarrow> (nest_outcome \<times> pipeline) + pipeline" where
  "nest_launch w mode c st0 =
     (case launch_mirroring (w_json w) (w_sender_id w) mode TIMEOUT (w_launch_at w) (w_launch_script w)
             (attend w AtLaunch c) (pl_requests st0) of
        (None, c', n) \<Rightarrow> Inl (NestUnfinished, st0\<lparr>pl_chan := Some c', pl_requests := n\<rparr>)
      | (Some (Inl e, _), c', n) \<Rightarrow>
          nest_fails w (Setup (LaunchError e)) (st0\<lparr>pl_chan := Some c', pl_requests := n\<rparr>)
      | (Some (Inr sess, _), c', n) \<Rightarrow>
          let st1 = note_effect Launched (st0\<lparr>pl_chan := Some c', pl_requests := n, pl_session := Some sess\<rparr>)
          in case connect_transport (w_json w) False (w_version w) (w_sender_id w) (transport_id sess)
                    (attend w AtConnectTransport c') of
               (Inl e, c'') \<Rightarrow> nest_fails w (Setup (TransportError e)) (st1\<lparr>pl_chan := Some c''\<rparr>)
             | (Inr _, c'') \<Rightarrow> Inr (st1\<lparr>pl_chan := Some c''\<rparr>))"

text \<open>The refused stream is an assertion here; \<open>--no-rtcp\<close> leaves the sender's threads out.\<close>

definition nest_negotiate ::
  "('v, 'a, 'e) world \<Rightarrow> string \<Rightarrow> bool \<Rightarrow> mirroring_session \<Rightarrow> channel_end \<Rightarrow> pipeline \<Rightarrow>
     (nest_outcome \<times> pipeline) + pipeline" where
  "nest_negotiate w hostname no_rtcp sess c st0 =
     (let offer = default_offer (w_key w) (w_iv_mask w) (w_ssrc_draw w)
      in case send_offer (w_json w) (w_hex w) (w_sender_id w) (transport_id sess) offer TIMEOUT
                (w_offer_at w) (w_offer_script w) (attend w AtOffer c) (pl_requests st0) of
           (None, c', n) \<Rightarrow> Inl (NestUnfinished, st0\<lparr>pl_chan := Some c', pl_requests := n\<rparr>)
         | (Some (Inl e, _), c', n) \<Rightarrow>
             nest_fails w (Setup (OfferError e)) (st0\<lparr>pl_chan := Some c', pl_requests := n\<rparr>)
         | (Some (Inr answer, _), c', n) \<Rightarrow>
             let st1 = st0\<lparr>pl_chan := Some c', pl_requests := n, pl_answer := Some answer\<rparr>
             in if 0 \<notin> set (send_indexes answer) then Inl (NestPanicked, nest_drops w st1)
                else case w_bind_error w of
                  Some e \<Rightarrow> nest_fails w (Setup (BindError e)) st1
                | None \<Rightarrow>
                    let s0 = new \<lparr>chromecast_host = hostname, udp_port = answer_port answer, ssrc = offer_ssrc offer,
                               payload_type = RTP_PAYLOAD_TYPE, aes_key = offer_key offer,
                               aes_iv_mask = offer_iv_mask offer\<rparr>
                    in Inr (note_effect SenderStarted
                         (st1\<lparr>pl_sender := Some (if no_rtcp then s0 else start (w_is_ip w) s0)\<rparr>)))"

text \<open>What the statistics show after \<open>n\<close> turns of the capture thread.\<close>

definition stats_after :: "('v, 'a, 'e) world \<Rightarrow> audio_ring \<Rightarrow> sender \<Rightarrow> nat \<Rightarrow> u32 \<times> u64" where
  "stats_after w r s n =
     (case capture_start (w_opus w) OPUS_BITRATE r s (w_capture_at w) of
        Inl _ \<Rightarrow> snapshot s
      | Inr cs \<Rightarrow> snapshot (rtp (fst (capture_loop (w_opus w) (w_cipher w) (take n (w_capture_script w)) cs))))"

definition rate_between :: "('v, 'a, 'e) world \<Rightarrow> audio_ring \<Rightarrow> sender \<Rightarrow> nat \<times> nat \<Rightarrow> rat" where
  "rate_between w r s ts = bytes_per_frame (stats_after w r s (fst ts)) (stats_after w r s (snd ts))"

text \<open>
  From the start of the capture thread to the end. The thread owns the sender, stops it and drops
  it; when \<open>pw-cat\<close> cannot be started, \<open>main\<close> returns without it. A capture error is only printed.
\<close>

definition nest_stream ::
  "('v, 'a, 'e) world \<Rightarrow> nest \<Rightarrow> virtual_sink \<Rightarrow> sender \<Rightarrow> pipeline \<Rightarrow> nest_outcome \<times> pipeline" where
  "nest_stream w x sk s st0 =
     (case take_consumer sk of
        (None, _) \<Rightarrow> (NestPanicked, nest_drops w st0)
      | (Some r0, sk') \<Rightarrow>
          let r = producer_writes (w_played w) r0;
              st1 = st0\<lparr>pl_sink := Some sk', pl_sender := None\<rparr>
          in case player_error x of
               Some e \<Rightarrow> (NestReturned (Some (PlayerFailed e)), nest_drops w st1)
             | None \<Rightarrow>
                 (case capture_run w r s of
                    None \<Rightarrow> (NestUnfinished, st1)
                  | Some (_, s') \<Rightarrow>
                      let st2 = drop_pl_sender (stop_pl_sender (st1\<lparr>pl_stop := True, pl_sender := Some s'\<rparr>));
                          ok = nest_verdict (rate_between w r s (silence_turns x)) (rate_between w r s (tone_turns x));
                          st3 = drop_pl_sink (drop_pl_chan (drop_pl_incoming (drop_pl_session w st2)))
                      in (NestReturned (if ok then None else Some OutOfRange), st3)))"

definition nest_main ::
  "('v, 'a, 'e) world \<Rightarrow> nest \<Rightarrow> u64 \<Rightarrow> (nat \<Rightarrow> i16) \<Rightarrow> string list \<Rightarrow> nest_outcome \<times> pipeline" where
  "nest_main w x requests tone args =
     (let st0 = pl_start requests;
          mode = (if has_flag ''--video'' args then AudioVideo else AudioOnly)
      in case port_arg args of
           None \<Rightarrow> (NestReturned (Some BadPort), st0)
         | Some _ \<Rightarrow>
             (case make_tone_wav tone (tone_error x) of
                Inl e \<Rightarrow> (NestReturned (Some (ToneNotWritten e)), st0)
              | Inr _ \<Rightarrow>
                  (case nest_open w st0 of
                     Inl y \<Rightarrow> y
                   | Inr st1 \<Rightarrow>
                       (case nest_launch w mode (the (pl_chan st1)) st1 of
                          Inl y \<Rightarrow> y
                        | Inr st2 \<Rightarrow>
                            (case nest_negotiate w (host_arg args) (has_flag ''--no-rtcp'' args)
                                   (the (pl_session st2)) (the (pl_chan st2)) st2 of
                               Inl y \<Rightarrow> y
                             | Inr st3 \<Rightarrow> nest_stream w x (the (pl_sink st3)) (the (pl_sender st3)) st3)))))"

section \<open>What the drivers do\<close>

text \<open>The file is a RIFF file whose sizes are right and which plays the samples on both channels.\<close>

lemma length_to_le32 [simp]: "length (to_le32 v) = 4"
  by (simp add: to_le32_def)

lemma tone_samples:
  "s16le_samples (concat (map (\<lambda>i. to_le16 (f i) @ to_le16 (f i)) is)) = concat (map (\<lambda>i. [f i, f i]) is)"
  by (induction "is") (simp_all add: to_le16_def s16le_samples_Cons2 s16le_samples_short from_le16_bytes [unfolded to_le16_def])

lemma length_tone_data: "length (tone_data tone) = 1152000"
proof -
  have "length (concat (map (\<lambda>i. to_le16 (tone i) @ to_le16 (tone i)) is)) = 4 * length is" for "is"
    by (induction "is") simp_all
  then show ?thesis by (simp add: tone_data_def)
qed

lemma tone_file:
  assumes "make_tone_wav tone None = Inr wav"
  shows "length wav = 44 + 1152000" and "take 4 wav = as_bytes ''RIFF''" and "take 8 (drop 8 wav) = as_bytes ''WAVEfmt ''"
    and "take 4 (drop 4 wav) = to_le32 (of_nat (length wav - 8))"
    and "take 4 (drop 40 wav) = to_le32 (of_nat (length wav - 44))"
    and "s16le_samples (drop 44 wav) = concat (map (\<lambda>i. [tone i, tone i]) [0..<288000])"
proof -
  have wav: "wav = wav_file (tone_data tone)" using assms by (simp add: make_tone_wav_def)
  have parts: "length (as_bytes ''RIFF'') = 4" "length (as_bytes ''WAVEfmt '') = 8" "length (as_bytes ''data'') = 4"
    by simp_all
  show "length wav = 44 + 1152000" "take 4 wav = as_bytes ''RIFF''" "take 8 (drop 8 wav) = as_bytes ''WAVEfmt ''"
    "take 4 (drop 4 wav) = to_le32 (of_nat (length wav - 8))" "take 4 (drop 40 wav) = to_le32 (of_nat (length wav - 44))"
    by (simp_all add: wav wav_file_def Let_def length_tone_data parts)
  have "drop 44 wav = tone_data tone" by (simp add: wav wav_file_def Let_def parts)
  then show "s16le_samples (drop 44 wav) = concat (map (\<lambda>i. [tone i, tone i]) [0..<288000])"
    using tone_samples by (simp add: tone_data_def)
qed

text \<open>\<open>--port=0\<close> is taken, although the message of \<open>run_device\<close> asks for 1 to 65535.\<close>

lemma port_zero_accepted:
  "port_arg [''run_device'', ''10.0.0.7'', ''--port=0''] = Some 0" "port_arg [''run_device'', ''--port=65536''] = None"
  "port_arg [''run_device''] = Some 8009"
  by (simp_all add: port_arg_def strip_prefix_def parse_u16_def parse_u32_def)

lemma first_host_counts:
  "host_arg [''e2e_nest'', ''--video'', ''10.0.0.7'', ''10.0.0.8''] = ''10.0.0.7''" "host_arg [''e2e_nest''] = ''192.168.238.100''"
  by (simp_all add: host_arg_def strip_prefix_def)

text \<open>However \<open>e2e_nest\<close> returns or panics, it leaves nothing behind and has unloaded the application.\<close>

definition nest_released :: "pipeline \<Rightarrow> bool" where
  "nest_released st \<longleftrightarrow> \<not> pl_incoming st \<and> (\<forall>c. pl_chan st = Some c \<longrightarrow> joined c \<and> \<not> alive c) \<and>
     (\<forall>s. pl_sink st = Some s \<longrightarrow> \<not> sink_thread s) \<and>
     (pl_session st \<noteq> None \<and> pl_chan st \<noteq> None \<longrightarrow> SessionDropped \<in> set (pl_trace st))"

lemma drops_released: "nest_released (drop_pl_sink (drop_pl_chan (drop_pl_incoming (drop_pl_session w st))))"
  by (auto simp: nest_released_def)

lemma nest_drops_released: "nest_released (nest_drops w st)"
  unfolding nest_drops_def by (rule drops_released)

lemma nest_fails_released: "nest_fails w e st = Inl (out, st') \<Longrightarrow> nest_released st'"
  by (auto simp: nest_fails_def nest_drops_released)

lemma nest_open_released: "nest_open w st = Inl (out, st') \<Longrightarrow> nest_released st'"
  by (auto simp: nest_open_def Let_def dest!: nest_fails_released split: sum.splits prod.splits)

lemma nest_launch_released: "nest_launch w mode c st = Inl (out, st') \<Longrightarrow> out = NestUnfinished \<or> nest_released st'"
  by (auto simp: nest_launch_def Let_def dest!: nest_fails_released split: sum.splits prod.splits option.splits)

lemma nest_negotiate_released:
  "nest_negotiate w h no_rtcp sess c st = Inl (out, st') \<Longrightarrow> out = NestUnfinished \<or> nest_released st'"
  by (auto simp: nest_negotiate_def Let_def nest_drops_released dest!: nest_fails_released
      split: sum.splits prod.splits option.splits if_splits)

lemma nest_stream_released: "nest_stream w x sk s st = (out, st') \<Longrightarrow> out = NestUnfinished \<or> nest_released st'"
  by (auto simp: nest_stream_def Let_def nest_drops_released drops_released split: prod.splits option.splits)

lemma nest_leaves_nothing:
  assumes "nest_main w x requests tone args = (out, st)" and "out \<noteq> NestUnfinished"
  shows "nest_released st"
proof -
  have "nest_released (pl_start requests)" by (simp add: nest_released_def)
  with assms show ?thesis
    by (auto simp: nest_main_def Let_def split: option.splits sum.splits
        dest!: nest_open_released nest_launch_released nest_negotiate_released nest_stream_released)
qed

end
