(* ===== verification/Unit_Tests.thy ===== *)
theory Unit_Tests
  imports Ring_Endpoints Dispatcher Mirroring Discovery Virtual_Sink Virtual_Sink_Windows Pipeline
begin

text \<open>
  The unit tests of the crate, translated: each \<open>#[test]\<close> function is a definition of the same name
  with its assertions as a conjunction, and the lemma after it shows that it passes on the model.
  They compare the model with what the code is known to do, among it the vectors taken from
  \<open>protoc\<close> and from the Open Screen packetizer. \<open>hex::encode\<close> against a literal is stated with
  \<open>unhex\<close> of the literal; JSON values are those of \<open>demo_serde\<close>. Left out are the tests of
  libraries (AES, the PipeWire pod, \<open>clap\<close>) and the one that runs two threads at will
  (\<open>concurrent_producer_and_consumer\<close>: the theorems of \<open>Ring_Weak_Runs\<close>).
\<close>

section \<open>audio_ring.rs\<close>

definition pcm_bytes :: "i16 list \<Rightarrow> bytes" where
  "pcm_bytes vals = concat (map to_le16 vals)"

definition roundtrip_preserves_samples :: bool where
  "roundtrip_preserves_samples = (case channel 8 2 of None \<Rightarrow> False | Some r0 \<Rightarrow>
     let r1 = write_s16le r0 (pcm_bytes [1, 2, 3, 4, 5, 6]); (ok, out, r2) = read_frames r1 (replicate 4 0)
     in available_frames r1 = 3 \<and> ok \<and> out = [1, 2, 3, 4] \<and> available_frames r2 = 1)"

definition underrun_consumes_nothing :: bool where
  "underrun_consumes_nothing = (case channel 8 2 of None \<Rightarrow> False | Some r0 \<Rightarrow>
     let (ok, out, r) = read_frames (write_s16le r0 (pcm_bytes [1, 2])) (replicate 4 0)
     in \<not> ok \<and> available_frames r = 1)"

definition wraps_around_the_end :: bool where
  "wraps_around_the_end = (case channel 4 2 of None \<Rightarrow> False | Some r0 \<Rightarrow>
     let (ok1, out1, r1) = read_frames (write_s16le r0 (pcm_bytes [1, 1, 2, 2, 3, 3])) (replicate 4 0);
         (ok2, out2, r2) = read_frames (write_s16le r1 (pcm_bytes [4, 4, 5, 5])) out1
     in ok1 \<and> ok2 \<and> out2 = [3, 3, 4, 4])"

definition skip_advances_reader :: bool where
  "skip_advances_reader = (case channel 8 2 of None \<Rightarrow> False | Some r0 \<Rightarrow>
     let (ok, out, r) = read_frames (skip_frames (write_s16le r0 (pcm_bytes [1, 1, 2, 2, 3, 3, 4, 4])) 3) [0, 0]
     in ok \<and> out = [4, 4])"

definition skip_cannot_overtake_the_writer :: bool where
  "skip_cannot_overtake_the_writer = (case channel 8 2 of None \<Rightarrow> False | Some r0 \<Rightarrow>
     let r = skip_frames (write_s16le r0 (pcm_bytes [1, 1, 2, 2])) 99
     in available_frames r = 0 \<and> \<not> fst (read_frames r [0, 0]))"

definition overrun_is_visible_to_consumer :: bool where
  "overrun_is_visible_to_consumer = (case channel 4 2 of None \<Rightarrow> False | Some r0 \<Rightarrow>
     let r = fold (\<lambda>_ r. write_s16le r (pcm_bytes [9, 9, 9, 9, 9, 9, 9, 9])) [0 :: nat ..< 3] r0
     in available_frames r > capacity_frames r \<and> \<not> fst (read_frames r [0, 0]))"

definition oversized_chunk_keeps_newest :: bool where
  "oversized_chunk_keeps_newest = (case channel 2 2 of None \<Rightarrow> False | Some r0 \<Rightarrow>
     let r = write_s16le r0 (pcm_bytes [1, 1, 2, 2, 3, 3]); (ok, out, _) = read_frames r (replicate 4 0)
     in available_frames r = 2 \<and> ok \<and> out = [2, 2, 3, 3])"

definition chunk_exactly_capacity_is_kept_whole :: bool where
  "chunk_exactly_capacity_is_kept_whole = (case channel 4 2 of None \<Rightarrow> False | Some r0 \<Rightarrow>
     let r = write_s16le r0 (pcm_bytes [1, 1, 2, 2, 3, 3, 4, 4]); (ok, out, _) = read_frames r (replicate 8 0)
     in available_frames r = 4 \<and> ok \<and> out = [1, 1, 2, 2, 3, 3, 4, 4])"

definition empty_request_is_rejected :: bool where
  "empty_request_is_rejected = (case channel 8 2 of None \<Rightarrow> False | Some r0 \<Rightarrow>
     let (ok, _, r) = read_frames (write_s16le r0 (pcm_bytes [1, 1])) []
     in \<not> ok \<and> available_frames r = 1)"

text \<open>\<open>drop(tx)\<close> drops the producer's handle; the closer keeps its own.\<close>

definition close_is_observable :: bool where
  "close_is_observable =
     (case open_channel 0 8 2 (\<lambda>_. None) of
        Some (tx, rx, \<sigma>) \<Rightarrow>
          let closer = producer_closer tx
          in consumer_is_closed rx \<sigma> = Some False \<and> consumer_is_closed rx (closer_close closer \<sigma>) = Some True
      | None \<Rightarrow> False)"

lemma ring_tests_pass:
  roundtrip_preserves_samples underrun_consumes_nothing wraps_around_the_end skip_advances_reader
  skip_cannot_overtake_the_writer overrun_is_visible_to_consumer oversized_chunk_keeps_newest
  chunk_exactly_capacity_is_kept_whole empty_request_is_rejected close_is_observable
  by code_simp+

section \<open>cast_channel.rs\<close>

fun hex_value :: "char \<Rightarrow> u8" where
  "hex_value c = (if c < CHR ''a'' then of_nat (of_char c - 48) else of_nat (of_char c - 87))"

fun unhex :: "string \<Rightarrow> bytes" where
  "unhex (a # b # s) = (hex_value a * 16 + hex_value b) # unhex s"
| "unhex _ = []"

definition is_err :: "'e + 'a \<Rightarrow> bool" where
  "is_err x = (case x of Inl _ \<Rightarrow> True | Inr _ \<Rightarrow> False)"

definition encoding_matches_official_protobuf :: bool where
  "encoding_matches_official_protobuf \<longleftrightarrow>
     encode_cast_message \<lparr>source = ''sender-0'', destination = ''receiver-0'', namespace = NS_HEARTBEAT,
         payload = ''{\"type\":\"PING\"}''\<rparr>
       = unhex (''0800120873656e6465722d301a0a72656365697665722d30222775726e3a782d'' @
           ''636173743a636f6d2e676f6f676c652e636173742e74702e6865617274626561'' @
           ''742800320f7b2274797065223a2250494e47227d'') \<and>
     encode_cast_message \<lparr>source = ''sender-0'', destination = ''173cb36a-a488-4fc3-963a-651334ad51c1'',
         namespace = NS_WEBRTC, payload = ''{\"type\":\"OFFER\",\"seqNum\":1}''\<rparr>
       = unhex (''0800120873656e6465722d301a2431373363623336612d613438382d34666333'' @
           ''2d393633612d363531333334616435316331222175726e3a782d636173743a63'' @
           ''6f6d2e676f6f676c652e636173742e7765627274632800321b7b227479706522'' @
           ''3a224f46464552222c227365714e756d223a317d'')"

lemma protobuf_test_passes: encoding_matches_official_protobuf
  by code_simp

definition roundtrip_cast_message :: bool where
  "roundtrip_cast_message =
     (let m = \<lparr>source = ''sender-0'', destination = ''receiver-0'', namespace = ''urn:x-cast:foo'',
                payload = ''{\"type\":\"PING\"}''\<rparr>
      in case decode_cast_message (encode_cast_message m) of
           Inl _ \<Rightarrow> False
         | Inr d \<Rightarrow> source d = source m \<and> destination d = destination m \<and> namespace d = namespace m \<and>
             payload d = payload m)"

definition sample :: cast_message where
  "sample = \<lparr>source = ''sender-0'', destination = ''receiver-0'', namespace = NS_HEARTBEAT,
     payload = ''{\"type\":\"PING\"}''\<rparr>"

lemma roundtrip_test_passes: roundtrip_cast_message
proof -
  let ?m = "\<lparr>source = ''sender-0'', destination = ''receiver-0'', namespace = ''urn:x-cast:foo'',
      payload = ''{\"type\":\"PING\"}''\<rparr>"
  have "fields_ok ?m" unfolding fields_ok_def string_ok_def by code_simp
  then have "message_ok ?m" by (simp add: message_ok_def fields_ok_def)
  then show ?thesis by (simp add: roundtrip_cast_message_def decode_encode Let_def)
qed

definition decode_rejects_oversized_length_delimited_field :: bool where
  "decode_rejects_oversized_length_delimited_field \<longleftrightarrow>
     list_all (\<lambda>len. is_err (decode_cast_message ([0x12] @ write_varint len @ as_bytes ''AAAAAAAAAAAAAAAA'')))
       [-1, -1 - 1, push_bit 63 1, push_bit 62 1, 0xFFFFFFFF, 17]"

lemma oversized_rejected:
  assumes "17 \<le> len"
  shows "is_err (decode_cast_message ([0x12] @ write_varint len @ as_bytes ''AAAAAAAAAAAAAAAA''))"
proof -
  let ?rest = "as_bytes ''AAAAAAAAAAAAAAAA''" and ?p = "1 + length (write_varint len)"
  let ?data = "[0x12] @ write_varint len @ ?rest"
  have "write_varint 0x12 = [0x12]" by (subst write_varint.simps) simp
  then have "read_varint ?data 0 = Inr (0x12, 1)" using read_write_varint [of "[]" "0x12" "write_varint len @ ?rest"] by simp
  moreover have "read_varint ?data 1 = Inr (len, ?p)" using read_write_varint [of "[0x12]" len ?rest] by simp
  moreover have "length ?rest = 16" by simp
  then have "of_nat (length ?data - ?p) < len" using assms by (simp add: word_less_nat_alt word_le_nat_alt)
  ultimately have "decode_field ?data 0 m = Inl FieldOverrun" for m
    by (simp add: decode_field_def Let_def)
  then have "decode_loop ?data 0 m = Inl FieldOverrun" for m by (subst decode_loop.simps) simp
  then show ?thesis by (simp add: decode_cast_message_def is_err_def)
qed

lemma oversized_test_passes: decode_rejects_oversized_length_delimited_field
  unfolding decode_rejects_oversized_length_delimited_field_def list.pred_inject
  by (intro conjI TrueI oversized_rejected) simp_all

definition decode_rejects_malformed_varints :: bool where
  "decode_rejects_malformed_varints \<longleftrightarrow>
     is_err (decode_cast_message [0x80]) \<and> is_err (decode_cast_message (replicate 16 0xFF)) \<and>
     is_err (decode_cast_message [0x08]) \<and>
     is_err (decode_cast_message [0x09, 0, 0, 0, 0, 0, 0, 0, 0]) \<and>
     is_err (decode_cast_message [0x0D, 0, 0, 0, 0])"

lemma malformed_test_passes: decode_rejects_malformed_varints
  unfolding decode_rejects_malformed_varints_def
  by (intro conjI) (simp_all add: decode_cast_message_def decode_loop.simps decode_field_def read_varint_def
      read_varint_loop.simps is_err_def Let_def)

definition decode_never_panics_on_corrupt_input :: bool where
  "decode_never_panics_on_corrupt_input =
     (let full = encode_cast_message sample
      in list_all (\<lambda>n. decode_cast_message (take n full) \<noteq> Inl Panic) [0..<length full] \<and>
         list_all (\<lambda>i. list_all (\<lambda>b. decode_cast_message (full[i := full ! i XOR push_bit b 1]) \<noteq> Inl Panic) [0..<8])
           [0..<length full])"

lemma never_panics_test_passes: decode_never_panics_on_corrupt_input
proof -
  have no: "decode_cast_message data \<noteq> Inl Panic" if "length data < 2 ^ 64" for data
    unfolding decode_cast_message_def using decode_loop_total [OF that] by (simp add: fields_ok_def)
  have "length (encode_cast_message sample) \<le> 200" by code_simp
  then show ?thesis unfolding decode_never_panics_on_corrupt_input_def Let_def list_all_iff
    by (intro conjI ballI no) auto
qed

lemma take_frame_to_be32:
  "take_frame (to_be32 len @ rest) =
     (if MAX_BODY_SIZE < unat len then Inl (unat len)
      else if length rest < unat len then Inr (None, to_be32 len @ rest)
      else Inr (Some (take (unat len) rest), drop (unat len) rest))"
  by (simp add: take_frame_def to_be32_def Let_def from_be32_bytes)

definition take_frame_rejects_oversized_declared_length :: bool where
  "take_frame_rejects_oversized_declared_length \<longleftrightarrow>
     list_all (\<lambda>len. let acc = to_be32 len in is_err (take_frame acc) \<and> length acc = 4)
       [0xFFFFFFFF, 300 * 1024 * 1024, of_nat MAX_BODY_SIZE + 1]"

lemma oversized_frame_test_passes: take_frame_rejects_oversized_declared_length
  using take_frame_to_be32 [of "0xFFFFFFFF" "[]"] take_frame_to_be32 [of "300 * 1024 * 1024" "[]"]
    take_frame_to_be32 [of "of_nat MAX_BODY_SIZE + 1" "[]"]
  by (simp add: take_frame_rejects_oversized_declared_length_def is_err_def MAX_BODY_SIZE_def)

definition take_frame_accepts_max_body_size :: bool where
  "take_frame_accepts_max_body_size =
     (let body = replicate MAX_BODY_SIZE 0
      in take_frame (to_be32 (of_nat MAX_BODY_SIZE) @ body) = Inr (Some body, []))"

lemma max_body_test_passes: take_frame_accepts_max_body_size
  unfolding take_frame_accepts_max_body_size_def Let_def take_frame_to_be32 by (simp add: MAX_BODY_SIZE_def)

text \<open>Byte by byte: the buffer, the frames so far (all equal to the body), and whether all is well.\<close>

definition feed_byte :: "bytes \<Rightarrow> u8 \<Rightarrow> (bytes \<times> nat \<times> bool) \<Rightarrow> (bytes \<times> nat \<times> bool)" where
  "feed_byte body b st =
     (case st of (held, n, ok) \<Rightarrow>
        case drain_frames (held @ [b]) of
          (fs, rest, err) \<Rightarrow> (rest, n + length fs, ok \<and> err = None \<and> list_all (\<lambda>f. f = body) fs))"

definition take_frame_waits_for_complete_frames :: bool where
  "take_frame_waits_for_complete_frames =
     (let body = encode_cast_message sample;
          one = to_be32 (of_nat (length body)) @ body
      in fold (feed_byte body) (one @ one) ([], 0, True) = ([], 2, True))"

lemma drain_prefix:
  assumes "n < 4 + length body" and "length body \<le> MAX_BODY_SIZE"
  shows "drain_frames (take n (to_be32 (of_nat (length body)) @ body)) =
    ([], take n (to_be32 (of_nat (length body)) @ body), None)"
proof -
  let ?one = "to_be32 (of_nat (length body)) @ body"
  have u: "unat (of_nat (length body) :: u32) = length body"
    using assms(2) by (intro unat_of_nat32) (simp add: MAX_BODY_SIZE_def)
  have "take_frame (take n ?one) = Inr (None, take n ?one)"
  proof (cases "n < 4")
    case True
    then show ?thesis by (simp add: take_frame_def)
  next
    case False
    then have "take n ?one = to_be32 (of_nat (length body)) @ take (n - 4) body" by simp
    then show ?thesis using take_frame_to_be32 [of "of_nat (length body)" "take (n - 4) body"] u assms by auto
  qed
  then show ?thesis by (subst drain_frames.simps) simp
qed

lemma feed_frame:
  assumes "length body \<le> MAX_BODY_SIZE"
  shows "fold (feed_byte body) (to_be32 (of_nat (length body)) @ body) ([], n, True) = ([], Suc n, True)"
proof -
  let ?one = "to_be32 (of_nat (length body)) @ body"
  have len: "length ?one = 4 + length body" by simp
  have part: "m < 4 + length body \<Longrightarrow> fold (feed_byte body) (take m ?one) ([], n, True) = (take m ?one, n, True)" for m
  proof (induction m)
    case (Suc m)
    then have "take (Suc m) ?one = take m ?one @ [?one ! m]" by (intro take_Suc_conv_app_nth) simp
    with Suc drain_prefix [OF Suc.prems assms] show ?case by (simp add: feed_byte_def)
  qed simp
  have whole: "drain_frames ?one = ([body], [], None)"
  proof -
    have "unat (of_nat (length body) :: u32) = length body"
      using assms by (intro unat_of_nat32) (simp add: MAX_BODY_SIZE_def)
    then have "take_frame ?one = Inr (Some body, [])"
      using take_frame_to_be32 [of "of_nat (length body)" body] assms by simp
    moreover have "drain_frames [] = ([], [], None)" by (subst drain_frames.simps) (simp add: take_frame_def)
    ultimately show ?thesis by (subst drain_frames.simps) simp
  qed
  define xs b where xs: "xs = take (3 + length body) ?one" and b: "b = ?one ! (3 + length body)"
  have split: "?one = xs @ [b]"
    using take_Suc_conv_app_nth [of "3 + length body" ?one] len by (simp add: xs b)
  have "fold (feed_byte body) xs ([], n, True) = (xs, n, True)" using part [of "3 + length body"] by (simp add: xs)
  then have "fold (feed_byte body) (xs @ [b]) ([], n, True) = ([], Suc n, True)"
    using whole [unfolded split] by (simp add: feed_byte_def)
  then show ?thesis by (simp only: split)
qed

lemma waits_test_passes: take_frame_waits_for_complete_frames
proof -
  have "length (encode_cast_message sample) \<le> 200" by code_simp
  then have "length (encode_cast_message sample) \<le> MAX_BODY_SIZE" by (simp add: MAX_BODY_SIZE_def)
  from feed_frame [OF this] show ?thesis
    unfolding take_frame_waits_for_complete_frames_def Let_def fold_append comp_def by (simp del: fold_append)
qed

text \<open>\<open>cfg!(windows)\<close> and the version of the package are arguments.\<close>

definition connect_payload_names_the_build_platform :: "bool \<Rightarrow> string \<Rightarrow> bool" where
  "connect_payload_names_the_build_platform windows version =
     (let js = demo_serde []; p = build_connect_payload js windows version;
          (platform, os) = (if windows then (3, ''Windows'') else (6, ''Linux''));
          ending = ''('' @ os @ ''; Rust)''
      in (case get js p ''senderInfo'' of
            None \<Rightarrow> False
          | Some info \<Rightarrow> get js info ''platform'' = Some (JNum platform) \<and>
              get js info ''systemVersion'' = Some (JStr os)) \<and>
         (case get_str js p ''userAgent'' of
            None \<Rightarrow> False
          | Some s \<Rightarrow> drop (length s - length ending) s = ending))"

lemma connect_payload_test_passes: "connect_payload_names_the_build_platform windows version"
  by (cases windows) (simp_all add: connect_payload_names_the_build_platform_def build_connect_payload_def
      demo_serde_def get_str_def Let_def)

section \<open>cast_rtp.rs\<close>

definition test_cfg :: config where
  "test_cfg = \<lparr>chromecast_host = ''127.0.0.1'', udp_port = 9999, ssrc = 0xDEADBEEF, payload_type = 127,
     aes_key = replicate 16 0, aes_iv_mask = replicate 16 0x11\<rparr>"

text \<open>\<open>stats\<close> is compiled for the tests only.\<close>

definition stats :: "sender \<Rightarrow> u32 \<times> u64" where
  "stats s = (frame_id s, octet_count s)"

text \<open>Three sends that the socket refuses with \<open>e\<close>, then one that arrives; \<open>now\<close> is its time.\<close>

definition failed_send_does_not_advance_frame_id :: "cipher \<Rightarrow> io_error \<Rightarrow> nanos \<Rightarrow> bool" where
  "failed_send_does_not_advance_frame_id cipher e now =
     (let opus = as_bytes ''opus''; s0 = new test_cfg;
          (r1, s1, _) = send_frame cipher (Some e) now opus s0;
          (r2, s2, _) = send_frame cipher (Some e) now opus s1;
          (r3, s3, _) = send_frame cipher (Some e) now opus s2;
          (r4, s4, pkt) = send_frame cipher None now opus s3
      in is_err r1 \<and> stats s1 = (0, 0) \<and> is_err r2 \<and> stats s2 = (0, 0) \<and> is_err r3 \<and> stats s3 = (0, 0) \<and>
         \<not> is_err r4 \<and> length pkt = 19 + 4 \<and> pkt ! 13 = 0 \<and> stats s4 = (1, 4))"

lemma failed_send_test_passes:
  assumes "\<And>k n d. length (cipher k n d) = length d"
  shows "failed_send_does_not_advance_frame_id cipher e now"
  by (simp add: failed_send_does_not_advance_frame_id_def send_frame_def new_def stats_def build_packet_def
      encrypt_def assms is_err_def to_be16_def to_be32_def Let_def)

definition diff_cfg :: config where
  "diff_cfg = \<lparr>chromecast_host = ''127.0.0.1'', udp_port = 1, ssrc = 0xDEADBEEF, payload_type = 127,
     aes_key = map of_nat [0..<16], aes_iv_mask = map (\<lambda>i. 0xF0 + of_nat i) [0..<16]\<rparr>"

definition ascii :: "string \<Rightarrow> bytes" where
  "ascii s = map (\<lambda>c. of_nat (of_char c)) s"

definition packet_matches_openscreen_layout :: bool where
  "packet_matches_openscreen_layout \<longleftrightarrow>
     build_packet diff_cfg (ascii ''payload'') 5 = unhex ''80ff000500000960deadbeefc00500000000057061796c6f6164'' \<and>
     build_packet diff_cfg (ascii ''xy'') 300 = unhex ''80ff012c00023280deadbeefc02c000000002c7879''"

lemma packet_test_passes: packet_matches_openscreen_layout
  by code_simp

text \<open>\<open>wall\<close> is the clock the wrapper reads.\<close>

definition rtcp_sr_matches_reference_vector :: "int \<Rightarrow> bool" where
  "rtcp_sr_matches_reference_vector wall =
     (let sr = build_rtcp_sr_at 0xDEADBEEF 12345 987654 1234567890500000000;
          live = build_rtcp_sr 0xDEADBEEF 12345 987654 wall
      in sr = unhex ''80c80006deadbeefcd40815280000000005a6ae000003039000f1206'' \<and>
         take 8 live = take 8 sr \<and> drop 16 live = drop 16 sr)"

lemma sr_test_passes: "rtcp_sr_matches_reference_vector wall"
  by (simp add: rtcp_sr_matches_reference_vector_def build_rtcp_sr_def build_rtcp_sr_at_def NTP_EPOCH_OFFSET_SECS_def
      OPUS_SAMPLES_PER_FRAME_def SAMPLE_RATE_def to_be32_def to_be16_def Let_def)

definition nack_frame_ids_expand_past_the_checkpoint :: bool where
  "nack_frame_ids_expand_past_the_checkpoint =
     (let fb = feedback 7 195 [(196, ALL_PACKETS_LOST, 0), (2, 0, 0)]
      in parse_nacked_frames fb 7 780 = [708, 770] \<and> parse_nacked_frames fb 8 780 = [])"

definition nacks_for_packets_we_never_send_are_ignored :: bool where
  "nacks_for_packets_we_never_send_are_ignored \<longleftrightarrow>
     parse_nacked_frames (feedback 7 10 [(11, 1, 3), (12, 0, 1)]) 7 20 = [12]"

definition malformed_rtcp_yields_no_nacks :: bool where
  "malformed_rtcp_yields_no_nacks =
     (let fb = feedback 7 10 [(11, 0, 0)];
          truncated = butlast fb;
          bad_magic = fb[32 := fb ! 32 XOR 1];
          overstated_losses = fb[37 := 2]
      in list_all (\<lambda>bad. parse_nacked_frames bad 7 20 = []) [truncated, bad_magic, overstated_losses, [0x80]])"

lemma nack_tests_pass:
  nack_frame_ids_expand_past_the_checkpoint nacks_for_packets_we_never_send_are_ignored malformed_rtcp_yields_no_nacks
  by code_simp+

definition history_keeps_only_the_last_window_of_frames :: bool where
  "history_keeps_only_the_last_window_of_frames =
     (let h = fold (\<lambda>fid h. record_packet h (of_nat fid) [] 0) [0..<201] history_new
      in get_mut h 80 = None \<and> map_option pkt_id (get_mut h 81) = Some 81 \<and> get_mut h 201 = None)"

lemma history_test_passes: history_keeps_only_the_last_window_of_frames
  by code_simp

text \<open>The packets were sent at \<open>t0\<close>, \<open>t1\<close> and \<open>t2\<close>; the NACK is served at \<open>now\<close>.\<close>

definition nacked_frame_is_retransmitted_byte_for_byte ::
  "cipher \<Rightarrow> nanos \<Rightarrow> nanos \<Rightarrow> nanos \<Rightarrow> nanos \<Rightarrow> bool" where
  "nacked_frame_is_retransmitted_byte_for_byte cipher t0 t1 t2 now =
     (let s0 = start (\<lambda>_. True) (new test_cfg);
          (_, s1, sent0) = send_frame cipher None t0 (as_bytes ''aaaa'') s0;
          (_, s2, sent1) = send_frame cipher None t1 (as_bytes ''bbbb'') s1;
          (_, s3, sent2) = send_frame cipher None t2 (as_bytes ''cccc'') s2;
          nack = feedback (ssrc test_cfg) 0 [(1, ALL_PACKETS_LOST, 0)];
          (resent, _) = serve_nack ''127.0.0.1'' (ssrc (conf s3)) (Some (nack, ''127.0.0.1'')) now (\<lambda>_. True)
            (sent_history s3)
      in map snd resent = [sent1])"

lemma retransmit_test_passes:
  assumes "t1 + MIN_RESEND_INTERVAL \<le> now"
  shows "nacked_frame_is_retransmitted_byte_for_byte cipher t0 t1 t2 now"
proof -
  have "parse_nacked_frames (feedback 0xDEADBEEF 0 [(1, ALL_PACKETS_LOST, 0)]) 0xDEADBEEF 2 = [1]" by code_simp
  moreover have "ssrc test_cfg = 0xDEADBEEF" by (simp add: test_cfg_def)
  ultimately show ?thesis using assms
    by (simp add: nacked_frame_is_retransmitted_byte_for_byte_def send_frame_def start_def new_def serve_nack_def
        record_packet_def get_mut_def history_slot_def history_new_def HISTORY_FRAMES_def Let_def)
qed

section \<open>discovery.rs, pipeline.rs\<close>

definition ca_bitmask_decides_when_present :: bool where
  "ca_bitmask_decides_when_present \<longleftrightarrow>
     is_audio_only_device (Some 198660) None \<and> is_audio_only_device (Some 2052) (Some ''Chromecast Audio'') \<and>
     \<not> is_audio_only_device (Some 4101) None \<and> \<not> is_audio_only_device (Some 4101) (Some ''Nest Mini'')"

definition model_fallback_without_ca :: bool where
  "model_fallback_without_ca \<longleftrightarrow>
     is_audio_only_device None (Some ''Google Nest Mini'') \<and> is_audio_only_device None (Some ''Google Home Max'') \<and>
     \<not> is_audio_only_device None (Some ''Chromecast Ultra'') \<and> \<not> is_audio_only_device None None"

text \<open>The resolver returns a literal's own address.\<close>

definition resolve_ipv4_rejects_ipv6_literals :: bool where
  "resolve_ipv4_rejects_ipv6_literals \<longleftrightarrow>
     resolve_ipv4 ''127.0.0.1'' (Some [V4 127 0 0 1]) = Inr (V4 127 0 0 1) \<and>
     is_err (resolve_ipv4 ''::1'' (Some [V6 [0, 0, 0, 0, 0, 0, 0, 1]]))"

lemma device_tests_pass: ca_bitmask_decides_when_present model_fallback_without_ca resolve_ipv4_rejects_ipv6_literals
  by code_simp+

section \<open>mirroring.rs\<close>

definition cast_msg :: "string \<Rightarrow> string \<Rightarrow> cast_message" where
  "cast_msg ns text =
     \<lparr>source = PLATFORM_RECEIVER_ID, destination = ''sender-0'', namespace = ns, payload = text\<rparr>"

text \<open>The sender is gone, so the first \<open>recv_timeout\<close> says so, \<open>started\<close> before the deadline.\<close>

definition disconnect_bails_instead_of_spinning_to_the_deadline :: "nanos \<Rightarrow> bool" where
  "disconnect_bails_instead_of_spinning_to_the_deadline started =
     (case wait_for_json_message (demo_serde []) NS_RECEIVER (started + secs 10) (\<lambda>_. Some (Inr ()))
             [(started, RecvDisconnected)] of
        Some (Inl ConnectionLost, _) \<Rightarrow> True
      | _ \<Rightarrow> False)"

text \<open>The sender lives and is silent: \<open>recv_timeout\<close> returns at the deadline, or later.\<close>

definition live_sender_still_waits_for_the_deadline :: "nanos \<Rightarrow> nanos \<Rightarrow> bool" where
  "live_sender_still_waits_for_the_deadline started late =
     (case wait_for_json_message (demo_serde []) NS_RECEIVER (started + millis 300) (\<lambda>_. None :: (mirror_error + unit) option)
             [(started, RecvTimeout), (started + millis 300 + late, RecvTimeout)] of
        Some (Inl ReplyTimedOut, _) \<Rightarrow> True
      | _ \<Rightarrow> False)"

definition other_namespaces_and_non_json_never_reach_the_predicate :: bool where
  "other_namespaces_and_non_json_never_reach_the_predicate =
     (let js = demo_serde [(''{\"requestId\":7}'', JObj [(''requestId'', JNum 7)]),
                           (''{\"type\":\"ANSWER\"}'', JObj [(''type'', JStr ''ANSWER'')])]
      in case wait_for_json_message js NS_RECEIVER (secs 5) (\<lambda>v. Some (Inr (get_u64 js v ''requestId'')))
                [(0, Msg (cast_msg NS_WEBRTC ''{\"type\":\"ANSWER\"}'')), (0, Msg (cast_msg NS_RECEIVER ''not json'')),
                 (0, Msg (cast_msg NS_RECEIVER ''{\"requestId\":7}''))] of
           Some (Inr r, _) \<Rightarrow> r = Some 7
         | _ \<Rightarrow> False)"

text \<open>\<open>hex::encode\<close> is the argument, with its results on the two keys.\<close>

definition offer_matches_the_payload_a_nest_mini_accepted :: "(bytes \<Rightarrow> string) \<Rightarrow> bool" where
  "offer_matches_the_payload_a_nest_mini_accepted hex =
     (let offer = \<lparr>offer_ssrc = 883259073, offer_key = replicate 16 0xAC, offer_iv_mask = replicate 16 0xA0\<rparr>;
          expected = JObj
            [(''type'', JStr ''OFFER''), (''seqNum'', JNum 2),
             (''offer'', JObj
               [(''castMode'', JStr ''mirroring''),
                (''supportedStreams'', JArr [JObj
                  [(''index'', JNum 0), (''type'', JStr ''audio_source''), (''codecName'', JStr ''opus''),
                   (''codecParameter'', JStr []), (''rtpProfile'', JStr ''cast''), (''rtpPayloadType'', JNum 127),
                   (''ssrc'', JNum 883259073), (''targetDelay'', JNum 0),
                   (''aesKey'', JStr ''acacacacacacacacacacacacacacacac''),
                   (''aesIvMask'', JStr ''a0a0a0a0a0a0a0a0a0a0a0a0a0a0a0a0''), (''timeBase'', JStr ''1/48000''),
                   (''receiverRtcpEventLog'', JBool False), (''bitRate'', JNum 128000), (''channels'', JNum 2)]])])]
      in build_offer_payload (demo_serde []) hex 2 offer = expected)"

lemma offer_test_passes:
  assumes "hex (replicate 16 0xAC) = ''acacacacacacacacacacacacacacacac''"
    and "hex (replicate 16 0xA0) = ''a0a0a0a0a0a0a0a0a0a0a0a0a0a0a0a0''"
  shows "offer_matches_the_payload_a_nest_mini_accepted hex"
proof -
  have "char_of (52 :: nat) = CHR ''4''" "char_of (56 :: nat) = CHR ''8''" "char_of (48 :: nat) = CHR ''0''"
    by code_simp+
  then have vals: "digits (unat SAMPLE_RATE) = ''48000''" "uint RTP_PAYLOAD_TYPE = 127" "uint (883259073 :: u32) = 883259073"
    "uint TARGET_DELAY_MS = 0" "OPUS_BITRATE = 128000" "uint CHANNELS = 2"
    by (simp_all add: digits.simps SAMPLE_RATE_def RTP_PAYLOAD_TYPE_def TARGET_DELAY_MS_def OPUS_BITRATE_def CHANNELS_def)
  show ?thesis
    unfolding offer_matches_the_payload_a_nest_mini_accepted_def build_offer_payload_def demo_serde_def Let_def
    by (simp only: serde.select_convs stream_offer.select_convs assms vals OPUS_CODEC_def append.simps)
qed

definition parse_answer_extracts_port_and_indexes :: bool where
  "parse_answer_extracts_port_and_indexes =
     (let v = JObj [(''result'', JStr ''ok''),
                (''answer'', JObj [(''udpPort'', JNum 44321), (''sendIndexes'', JArr [JNum 0]), (''ssrcs'', JArr [JNum 1])])]
      in case parse_answer (demo_serde []) v of
           Inl _ \<Rightarrow> False
         | Inr a \<Rightarrow> answer_port a = 44321 \<and> send_indexes a = [0])"

definition parse_answer_rejects_errors_and_missing_port :: bool where
  "parse_answer_rejects_errors_and_missing_port \<longleftrightarrow>
     is_err (parse_answer (demo_serde []) (JObj [(''result'', JStr ''error'')])) \<and>
     is_err (parse_answer (demo_serde []) (JObj [(''result'', JStr ''ok'')])) \<and>
     is_err (parse_answer (demo_serde [])
       (JObj [(''result'', JStr ''ok''), (''answer'', JObj [(''sendIndexes'', JArr [JNum 0])])]))"

text \<open>The error carries the value it names.\<close>

definition parse_answer_enforces_port_range :: bool where
  "parse_answer_enforces_port_range =
     (let with_port = (\<lambda>p. parse_answer (demo_serde []) (JObj [(''result'', JStr ''ok''),
            (''answer'', JObj [(''udpPort'', JNum p), (''sendIndexes'', JArr [JNum 0]), (''ssrcs'', JArr [JNum 1])])]))
      in is_err (with_port 0) \<and>
         (case with_port 65535 of Inl _ \<Rightarrow> False | Inr a \<Rightarrow> answer_port a = 65535) \<and>
         (case with_port 70000 of Inl e \<Rightarrow> e = PortOutOfRange 70000 | Inr _ \<Rightarrow> False))"

lemma answer_tests_pass:
  parse_answer_extracts_port_and_indexes parse_answer_rejects_errors_and_missing_port
  by code_simp+

lemma predicate_test_passes: other_namespaces_and_non_json_never_reach_the_predicate
  by (simp add: other_namespaces_and_non_json_never_reach_the_predicate_def cast_msg_def demo_serde_def
      NS_RECEIVER_def NS_WEBRTC_def get_u64_def secs_def Let_def)

lemma port_range_test_passes: parse_answer_enforces_port_range
  by (simp add: parse_answer_enforces_port_range_def parse_answer_def demo_serde_def get_str_def get_u64_def
      is_err_def Let_def)

lemma waiting_tests_pass:
  "disconnect_bails_instead_of_spinning_to_the_deadline started"
  "live_sender_still_waits_for_the_deadline started late"
  by (simp_all add: disconnect_bails_instead_of_spinning_to_the_deadline_def
      live_sender_still_waits_for_the_deadline_def secs_def millis_def)

section \<open>virtual_sink.rs, virtual_sink_windows.rs\<close>

text \<open>The second name is two characters of three UTF-8 bytes each.\<close>

definition sink_name_sanitize :: bool where
  "sink_name_sanitize \<longleftrightarrow>
     sanitize_sink_name ''Living Room speaker'' = ''chromecast_sink_living_room_speaker'' \<and>
     sanitize_sink_name (map char_of [0xE5 :: nat, 0xAF, 0x9D, 0xE5, 0xAE, 0xA4]) = ''chromecast_sink'' \<and>
     sanitize_sink_name ''Nest-Mini!'' = ''chromecast_sink_nest_mini''"

definition float_format_is_48k_f32_stereo :: bool where
  "float_format_is_48k_f32_stereo =
     (let f = float_format
      in wFormatTag f = 3 \<and> nSamplesPerSec f = 48000 \<and> wBitsPerSample f = 32 \<and> nChannels f = 2 \<and>
         nBlockAlign f = 8 \<and> nAvgBytesPerSec f = 384000)"

lemma sink_tests_pass: sink_name_sanitize float_format_is_48k_f32_stereo
  by code_simp+

text \<open>The bit patterns of 0, -0, 0.5, -1, 1, 2, -2, NaN and 1.4 / 32768.\<close>

definition f32_to_s16_rounds_and_saturates :: bool where
  "f32_to_s16_rounds_and_saturates =
     (let input = concat (map (\<lambda>w. rev (to_be32 w))
            [0, 0x80000000, 0x3F000000, 0xBF800000, 0x3F800000, 0x40000000, 0xC0000000, 0x7FC00000, 0x38333333]);
          got = map (\<lambda>b. from_le16 (b ! 0) (b ! 1)) (chunks_exact 2 (f32le_to_s16le input))
      in got = [0, 0, 16384, -32768, 32767, 32767, -32768, 0, 1])"

lemma f32_test_passes: f32_to_s16_rounds_and_saturates
proof -
  let ?ws = "[0, 0x80000000, 0x3F000000, 0xBF800000, 0x3F800000, 0x40000000, 0xC0000000, 0x7FC00000, 0x38333333] :: u32 list"
  have c: "chunks_exact 4 (rev (to_be32 w) @ bs) = rev (to_be32 w) # chunks_exact 4 bs" for w bs
    by (rule chunks_exact_append) simp_all
  have bits: "f32_bits (rev (to_be32 w)) = w" for w
    by (simp add: f32_bits_def to_be32_def from_be32_bytes)
  have "map (sample_of \<circ> f32_bits) (chunks_exact 4 (concat (map (\<lambda>w. rev (to_be32 w)) ws))) = map sample_of ws" for ws
    by (induction ws) (simp_all add: c bits chunks_exact_short del: rev.simps)
  from this [of ?ws]
  have "s16le_samples (f32le_to_s16le (concat (map (\<lambda>w. rev (to_be32 w)) ?ws))) = map sample_of ?ws"
    by (simp only: s16le_samples_f32le)
  moreover have "map sample_of ?ws = [0, 0, 16384, -32768, 32767, 32767, -32768, 0, 1]"
    by (simp add: sample_of_def f32_as_i16_def f32_to_int_def f32_round_def times_32768_def f32_from_bits_def
        saturate_i16_def Let_def)
  ultimately show ?thesis unfolding f32_to_s16_rounds_and_saturates_def s16le_samples_def Let_def by (simp only:)
qed

end
