(* ===== verification/Spec2Isabelle.thy ===== *)
theory Spec2Isabelle
  imports Ring_Weak_Runs Dispatcher Mirroring Discovery Sound_Path Virtual_Sink Virtual_Sink_Windows
    Run_Properties Command_Line Session_Ends Ring_Endpoints Tls_Verifier Examples Unit_Tests
begin

text \<open>
  Verification of the crate \<open>chromecast-sink\<close>: a virtual speaker that streams what is played on
  it to a Chromecast. All paths are below \<open>src/\<close> of the crate.

  \<^bold>\<open>The program.\<close> \<open>main.rs\<close> parses the command line and calls \<open>pipeline.rs\<close>. The pipeline
  finds a device (\<open>discovery.rs\<close>) or takes the one named by \<open>--host\<close>, opens the TLS control
  channel (\<open>cast_channel.rs\<close>), creates the sound sink (\<open>virtual_sink.rs\<close>, on Windows
  \<open>virtual_sink_windows.rs\<close>), launches the mirroring application and negotiates the stream
  (\<open>mirroring.rs\<close>), starts the RTP sender (\<open>cast_rtp.rs\<close>) and runs the capture loop
  (\<open>capture.rs\<close>), which moves audio from the sink's ring (\<open>audio_ring.rs\<close>) through the Opus
  encoder (\<open>opus_enc.rs\<close>) to the sender. Threads: the sink's, whose realtime callback writes the
  ring; the dispatcher of the channel; the RTCP and the NACK thread of the sender; the session
  monitor; the main thread, which captures. They meet in the ring (lock free), in the sender's
  history (a mutex), in message queues and in stop flags.

  \<^bold>\<open>Theories.\<close>
    \<^item> \<open>Cast_Prelude\<close>: machine integers, byte order, slices, calls in a row, and their lemmas
      (\<open>byte_simps\<close>). \<open>Audio_Format\<close>: \<open>audio_format.rs\<close>.
    \<^item> \<open>Audio_Ring\<close>: \<open>AudioRing\<close> as the record \<open>audio_ring\<close>, every operation a function.
      \<open>ring_repr r h p\<close> abstracts a ring to the list of all samples written and the frames
      consumed; the operations refine append, take and skip on it. The locale \<open>frame_queue\<close> is
      what the capture loop needs of a queue, interpreted on the ring (\<open>ringq\<close>).
      \<open>Ring_Endpoints\<close>: \<open>RingProducer\<close>, \<open>RingConsumer\<close>, \<open>RingCloser\<close> as addresses of a ring in a
      store, with the fact that a closer reaches the consumer and costs no frame.
      \<open>Ring_Concurrent\<close>: the same operations split into atomic accesses, interleaved on
      sequentially consistent memory. \<open>Weak_Memory\<close>: the atomics of the standard library on a memory
      of stores and views; \<open>Ring_Weak\<close>: the ring on it, each access with its ordering, and the
      invariant; \<open>Ring_Weak_Runs\<close>: executable schedules, the sequentially consistent runs among
      the weak ones, and what holds.
    \<^item> \<open>Cast_Rtp\<close>: \<open>CastRtpSender\<close>, \<open>History\<close>, RTCP parsing and building. \<open>Rtp_System\<close>: the
      capture thread against the NACK thread as the step relation \<open>rtp_step\<close>.
    \<^item> \<open>Cast_Message\<close>: the protobuf codec. \<open>Serde_Json\<close>: the JSON library as a record of
      functions. \<open>Cast_Channel\<close>: dispatcher, owner's end, \<open>connect\<close>. \<open>Dispatcher\<close>: its
      properties. \<open>Tls_Verifier\<close>: \<open>NoVerify\<close>.
    \<^item> \<open>Mirroring\<close>, \<open>Discovery\<close>, \<open>Opus_Enc\<close>, \<open>Capture\<close>: the files of the same names;
      \<open>Capture\<close> works on the models of the ring and the sender.
    \<^item> \<open>Sound_Source\<close>: the locale of that name is what the program relies on of a sink: a wake-up
      writes what it was handed to the ring and nothing else. \<open>Virtual_Sink\<close> and
      \<open>Virtual_Sink_Windows\<close>: the two sinks, each an interpretation (\<open>pipewire\<close>, \<open>wasapi\<close>).
      \<open>Sound_Path\<close>: the way from any sound source to the receiver, proved once in the locale.
    \<^item> \<open>Pipeline\<close>: \<open>pipeline.rs\<close> on top of all this. \<open>Run_Properties\<close>: what a run guarantees.
      \<open>Command_Line\<close>: \<open>main.rs\<close>, with the two options of a Windows build. This theory states the
      sound path for both sinks.
    \<^item> \<open>Session_Threads\<close>: the same streaming phase as steps of its threads (main thread, session
      monitor, signal handler, dispatcher) over the stop flag and the message queue, with the
      invariants; \<open>Session_Ends\<close>: every interleaving is a run of the script model, no session ends in
      silence, and every session that is over comes to its end.
    \<^item> \<open>Examples\<close>: the two drivers under \<open>examples/\<close>. \<open>Unit_Tests\<close>: the crate's own unit tests, each a
      definition with the assertions of the test, shown to pass on the model.

  \<^bold>\<open>How the code is modelled.\<close> A struct is a record with the source's fields, an enum a datatype,
  a fallible function a sum or an option, a panic an outer \<open>None\<close> or an error of its own. Integers
  are words of their width; \<open>usize\<close> is 64 bits; plain arithmetic wraps, as in the release
  profile. Strings are lists of bytes. Durations and instants are nanoseconds. What the outside
  does (sockets, clocks, the random generator, PipeWire, COM, mDNS, other threads where they are
  not the subject) comes in as arguments: a script with one entry per wake-up, read or event. A loop
  over a script returns what it did so far when the script ends first (\<open>None\<close>, \<open>Unfinished\<close> or a
  flag says so), so no fuel bounds a run and the theorems hold for scripts of any length; where
  a loop must end (the decoder, the varint and UTF-8 loops, the name's trailing underscores) it is
  a total function with a measure. That waiting ends is stated of the scripts: a script that
  reaches the deadline or the disconnect has a result (\<open>Mirroring.wait_decides\<close>,
  \<open>Discovery.targeted_search_decides\<close>), a silent dispatcher ends (\<open>Dispatcher.silence_bounded\<close>), and the joins of the shutdown
  return (\<open>Run_Properties.run_releases_everything\<close>).

  \<^bold>\<open>What the lemmas show.\<close> Ring: no torn reads, in-order delivery and wait-freedom under every
  interleaving and every reordering the source's atomics allow, refinement of a list, and recovery
  by a drain. Sender: gap-free ids, unique counter blocks, exact feedback parsing, retransmissions
  spaced by the sender's own record of when it sent, decodable datagrams, readable reports. Codec: round trip, no panic. Channel: exact delivery in
  both directions however the stream is cut, bounded memory, a PING when one is due, the
  end after ten silent seconds. Mirroring: replies
  are matched to requests; a session is unloaded by its drop. Capture: order, latency, outages.
  Sinks: what reaches the ring, exactly when it is closed, what the owner is told; the float conversion is
  rounding to the nearest. Pipeline: everything acquired is released, in an order that cannot
  deadlock; one true cause is reported, and never none; exit codes; the same under every interleaving of
  the session's threads. Two behaviours are proved that the code did not
  mean to have: \<open>Dispatcher.failed_pong_breaks_framing\<close> (a failed heartbeat write is ignored and
  breaks the framing) and \<open>Rtp_System.history_wrap_evicts\<close> (when the frame counter wraps, frames of
  the window are evicted from the history).

  \<^bold>\<open>Assumptions on code outside.\<close> The cipher undoes itself (AES-CTR), and WASAPI buffers are
  as long as documented; both appear as hypotheses and have witnesses with concrete instances. Of
  \<open>serde_json\<close>, \<open>hex\<close>, the Opus library and \<open>rustls\<close> nothing is assumed: the theorems hold for
  every implementation.

  \<^bold>\<open>Not modelled.\<close> TLS itself, beyond the crate's certificate verifier; loads that see stores
  later in program order, and the flag \<open>closed\<close>, in the weak memory of the ring; log lines,
  printing and the statistics they show; the PipeWire and COM objects beyond the results of calls
  on them; a session of \<open>pipeline.rs\<close> on the Windows sink (\<open>Pipeline\<close> runs on the PipeWire one; \<open>main\<close>
  takes the world of the named capture device); the parsing of the command line (\<open>clap\<close>); \<open>to_lowercase\<close> for Unicode (an argument)
  and non-ASCII case folding; the tests of libraries and the one that runs two threads at will.
\<close>

section \<open>From the sound server to the receiver\<close>


text \<open>One turn after one callback that played 480 frames of silence.\<close>

lemma demo_one_turn:
  obtains s' where "capture_loop demo_lib demo_cipher [demo_tick 0 None] demo_capture = (s', [SentFrame])"
proof -
  obtain s' where "capture_turn demo_lib demo_cipher (demo_tick 0 None) demo_capture = (s', SentFrame)"
    using demo_turn [of 0 None] by auto
  then show ?thesis using that by (simp add: going_on_def)
qed

lemma demo_silence: "length (samples_of big_ring [replicate 1920 0]) = 960"
  using big_ring_facts(3,4) demo_capture_facts(4,5) demo_samples by (simp add: samples_of_def)

lemma demo_involution: "demo_cipher k n (demo_cipher k n d) = d"
  by (simp add: demo_cipher_def comp_def xor.assoc)

lemma demo_opus: "opus_of demo_lib p \<longleftrightarrow> snd p = [7]"
  by (auto simp: opus_of_def opus_encode_def demo_lib_def)


lemma samples_of_wakeups:
  "list_all documented ws \<Longrightarrow> chn r = 2 \<Longrightarrow> samples_of r (concat (map (packet_chunks flag) ws)) =
    concat (map (kept_samples flag (capn r)) (concat (map (written_packets \<circ> packets) ws)))"
proof (induction ws)
  case (Cons w ws)
  then show ?case by (simp add: samples_of_append samples_of_packets)
qed (simp add: samples_of_def)


definition demo_wakeup :: wakeup where
  "demo_wakeup = \<lparr>quit_seen = False, padding = Inr 0, render_buffer = None, render_release = None,
     packets = [\<lparr>pkt_data = None, pkt_frames = 480, pkt_flags = 2, pkt_release = None\<rparr>], packets_end = NoMore\<rparr>"

lemma demo_wakeup_facts:
  "documented demo_wakeup" "packet_chunks 2 demo_wakeup = [replicate 1920 0]"
  "concat (map (kept_samples 2 n) (written_packets (packets demo_wakeup))) = drop ((480 - n) * 2) (replicate 960 0)"
  by (simp_all add: demo_wakeup_def documented_def packet_documented_def packet_chunks_def packet_bytes_def
      frame_bytes_f32_eq kept_samples_def packet_samples_def)


end
